(* ===== verification/Prelude.thy ===== *)
theory Prelude
  imports Main "HOL-Library.Word"
begin

text \<open>
  Shared vocabulary of the development.

  A byte of the C++ program (\<open>char\<close>, \<open>uint8_t\<close>) is an Isabelle \<open>char\<close>, which has exactly 256
  values, so that \<open>std::string\<close>, \<open>std::string_view\<close> and \<open>std::vector<char>\<close> are all \<open>string\<close>
  and the literals of the source are literals of the model. Fixed-width integers whose wrap-around is
  observable (\<open>uint16_t\<close>, \<open>uint32_t\<close>, \<open>uint64_t\<close>) are words; sizes and indices (\<open>size_t\<close>) are
  \<open>nat\<close>, since they count bytes of objects that fit into the address space.

  The theory also holds the facts about lists, words and maps that several components use, and the
  one interface every state machine of the development shares: a transition system with an
  inductive invariant.
\<close>

unbundle bit_operations_syntax

type_synonym u16 = "16 word"
type_synonym u32 = "32 word"
type_synonym u64 = "64 word"
type_synonym bytes = string

named_theorems inv_simps \<open>definitions of the component invariants\<close>
named_theorems abs_simps \<open>what each operation does to the abstract value of a component\<close>

section \<open>Bytes and words\<close>

text \<open>
  \<open>static_cast<char>(v & 0xFF)\<close> and \<open>static_cast<T>(static_cast<uint8_t>(c))\<close>.
\<close>

definition byte_of :: "'a::len word \<Rightarrow> char" where
  "byte_of w = char_of (unat (w AND 0xFF))"

definition word_of_byte :: "char \<Rightarrow> 'a::len word" where
  "word_of_byte c = of_nat (of_char c)"

lemma of_char_less_256 [simp]: "(of_char c :: nat) < 256"
proof -
  have "(of_char c :: nat) mod 256 < 256" by simp
  then show ?thesis by simp
qed

lemma unat_and_FF: "unat (w AND 0xFF :: 'a::len word) = unat w mod 256"
proof -
  have "w AND 0xFF = take_bit 8 w" by (simp add: take_bit_eq_mask mask_eq_exp_minus_1)
  then have "unat (w AND 0xFF) = take_bit 8 (unat w)" by (simp add: unsigned_take_bit_eq)
  then show ?thesis by (simp add: take_bit_eq_mod)
qed

lemma word_of_byte_of [simp]: "(word_of_byte (byte_of w) :: 'a::len word) = w AND 0xFF"
proof -
  have "unat (w AND 0xFF) mod 256 = unat (w AND 0xFF)" by (simp add: unat_and_FF)
  then have "of_char (byte_of w) = unat (w AND 0xFF)" by (simp add: byte_of_def)
  then show ?thesis by (simp add: word_of_byte_def)
qed

lemma byte_of_word_of_byte [simp]:
  assumes "8 \<le> LENGTH('a::len)"
  shows "byte_of (word_of_byte c :: 'a word) = c"
proof -
  have p: "(2::nat) ^ 8 \<le> 2 ^ LENGTH('a)" using assms by (rule power_increasing) simp
  have "(of_char c :: nat) < 2 ^ 8" by simp
  with p have "(of_char c :: nat) < 2 ^ LENGTH('a)" by (rule order_less_le_trans [rotated])
  then have u: "unat (word_of_byte c :: 'a word) = of_char c"
    by (simp add: word_of_byte_def unat_of_nat take_bit_nat_eq_self)
  show ?thesis by (simp add: byte_of_def u unat_and_FF)
qed

section \<open>Lists\<close>

text \<open>\<open>memcpy\<close>/\<open>memmove\<close> into a vector: overwrite from an offset.\<close>

definition overwrite :: "'a list \<Rightarrow> nat \<Rightarrow> 'a list \<Rightarrow> 'a list" where
  "overwrite xs off ys = take off xs @ ys @ drop (off + length ys) xs"

lemma length_overwrite [simp]:
  "off + length ys \<le> length xs \<Longrightarrow> length (overwrite xs off ys) = length xs"
  by (simp add: overwrite_def)

lemma take_overwrite [simp]: "off \<le> length xs \<Longrightarrow> take off (overwrite xs off ys) = take off xs"
  by (simp add: overwrite_def)

lemma take_drop_overwrite:
  assumes "off \<le> length xs" "r \<le> off"
  shows "take (off + length ys - r) (drop r (overwrite xs off ys)) = take (off - r) (drop r xs) @ ys"
  using assms by (simp add: overwrite_def drop_take)

lemma take_drop_snoc:
  "r \<le> i \<Longrightarrow> i < length xs \<Longrightarrow> take (Suc i - r) (drop r xs) = take (i - r) (drop r xs) @ [xs ! i]"
  by (simp add: Suc_diff_le take_Suc_conv_app_nth)

section \<open>Transition systems\<close>

text \<open>
  Every stateful component is an initial predicate and a step relation. The client of the interface
  is any safety argument: an invariant that holds initially and is kept by each step holds in every
  reachable state.
\<close>

inductive reach :: "('s \<Rightarrow> bool) \<Rightarrow> ('s \<Rightarrow> 's \<Rightarrow> bool) \<Rightarrow> 's \<Rightarrow> bool"
  for init :: "'s \<Rightarrow> bool" and step :: "'s \<Rightarrow> 's \<Rightarrow> bool" where
  reach_init: "init s \<Longrightarrow> reach init step s"
| reach_step: "reach init step s \<Longrightarrow> step s t \<Longrightarrow> reach init step t"

locale invariant_system =
  fixes init :: "'s \<Rightarrow> bool" and step :: "'s \<Rightarrow> 's \<Rightarrow> bool" and inv :: "'s \<Rightarrow> bool"
  assumes inv_init: "init s \<Longrightarrow> inv s"
    and inv_step: "inv s \<Longrightarrow> step s t \<Longrightarrow> inv t"
begin

lemma reach_inv: "reach init step s \<Longrightarrow> inv s"
  by (induction rule: reach.induct) (auto intro: inv_init inv_step)

lemma steps_inv: "step\<^sup>*\<^sup>* s t \<Longrightarrow> inv s \<Longrightarrow> inv t"
  by (induction rule: rtranclp_induct) (auto intro: inv_step)

end

end
