(* ===== verification/Buffer.thy ===== *)
theory Buffer
  imports Prelude
begin

text \<open>
  \<open>src/util/buffer.h\<close>: the byte buffer every connection reads into and writes from.

  The record keeps the vector and the two cursors of the class. A pointer into the vector is an
  offset; \<open>peek\<close> is the offset \<open>reader_index\<close>, so \<open>find_crlf\<close> returns an offset relative to it.
  The abstract value of a buffer is its readable region, and the interface \<open>byte_stream\<close> states what
  its clients (the frame codec, the HTTP parser, the connection) rely on.
\<close>

section \<open>State and operations\<close>

record buffer =
  bdata :: bytes
  reader_index :: nat
  writer_index :: nat

definition kInitialSize :: nat where
  "kInitialSize = 1024"

definition kPrependSize :: nat where
  "kPrependSize = 8"

definition new_buffer :: buffer where
  "new_buffer = \<lparr>bdata = replicate (kPrependSize + kInitialSize) (CHR 0x00),
                 reader_index = kPrependSize, writer_index = kPrependSize\<rparr>"

definition readable_bytes :: "buffer \<Rightarrow> nat" where
  "readable_bytes b = writer_index b - reader_index b"

definition writable_bytes :: "buffer \<Rightarrow> nat" where
  "writable_bytes b = length (bdata b) - writer_index b"

definition prependable_bytes :: "buffer \<Rightarrow> nat" where
  "prependable_bytes b = reader_index b"

definition buf_empty :: "buffer \<Rightarrow> bool" where
  "buf_empty b \<longleftrightarrow> readable_bytes b = 0"

text \<open>Reading \<open>len\<close> bytes of the vector from an offset, as \<open>std::string(ptr, len)\<close> does.\<close>

definition mem_read :: "buffer \<Rightarrow> nat \<Rightarrow> nat \<Rightarrow> bytes" where
  "mem_read b off len = take len (drop off (bdata b))"

definition readable_view :: "buffer \<Rightarrow> bytes" where
  "readable_view b = mem_read b (reader_index b) (readable_bytes b)"

definition retrieve_all :: "buffer \<Rightarrow> buffer" where
  "retrieve_all b = b\<lparr>reader_index := kPrependSize, writer_index := kPrependSize\<rparr>"

definition retrieve :: "buffer \<Rightarrow> nat \<Rightarrow> buffer" where
  "retrieve b len =
     (if len \<ge> readable_bytes b then retrieve_all b
      else b\<lparr>reader_index := reader_index b + len\<rparr>)"

definition retrieve_all_as_string :: "buffer \<Rightarrow> bytes \<times> buffer" where
  "retrieve_all_as_string b = (mem_read b (reader_index b) (readable_bytes b), retrieve_all b)"

definition retrieve_as_string :: "buffer \<Rightarrow> nat \<Rightarrow> bytes \<times> buffer" where
  "retrieve_as_string b len = (mem_read b (reader_index b) len, retrieve b len)"

definition retrieve_until :: "buffer \<Rightarrow> nat \<Rightarrow> buffer" where
  "retrieve_until b end_off = retrieve b end_off"

definition kCRLF :: bytes where
  "kCRLF = [CHR 0x0D, CHR 0x0A]"

text \<open>\<open>std::search\<close> for the two bytes of \<open>kCRLF\<close>: the first position where they stand.\<close>

fun search_crlf :: "bytes \<Rightarrow> nat option" where
  "search_crlf (c # d # cs) =
     (if [c, d] = kCRLF then Some 0 else map_option Suc (search_crlf (d # cs)))"
| "search_crlf _ = None"

definition find_crlf :: "buffer \<Rightarrow> nat option" where
  "find_crlf b = search_crlf (readable_view b)"

definition has_written :: "buffer \<Rightarrow> nat \<Rightarrow> buffer" where
  "has_written b len = b\<lparr>writer_index := writer_index b + len\<rparr>"

text \<open>What a system call (or \<open>memcpy\<close>) does when it stores bytes at \<open>begin_write()\<close>.\<close>

definition store_at_writer :: "buffer \<Rightarrow> bytes \<Rightarrow> buffer" where
  "store_at_writer b xs = b\<lparr>bdata := overwrite (bdata b) (writer_index b) xs\<rparr>"

definition ensure_writable :: "buffer \<Rightarrow> nat \<Rightarrow> buffer" where
  "ensure_writable b len =
     (if writable_bytes b \<ge> len then b
      else if writable_bytes b + prependable_bytes b \<ge> len + kPrependSize then
        let readable = readable_bytes b in
        b\<lparr>bdata := overwrite (bdata b) kPrependSize (mem_read b (reader_index b) readable),
          reader_index := kPrependSize,
          writer_index := kPrependSize + readable\<rparr>
      else b\<lparr>bdata := take (writer_index b + len) (bdata b)
               @ replicate (writer_index b + len - length (bdata b)) (CHR 0x00)\<rparr>)"

definition buf_append :: "buffer \<Rightarrow> bytes \<Rightarrow> buffer" where
  "buf_append b xs = has_written (store_at_writer (ensure_writable b (length xs)) xs) (length xs)"

section \<open>Invariant\<close>

text \<open>
  The layout comment of the class, with the fact the compaction relies on: the reader never moves
  in front of the prepend area.
\<close>

definition buffer_inv :: "buffer \<Rightarrow> bool" where
  "buffer_inv b \<longleftrightarrow> kPrependSize \<le> reader_index b \<and> reader_index b \<le> writer_index b
     \<and> writer_index b \<le> length (bdata b)"

lemmas buffer_defs = readable_bytes_def writable_bytes_def prependable_bytes_def mem_read_def
  retrieve_all_def has_written_def store_at_writer_def

lemma buffer_inv_new [simp]: "buffer_inv new_buffer"
  by (simp add: buffer_inv_def new_buffer_def)

lemma readable_view_new [simp]: "readable_view new_buffer = []"
  by (simp add: readable_view_def new_buffer_def buffer_defs)

lemma length_readable_view: "buffer_inv b \<Longrightarrow> length (readable_view b) = readable_bytes b"
  by (auto simp: buffer_inv_def readable_view_def buffer_defs)

lemma buf_empty_view: "buffer_inv b \<Longrightarrow> buf_empty b \<longleftrightarrow> readable_view b = []"
  by (simp add: buf_empty_def flip: length_readable_view)

lemma retrieve_all_inv: "buffer_inv b \<Longrightarrow> buffer_inv (retrieve_all b)"
  by (simp add: buffer_inv_def retrieve_all_def)

lemma readable_view_retrieve_all [simp]: "readable_view (retrieve_all b) = []"
  by (simp add: readable_view_def buffer_defs)

lemma retrieve_inv: "buffer_inv b \<Longrightarrow> buffer_inv (retrieve b n)"
  by (auto simp: retrieve_def retrieve_all_inv) (simp add: buffer_inv_def readable_bytes_def)

lemma readable_view_retrieve:
  "buffer_inv b \<Longrightarrow> readable_view (retrieve b n) = drop n (readable_view b)"
  by (auto simp: retrieve_def length_readable_view)
    (simp add: readable_view_def buffer_defs drop_take add.commute)

lemma ensure_writable_inv: "buffer_inv b \<Longrightarrow> buffer_inv (ensure_writable b n)"
  by (auto simp: ensure_writable_def buffer_inv_def Let_def buffer_defs kPrependSize_def)

lemma readable_view_ensure_writable:
  "buffer_inv b \<Longrightarrow> readable_view (ensure_writable b n) = readable_view b"
  by (auto simp: ensure_writable_def buffer_inv_def Let_def readable_view_def buffer_defs overwrite_def)

lemma writable_ensure_writable: "buffer_inv b \<Longrightarrow> n \<le> writable_bytes (ensure_writable b n)"
  by (auto simp: ensure_writable_def buffer_inv_def Let_def buffer_defs)

text \<open>Storing at the writer and advancing it, within the writable region: what \<open>append\<close> and \<open>read\<close> do.\<close>

lemma fill_inv:
  "buffer_inv b \<Longrightarrow> length xs \<le> writable_bytes b
    \<Longrightarrow> buffer_inv (has_written (store_at_writer b xs) (length xs))"
  by (auto simp: buffer_inv_def buffer_defs overwrite_def)

lemma readable_view_fill:
  "buffer_inv b \<Longrightarrow> length xs \<le> writable_bytes b
    \<Longrightarrow> readable_view (has_written (store_at_writer b xs) (length xs)) = readable_view b @ xs"
  by (simp add: buffer_inv_def readable_view_def buffer_defs take_drop_overwrite)

lemma buf_append_inv: "buffer_inv b \<Longrightarrow> buffer_inv (buf_append b xs)"
  unfolding buf_append_def by (intro fill_inv ensure_writable_inv writable_ensure_writable)

lemma readable_view_append: "buffer_inv b \<Longrightarrow> readable_view (buf_append b xs) = readable_view b @ xs"
  by (simp add: buf_append_def readable_view_fill ensure_writable_inv writable_ensure_writable
      readable_view_ensure_writable)

section \<open>The interface of a byte stream\<close>

text \<open>What a client of the buffer relies on: a queue of bytes, appended at the back and consumed in front.\<close>

locale byte_stream =
  fixes inv :: "'b \<Rightarrow> bool" and view :: "'b \<Rightarrow> bytes"
    and app :: "'b \<Rightarrow> bytes \<Rightarrow> 'b" and consume :: "'b \<Rightarrow> nat \<Rightarrow> 'b"
  assumes app_inv: "inv b \<Longrightarrow> inv (app b xs)"
    and consume_inv: "inv b \<Longrightarrow> inv (consume b n)"
    and view_app: "inv b \<Longrightarrow> view (app b xs) = view b @ xs"
    and view_consume: "inv b \<Longrightarrow> view (consume b n) = drop n (view b)"
begin

lemma fold_app: "inv b \<Longrightarrow> inv (foldl app b xss) \<and> view (foldl app b xss) = view b @ concat xss"
  by (induction xss arbitrary: b) (auto simp: app_inv view_app)

lemma consume_app_front:
  "inv b \<Longrightarrow> n \<le> length (view b) \<Longrightarrow> view (consume (app b xs) n) = view (consume b n) @ xs"
  by (simp add: app_inv view_app view_consume)

lemma consume_consume: "inv b \<Longrightarrow> view (consume (consume b m) n) = view (consume b (m + n))"
  by (simp add: consume_inv view_consume add.commute)

lemma fifo: "inv b \<Longrightarrow> view b = [] \<Longrightarrow> take (length xs) (view (app (app b xs) ys)) = xs
    \<and> view (consume (app (app b xs) ys) (length xs)) = ys"
  by (simp add: app_inv view_app view_consume)

end

interpretation buf: byte_stream buffer_inv readable_view buf_append retrieve
  by unfold_locales
    (simp_all add: buf_append_inv retrieve_inv readable_view_append readable_view_retrieve)

section \<open>Searching for the end of a line\<close>

lemma search_crlf_Some:
  "search_crlf cs = Some i \<Longrightarrow> Suc i < length cs \<and> take 2 (drop i cs) = kCRLF"
proof (induction cs arbitrary: i rule: search_crlf.induct)
  case (1 c d cs)
  then show ?case by (cases i) (auto simp: kCRLF_def split: if_splits)
qed simp_all

lemma search_crlf_bound: "search_crlf cs = Some i \<Longrightarrow> i + 2 \<le> length cs"
  using search_crlf_Some by fastforce

lemma search_crlf_None:
  "search_crlf cs = None \<Longrightarrow> take 2 (drop i cs) \<noteq> kCRLF"
proof (induction cs arbitrary: i rule: search_crlf.induct)
  case (1 c d cs)
  then show ?case by (cases i) (auto simp: kCRLF_def split: if_splits)
qed (auto simp: kCRLF_def take_Cons' drop_Cons')

lemma search_crlf_first:
  "search_crlf cs = Some i \<Longrightarrow> j < i \<Longrightarrow> take 2 (drop j cs) \<noteq> kCRLF"
proof (induction cs arbitrary: i j rule: search_crlf.induct)
  case (1 c d cs)
  then show ?case by (cases j) (auto simp: kCRLF_def split: if_splits)
qed simp_all

text \<open>More input does not move the first line end.\<close>

lemma search_crlf_append: "search_crlf cs = Some i \<Longrightarrow> search_crlf (cs @ ds) = Some i"
proof (induction cs arbitrary: i rule: search_crlf.induct)
  case (1 c d cs)
  then show ?case by (auto simp: kCRLF_def split: if_splits)
qed simp_all

text \<open>A line without a carriage return ends where its \<open>kCRLF\<close> stands.\<close>

lemma search_crlf_line: "CHR 0x0D \<notin> set l \<Longrightarrow> search_crlf (l @ kCRLF @ rest) = Some (length l)"
proof (induction l)
  case (Cons c l)
  then show ?case by (cases l) (auto simp: kCRLF_def)
qed (simp add: kCRLF_def)

end
