(* ===== verification/Length_Codec.thy ===== *)
theory Length_Codec
  imports Buffer Big_Endian
begin

text \<open>
  \<open>src/util/length_prefixed_codec.h\<close>: frames of a 4-byte big-endian length and a payload.

  \<open>frame_encode\<close> and \<open>frame_decode\<close> are the two static functions, the second a loop over the
  buffer with the 32-bit sum \<open>4u + len\<close> kept at its width. \<open>split_frames\<close> is the abstract
  specification on byte strings, without buffers and without wrap-around; the decoder refines it for
  every limit below \<open>2\<^sup>3\<^sup>2 - 4\<close>. On the specification the two stream properties are proved: the
  frames of a stream come out in order, and they do not depend on how the stream was cut into reads.
\<close>

section \<open>The codec\<close>

definition kDefaultMaxFrameLen :: u32 where
  "kDefaultMaxFrameLen = 16 * 1024 * 1024"

definition frame_encode :: "bytes \<Rightarrow> bytes" where
  "frame_encode payload =
     (let len = of_nat (length payload) :: u32
      in [byte_of (drop_bit 24 len AND 0xFF), byte_of (drop_bit 16 len AND 0xFF),
          byte_of (drop_bit 8 len AND 0xFF), byte_of (len AND 0xFF)] @ payload)"

definition peek_uint32_be :: "buffer \<Rightarrow> u32" where
  "peek_uint32_be b =
     (let p = mem_read b (reader_index b) 4
      in 0 OR push_bit 24 (word_of_byte (p ! 0)) OR push_bit 16 (word_of_byte (p ! 1))
           OR push_bit 8 (word_of_byte (p ! 2)) OR word_of_byte (p ! 3))"

lemma readable_bytes_retrieve: "readable_bytes (retrieve b n) = readable_bytes b - n"
  by (simp add: retrieve_def buffer_defs)

function frame_decode :: "u32 \<Rightarrow> buffer \<Rightarrow> bytes list \<Rightarrow> bool \<times> buffer \<times> bytes list" where
  "frame_decode max_frame_len input out =
     (if readable_bytes input < 4 then (True, input, out)
      else let len = peek_uint32_be input in
        if len = 0 \<or> len > max_frame_len then (False, input, out)
        else if readable_bytes input < unat (4 + len) then (True, input, out)
        else let (s, input') = retrieve_as_string (retrieve input 4) (unat len)
             in frame_decode max_frame_len input' (out @ [s]))"
  by pat_completeness auto
termination
  by (relation "measure (\<lambda>(m, b, out). readable_bytes b)")
    (auto simp: retrieve_as_string_def readable_bytes_retrieve)

declare frame_decode.simps [simp del]

section \<open>Specification on byte strings\<close>

function split_frames :: "nat \<Rightarrow> bytes \<Rightarrow> bool \<times> bytes \<times> bytes list" where
  "split_frames lim cs =
     (if length cs < 4 then (True, cs, [])
      else let n = be_nat (take 4 cs) in
        if n = 0 \<or> lim < n then (False, cs, [])
        else if length cs < 4 + n then (True, cs, [])
        else let (ok, rest, ms) = split_frames lim (drop (4 + n) cs)
             in (ok, rest, take n (drop 4 cs) # ms))"
  by pat_completeness auto
termination
  by (relation "measure (\<lambda>(m, cs). length cs)") auto

declare split_frames.simps [simp del]

section \<open>Refinement\<close>

lemma take_4_nth: "4 \<le> length cs \<Longrightarrow> take 4 cs = [cs ! 0, cs ! 1, cs ! 2, cs ! 3]"
  by (rule nth_equalityI) (auto simp: less_Suc_eq numeral_eq_Suc)

lemma mem_read_front: "n \<le> readable_bytes b \<Longrightarrow> mem_read b (reader_index b) n = take n (readable_view b)"
  by (simp add: readable_view_def mem_read_def)

text \<open>The unrolled shifts are one Horner step per byte, as in the generic \<open>read_be\<close>.\<close>

lemma peek_uint32_be_eq:
  assumes "buffer_inv b" "4 \<le> readable_bytes b"
  shows "peek_uint32_be b = of_nat (be_nat (take 4 (readable_view b)))"
proof -
  define p where "p = take 4 (readable_view b)"
  have p: "p = [p ! 0, p ! 1, p ! 2, p ! 3]"
    using assms take_4_nth [of p] by (simp add: p_def length_readable_view)
  have "peek_uint32_be b = read_be_loop 0 [p ! 0, p ! 1, p ! 2, p ! 3]"
    using assms(2) by (simp add: peek_uint32_be_def mem_read_front p_def push_bit_or or.assoc)
  then have "peek_uint32_be b = read_be_loop 0 p" by (simp only: p [symmetric])
  then show ?thesis by (simp add: read_be_loop_eq p_def)
qed

lemma unat_peek_uint32_be:
  assumes "buffer_inv b" "4 \<le> readable_bytes b"
  shows "unat (peek_uint32_be b) = be_nat (take 4 (readable_view b))"
proof -
  have "be_nat (take 4 (readable_view b)) < 256 ^ length (take 4 (readable_view b))"
    by (rule be_nat_less)
  then have "be_nat (take 4 (readable_view b)) < 2 ^ 32"
    using assms by (simp add: length_readable_view)
  then show ?thesis by (simp add: peek_uint32_be_eq assms unat_of_nat take_bit_nat_eq_self)
qed

text \<open>Where the limit leaves room for the header, \<open>4u + len\<close> does not wrap.\<close>

lemma unat_header_plus_len:
  assumes "unat lim < 2 ^ 32 - 4" "len \<le> (lim :: u32)"
  shows "unat (4 + len) = 4 + unat len"
proof -
  have "unat len \<le> unat lim" using assms(2) by (simp add: word_le_nat_alt)
  then have "4 + unat len < 2 ^ 32" using assms(1) by simp
  then show ?thesis by (simp add: unat_word_ariths)
qed

text \<open>One iteration of the loop, in terms of the readable bytes.\<close>

lemma frame_decode_unfold:
  assumes "buffer_inv b" "unat lim < 2 ^ 32 - 4"
  shows "frame_decode lim b out =
     (let cs = readable_view b; n = be_nat (take 4 cs)
      in if length cs < 4 then (True, b, out)
         else if n = 0 \<or> unat lim < n then (False, b, out)
         else if length cs < 4 + n then (True, b, out)
         else frame_decode lim (retrieve (retrieve b 4) n) (out @ [take n (drop 4 cs)]))"
proof (cases "readable_bytes b < 4")
  case True
  then show ?thesis using assms by (simp add: frame_decode.simps [of lim b] length_readable_view)
next
  case False
  define n where "n = be_nat (take 4 (readable_view b))"
  have peek: "unat (peek_uint32_be b) = n"
    using unat_peek_uint32_be assms(1) False by (simp add: n_def)
  have bad: "(peek_uint32_be b = 0 \<or> lim < peek_uint32_be b) \<longleftrightarrow> (n = 0 \<or> unat lim < n)"
    by (simp add: word_less_nat_alt peek flip: unat_eq_0)
  have sum: "unat (4 + peek_uint32_be b) = 4 + n" if "\<not> (n = 0 \<or> unat lim < n)"
    using that unat_header_plus_len [OF assms(2), of "peek_uint32_be b"] bad
    by (auto simp: peek not_less)
  have str: "mem_read (retrieve b 4) (reader_index (retrieve b 4)) n = take n (drop 4 (readable_view b))"
    if "4 + n \<le> readable_bytes b"
    using that assms(1) by (simp add: mem_read_front readable_bytes_retrieve readable_view_retrieve)
  show ?thesis using False bad sum str
    by (auto simp: frame_decode.simps [of lim b out] Let_def length_readable_view assms(1)
        retrieve_as_string_def peek n_def)
qed

lemma frame_decode_refines:
  assumes "buffer_inv b" "unat lim < 2 ^ 32 - 4"
    and "split_frames (unat lim) (readable_view b) = (ok, rest, ms)"
  shows "\<exists>b'. frame_decode lim b out = (ok, b', out @ ms) \<and> buffer_inv b' \<and> readable_view b' = rest"
  using assms
proof (induction b arbitrary: out ok rest ms
    rule: measure_induct_rule [where f = "\<lambda>b. length (readable_view b)"])
  case (less b)
  let ?cs = "readable_view b" and ?n = "be_nat (take 4 (readable_view b))"
  let ?b = "retrieve (retrieve b 4) ?n"
  show ?case
  proof (cases "length ?cs < 4 \<or> ?n = 0 \<or> unat lim < ?n \<or> length ?cs < 4 + ?n")
    case True
    with less show ?thesis
      by (subst frame_decode_unfold) (auto simp: split_frames.simps [of _ ?cs] Let_def split: if_splits)
  next
    case False
    have view: "readable_view ?b = drop (4 + ?n) ?cs" and inv: "buffer_inv ?b"
      using less.prems(1) by (simp_all add: readable_view_retrieve retrieve_inv add.commute)
    from False less.prems(3) obtain ms' where
      ms: "ms = take ?n (drop 4 ?cs) # ms'" and rec: "split_frames (unat lim) (readable_view ?b) = (ok, rest, ms')"
      by (auto simp: split_frames.simps [of _ ?cs] view Let_def split: prod.splits)
    have dec: "frame_decode lim b out = frame_decode lim ?b (out @ [take ?n (drop 4 ?cs)])"
      using False less.prems(1,2) by (subst frame_decode_unfold) (auto simp: Let_def)
    have "length (readable_view ?b) < length ?cs" using False unfolding view length_drop by linarith
    from less.IH [OF this inv less.prems(2) rec, of "out @ [take ?n (drop 4 ?cs)]"] show ?thesis
      by (simp add: dec ms)
  qed
qed

section \<open>Stream properties of the specification\<close>

text \<open>A payload the protocol can carry, a header that must be refused, a frame still on its way.\<close>

definition valid_payload :: "nat \<Rightarrow> bytes \<Rightarrow> bool" where
  "valid_payload lim p \<longleftrightarrow> 0 < length p \<and> length p \<le> lim"

definition bad_header :: "nat \<Rightarrow> bytes \<Rightarrow> bool" where
  "bad_header lim cs \<longleftrightarrow> 4 \<le> length cs \<and> (be_nat (take 4 cs) = 0 \<or> lim < be_nat (take 4 cs))"

definition incomplete :: "nat \<Rightarrow> bytes \<Rightarrow> bool" where
  "incomplete lim cs \<longleftrightarrow> length cs < 4
     \<or> 0 < be_nat (take 4 cs) \<and> be_nat (take 4 cs) \<le> lim \<and> length cs < 4 + be_nat (take 4 cs)"

lemma be_bytes_4: "be_bytes 4 v = [char_of (v div 2 ^ 24), char_of (v div 2 ^ 16), char_of (v div 2 ^ 8), char_of v]"
proof -
  have four: "4 = Suc (Suc (Suc (Suc 0)))" by simp
  show ?thesis unfolding four by simp
qed

lemma frame_encode_eq: "frame_encode p = be_bytes 4 (length p mod 2 ^ 32) @ p"
proof -
  have "unat (of_nat (length p) :: u32) = length p mod 2 ^ 32"
    by (simp add: unat_of_nat take_bit_eq_mod)
  then show ?thesis
    by (simp add: frame_encode_def be_bytes_4 Let_def byte_of_unat unat_and_FF unat_drop_bit)
qed

lemma length_frame_encode [simp]: "length (frame_encode p) = 4 + length p"
  by (simp add: frame_encode_eq)

lemma frame_header: "length p < 2 ^ 32 \<Longrightarrow> be_nat (take 4 (frame_encode p @ cs)) = length p"
  by (simp add: frame_encode_eq be_nat_be_bytes)

text \<open>The four outcomes of looking at the front of the stream.\<close>

lemma split_frames_cases:
  assumes "split_frames lim cs = (ok, rest, ms)"
  obtains (wait) "ok" "rest = cs" "ms = []" "incomplete lim cs"
  | (bad) "\<not> ok" "rest = cs" "ms = []" "bad_header lim cs"
  | (frame) p cs' ms' where "cs = be_bytes 4 (length p) @ p @ cs'" "length p < 2 ^ 32" "valid_payload lim p"
      "split_frames lim cs' = (ok, rest, ms')" "ms = p # ms'"
proof -
  let ?n = "be_nat (take 4 cs)"
  show ?thesis
  proof (cases "4 \<le> length cs \<and> 0 < ?n \<and> ?n \<le> lim \<and> 4 + ?n \<le> length cs")
    case True
    let ?p = "take ?n (drop 4 cs)"
    have len: "length ?p = ?n" using True by auto
    have "cs = take 4 cs @ ?p @ drop (4 + ?n) cs"
      by (metis append_take_drop_id drop_drop add.commute)
    moreover have "take 4 cs = be_bytes 4 ?n" using True be_bytes_be_nat [of "take 4 cs"] by simp
    ultimately have "cs = be_bytes 4 (length ?p) @ ?p @ drop (4 + ?n) cs" by (simp only: len)
    moreover have "?n < 2 ^ 32" using True be_nat_less [of "take 4 cs"] by simp
    moreover have "valid_payload lim ?p" using True unfolding valid_payload_def len by blast
    moreover obtain ms' where "split_frames lim (drop (4 + ?n) cs) = (ok, rest, ms')" "ms = ?p # ms'"
      using assms True by (subst (asm) split_frames.simps) (auto simp: Let_def split: prod.splits)
    ultimately show ?thesis using frame len by metis
  next
    case False
    then show ?thesis using assms wait bad unfolding incomplete_def bad_header_def
      by (subst (asm) split_frames.simps) (auto simp: Let_def split: if_splits)
  qed
qed

text \<open>Every frame the specification returns is the encoding of a valid payload: nothing is invented.\<close>

lemma split_frames_sound:
  assumes "split_frames lim cs = (ok, rest, ms)"
  shows "cs = concat (map frame_encode ms) @ rest \<and> (\<forall>m\<in>set ms. valid_payload lim m)"
  using assms
proof (induction cs arbitrary: ms rule: measure_induct_rule [where f = length])
  case (less cs)
  from less.prems show ?case
  proof (cases rule: split_frames_cases)
    case (frame p cs' ms')
    with less.IH [of cs' ms'] show ?thesis by (simp add: frame_encode_eq)
  qed auto
qed

lemma split_frames_encode:
  assumes "valid_payload lim p" "lim < 2 ^ 32" "split_frames lim cs = (ok, rest, ms)"
  shows "split_frames lim (frame_encode p @ cs) = (ok, rest, p # ms)"
proof -
  have "be_nat (take 4 (frame_encode p @ cs)) = length p"
    using assms by (intro frame_header) (simp add: valid_payload_def)
  moreover have "drop (4 + length p) (frame_encode p @ cs) = cs" "take (length p) (drop 4 (frame_encode p @ cs)) = p"
    by (simp_all add: frame_encode_eq)
  ultimately show ?thesis using assms by (subst split_frames.simps) (simp add: valid_payload_def Let_def)
qed

lemma split_frames_concat:
  assumes "\<forall>p\<in>set ps. valid_payload lim p" "lim < 2 ^ 32" "split_frames lim cs = (ok, rest, ms)"
  shows "split_frames lim (concat (map frame_encode ps) @ cs) = (ok, rest, ps @ ms)"
  using assms by (induction ps) (simp_all add: split_frames_encode)

text \<open>Cutting the stream anywhere gives the same frames.\<close>

lemma split_frames_append:
  assumes "lim < 2 ^ 32" "split_frames lim xs = (True, rest, ms)"
    and "split_frames lim (rest @ ys) = (ok, rest', ms')"
  shows "split_frames lim (xs @ ys) = (ok, rest', ms @ ms')"
  using split_frames_sound [OF assms(2)] split_frames_concat [OF _ assms(1,3), of ms] by simp

lemma split_frames_rest:
  assumes "split_frames lim cs = (ok, rest, ms)"
  shows "if ok then incomplete lim rest else bad_header lim rest"
  using assms
proof (induction cs arbitrary: ms rule: measure_induct_rule [where f = length])
  case (less cs)
  from less.prems show ?case
  proof (cases rule: split_frames_cases)
    case (frame p cs' ms')
    with less.IH [of cs' ms'] show ?thesis by simp
  qed simp_all
qed

lemma incomplete_not_bad: "incomplete lim cs \<Longrightarrow> \<not> bad_header lim cs"
  by (auto simp: incomplete_def bad_header_def)

lemma split_frames_incomplete: "incomplete lim cs \<Longrightarrow> split_frames lim cs = (True, cs, [])"
  by (subst split_frames.simps) (auto simp: incomplete_def Let_def)

lemma split_frames_bad: "bad_header lim cs \<Longrightarrow> split_frames lim (cs @ ys) = (False, cs @ ys, [])"
  by (subst split_frames.simps) (auto simp: bad_header_def Let_def)

lemma split_frames_append_bad:
  assumes "lim < 2 ^ 32" "split_frames lim xs = (False, rest, ms)"
  shows "split_frames lim (xs @ ys) = (False, rest @ ys, ms)"
proof -
  have "split_frames lim (rest @ ys) = (False, rest @ ys, [])"
    using split_frames_rest [OF assms(2)] by (simp add: split_frames_bad)
  from split_frames_concat [OF _ assms(1) this, of ms] split_frames_sound [OF assms(2)]
  show ?thesis by simp
qed

section \<open>Properties of the decoder\<close>

text \<open>
  C4. Round trip through the buffer. Take any buffer whose readable bytes are the frames of valid
  payloads followed by the beginning of a frame that is not complete yet. The decoder returns
  success, hands out exactly these payloads in order, appended to what it was given, and leaves
  exactly the incomplete tail readable.
\<close>

theorem frame_decode_roundtrip:
  assumes "buffer_inv b" "unat lim < 2 ^ 32 - 4"
    and "\<forall>p\<in>set ps. valid_payload (unat lim) p"
    and "incomplete (unat lim) part"
    and "readable_view b = concat (map frame_encode ps) @ part"
  shows "\<exists>b'. frame_decode lim b out = (True, b', out @ ps) \<and> buffer_inv b' \<and> readable_view b' = part"
proof -
  have "split_frames (unat lim) (readable_view b) = (True, part, ps)"
    using split_frames_concat [OF assms(3) _ split_frames_incomplete [OF assms(4)]] assms(2,5) by simp
  then show ?thesis using frame_decode_refines [OF assms(1,2)] by blast
qed

theorem frame_decode_roundtrip_witness:
  "\<exists>b'. frame_decode kDefaultMaxFrameLen
       (buf_append new_buffer (frame_encode ''ab'' @ frame_encode ''c'' @ [CHR 0x00])) [] = (True, b', [''ab'', ''c''])
     \<and> buffer_inv b' \<and> readable_view b' = [CHR 0x00]"
  using frame_decode_roundtrip [of "buf_append new_buffer (frame_encode ''ab'' @ frame_encode ''c'' @ [CHR 0x00])"
      kDefaultMaxFrameLen "[''ab'', ''c'']" "[CHR 0x00]" "[]"]
  by (simp add: buf_append_inv readable_view_append kDefaultMaxFrameLen_def valid_payload_def incomplete_def)

text \<open>
  C5. The messages do not depend on how TCP cuts the stream (half packets and glued packets). If
  decoding after the bytes \<open>xs\<close> arrived succeeds, then decoding what was left after \<open>ys\<close> arrived too
  gives the same verdict, the same messages and the same unread bytes as decoding once after
  \<open>xs @ ys\<close>.
\<close>

theorem frame_decode_chunking:
  assumes "buffer_inv b" "unat lim < 2 ^ 32 - 4"
    and "frame_decode lim (buf_append b xs) [] = (True, b1, ms1)"
    and "frame_decode lim (buf_append b1 ys) ms1 = (ok2, b2, ms2)"
    and "frame_decode lim (buf_append b (xs @ ys)) [] = (ok, b', ms)"
  shows "ok2 = ok \<and> ms2 = ms \<and> readable_view b2 = readable_view b'"
proof -
  have refine: "buffer_inv d \<and> split_frames (unat lim) (readable_view c) = (k, readable_view d, drop (length o0) o1)
      \<and> o1 = o0 @ drop (length o0) o1"
    if "frame_decode lim c o0 = (k, d, o1)" "buffer_inv c" for c d k o0 o1
  proof -
    obtain k' r m where "split_frames (unat lim) (readable_view c) = (k', r, m)" by (metis prod_cases3)
    with frame_decode_refines [OF that(2) assms(2) this, of o0] that(1) show ?thesis by auto
  qed
  have inv: "buffer_inv (buf_append b xs)" "buffer_inv (buf_append b (xs @ ys))"
    using assms(1) by (simp_all add: buf_append_inv)
  note r1 = refine [OF assms(3) inv(1)] and r3 = refine [OF assms(5) inv(2)]
  note r2 = refine [OF assms(4) buf_append_inv [OF conjunct1 [OF r1]]]
  have "split_frames (unat lim) ((readable_view b @ xs) @ ys) = (ok2, readable_view b2, ms1 @ drop (length ms1) ms2)"
    using assms(1,2) r1 r2 by (intro split_frames_append) (auto simp: readable_view_append)
  with r2 r3 assms(1) show ?thesis by (simp add: readable_view_append)
qed

theorem frame_decode_chunking_witness:
  "\<exists>b1 ms1 ok2 b2 ms2 ok b' ms.
     frame_decode 100 (buf_append new_buffer (take 5 (frame_encode ''ab''))) [] = (True, b1, ms1)
     \<and> frame_decode 100 (buf_append b1 (drop 5 (frame_encode ''ab''))) ms1 = (ok2, b2, ms2)
     \<and> frame_decode 100 (buf_append new_buffer (take 5 (frame_encode ''ab'') @ drop 5 (frame_encode ''ab''))) [] = (ok, b', ms)
     \<and> ok2 = ok \<and> ms2 = ms \<and> readable_view b2 = readable_view b'"
proof -
  let ?b = "buf_append new_buffer (take 5 (frame_encode ''ab''))"
  have v: "readable_view ?b = take 5 (frame_encode ''ab'')" "buffer_inv ?b"
    by (simp_all add: readable_view_append buf_append_inv)
  have "split_frames 100 (take 5 (frame_encode ''ab'')) = (True, take 5 (frame_encode ''ab''), [])"
    by (subst split_frames.simps) (simp add: frame_encode_eq be_bytes_4)
  then obtain b1 where b1: "frame_decode 100 ?b [] = (True, b1, [])"
    using frame_decode_refines [of ?b 100 True "take 5 (frame_encode ''ab'')" "[]" "[]"] v by auto
  obtain ok2 b2 ms2 where b2: "frame_decode 100 (buf_append b1 (drop 5 (frame_encode ''ab''))) [] = (ok2, b2, ms2)"
    by (metis prod_cases3)
  obtain ok b' ms where b3: "frame_decode 100
      (buf_append new_buffer (take 5 (frame_encode ''ab'') @ drop 5 (frame_encode ''ab''))) [] = (ok, b', ms)"
    by (metis prod_cases3)
  show ?thesis using frame_decode_chunking [OF _ _ b1 b2 b3] b1 b2 b3 by auto
qed

text \<open>
  C6. Rejection. For a limit that leaves room for the header, the decoder refuses a stream exactly
  when, after some valid frames, a complete header announces length 0 or more than the limit; it
  then stops in front of that header, having handed out exactly the frames before it. Nothing is
  decoded that was not encoded, and no read leaves the readable region (every payload is a part of
  the readable bytes).
\<close>

theorem frame_decode_verdict:
  assumes "buffer_inv b" "unat lim < 2 ^ 32 - 4" "frame_decode lim b [] = (ok, b', ms)"
  shows "readable_view b = concat (map frame_encode ms) @ readable_view b'
    \<and> (\<forall>m\<in>set ms. valid_payload (unat lim) m)
    \<and> (ok \<longleftrightarrow> \<not> bad_header (unat lim) (readable_view b'))"
proof -
  obtain k r m where spec: "split_frames (unat lim) (readable_view b) = (k, r, m)" by (metis prod_cases3)
  with frame_decode_refines [OF assms(1,2) spec, of "[]"] assms(3)
  have eq: "k = ok" "r = readable_view b'" "m = ms" by auto
  have "ok \<longleftrightarrow> \<not> bad_header (unat lim) (readable_view b')"
    using split_frames_rest [OF spec] unfolding eq by (auto dest: incomplete_not_bad split: if_splits)
  with eq split_frames_sound [OF spec] show ?thesis by simp
qed

theorem frame_decode_verdict_witness:
  "\<exists>ok b' ms. frame_decode 100 (buf_append new_buffer (frame_encode ''ab'' @ frame_encode [])) [] = (ok, b', ms)
     \<and> readable_view (buf_append new_buffer (frame_encode ''ab'' @ frame_encode []))
         = concat (map frame_encode ms) @ readable_view b'
     \<and> (ok \<longleftrightarrow> \<not> bad_header 100 (readable_view b'))"
proof -
  let ?b = "buf_append new_buffer (frame_encode ''ab'' @ frame_encode [])"
  obtain ok b' ms where d: "frame_decode 100 ?b [] = (ok, b', ms)" by (metis prod_cases3)
  show ?thesis using frame_decode_verdict [OF _ _ d] d by (auto simp: buf_append_inv)
qed


end
