(* ===== verification/Rpc_Codec.thy ===== *)
theory Rpc_Codec
  imports Length_Codec
begin

text \<open>
  \<open>src/rpc/rpc_message.h\<close>: the inner protocol of the RPC layer, a 15-byte big-endian header, the
  method name and the body, carried as the payload of a length-prefixed frame.

  \<open>RpcStatus\<close> has a fixed 32-bit underlying type and the code keeps values outside its enumerators,
  so the status is a word; the enumerators are constants. \<open>decode\<close> fills an output parameter, which
  the model takes and returns.
\<close>

section \<open>Messages\<close>

datatype rpc_type = kRequest | kResponse | kTypeCount

fun rpc_type_code :: "rpc_type \<Rightarrow> nat" where
  "rpc_type_code kRequest = 0"
| "rpc_type_code kResponse = 1"
| "rpc_type_code kTypeCount = 2"

definition rpc_type_of :: "nat \<Rightarrow> rpc_type" where
  "rpc_type_of n = (if n = 0 then kRequest else if n = 1 then kResponse else kTypeCount)"

type_synonym rpc_status = u32

definition kOk :: rpc_status where "kOk = 0"
definition kMethodNotFound :: rpc_status where "kMethodNotFound = 1"
definition kDeserializeError :: rpc_status where "kDeserializeError = 2"
definition kServerError :: rpc_status where "kServerError = 3"
definition kTimeout :: rpc_status where "kTimeout = 4"

record rpc_message =
  rpc_type :: rpc_type
  request_id :: u64
  status :: rpc_status
  rpc_method :: bytes
  rpc_body :: bytes

definition new_rpc_message :: rpc_message where
  "new_rpc_message = \<lparr>rpc_type = kRequest, request_id = 0, status = kOk, rpc_method = [], rpc_body = []\<rparr>"

definition kHeaderLen :: nat where
  "kHeaderLen = 15"

definition kMaxMethodLen :: nat where
  "kMaxMethodLen = 0xFFFF"

section \<open>The codec\<close>

definition rpc_encode :: "rpc_message \<Rightarrow> bytes" where
  "rpc_encode msg =
     (if length (rpc_method msg) > kMaxMethodLen then []
      else let out = [char_of (rpc_type_code (rpc_type msg))];
               out = append_be out (request_id msg);
               out = append_be out (status msg);
               out = append_be out (of_nat (length (rpc_method msg)) :: u16)
           in out @ rpc_method msg @ rpc_body msg)"

definition rpc_decode :: "bytes \<Rightarrow> rpc_message \<Rightarrow> bool \<times> rpc_message" where
  "rpc_decode payload out =
     (if length payload < kHeaderLen then (False, out)
      else let ty = of_char (payload ! 0) :: nat in
        if ty \<ge> rpc_type_code kTypeCount then (False, out)
        else let method_len = unat (read_be payload 13 :: u16) in
          if method_len > length payload - kHeaderLen then (False, out)
          else (True, out\<lparr>rpc_type := rpc_type_of ty,
                          request_id := read_be payload 1,
                          status := read_be payload 9,
                          rpc_method := take method_len (drop kHeaderLen payload),
                          rpc_body := drop (kHeaderLen + method_len) payload\<rparr>))"

definition rpc_encodable :: "rpc_message \<Rightarrow> bool" where
  "rpc_encodable m \<longleftrightarrow> rpc_type m \<noteq> kTypeCount \<and> length (rpc_method m) \<le> kMaxMethodLen"

section \<open>The interface of a message codec\<close>

text \<open>
  What a transport relies on: encodable messages come back from their encoding, and whatever decodes
  is an encoding. The client lemmas say that the codec can be stacked on a framed byte stream.
\<close>

locale message_codec =
  fixes ok :: "'m \<Rightarrow> bool" and enc :: "'m \<Rightarrow> bytes" and dec :: "bytes \<Rightarrow> 'm option"
  assumes dec_enc: "ok m \<Longrightarrow> dec (enc m) = Some m"
    and enc_dec: "dec p = Some m \<Longrightarrow> ok m \<and> enc m = p"
begin

lemma enc_inj: "ok m \<Longrightarrow> ok m' \<Longrightarrow> enc m = enc m' \<longleftrightarrow> m = m'"
  by (metis dec_enc option.inject)

lemma dec_stream: "\<forall>m\<in>set ms. ok m \<Longrightarrow> map (dec \<circ> enc) ms = map Some ms"
  by (simp add: dec_enc)

lemma framed_stream:
  assumes "\<forall>m\<in>set ms. ok m \<and> valid_payload (unat lim) (enc m)" "unat lim < 2 ^ 32 - 4"
    and "buffer_inv b" "incomplete (unat lim) part"
    and "readable_view b = concat (map (\<lambda>m. frame_encode (enc m)) ms) @ part"
  shows "\<exists>b' ps. frame_decode lim b [] = (True, b', ps) \<and> map dec ps = map Some ms
           \<and> buffer_inv b' \<and> readable_view b' = part"
proof -
  have "split_frames (unat lim) (readable_view b) = (True, part, map enc ms)"
    using split_frames_concat [OF _ _ split_frames_incomplete [OF assms(4)], of "map enc ms"] assms
    by (simp add: comp_def)
  from frame_decode_refines [OF assms(3,2) this, of "[]"] show ?thesis
    using dec_stream [of ms] assms(1) by auto
qed

end

section \<open>The codec satisfies it\<close>

lemma of_char_type_code [simp]: "of_char (char_of (rpc_type_code t) :: char) = rpc_type_code t"
  by (cases t) simp_all

lemma rpc_type_of_code [simp]: "rpc_type_of (rpc_type_code t) = t"
  by (cases t) (simp_all add: rpc_type_of_def)

lemma rpc_type_code_less: "t \<noteq> kTypeCount \<longleftrightarrow> rpc_type_code t < rpc_type_code kTypeCount"
  by (cases t) simp_all

lemma rpc_encode_eq:
  assumes "length (rpc_method m) \<le> kMaxMethodLen"
  shows "rpc_encode m = char_of (rpc_type_code (rpc_type m)) # be_bytes 8 (unat (request_id m))
           @ be_bytes 4 (unat (status m)) @ be_bytes 2 (length (rpc_method m)) @ rpc_method m @ rpc_body m"
proof -
  have "unat (of_nat (length (rpc_method m)) :: u16) = length (rpc_method m)"
    using assms by (simp add: kMaxMethodLen_def unat_of_nat take_bit_nat_eq_self)
  with assms show ?thesis by (simp add: rpc_encode_def append_be_eq)
qed

text \<open>The fields of a payload, at the offsets the decoder uses.\<close>

lemma rpc_fields:
  fixes i s l :: nat and c :: char and rest :: bytes
  defines "p \<equiv> c # be_bytes 8 i @ be_bytes 4 s @ be_bytes 2 l @ rest"
  shows "take 8 (drop 1 p) = be_bytes 8 i" "take 4 (drop 9 p) = be_bytes 4 s"
    "take 2 (drop 13 p) = be_bytes 2 l" "drop 15 p = rest" "length p = 15 + length rest" "p ! 0 = c"
  by (simp_all add: p_def)

lemma rpc_decode_encode:
  assumes "rpc_encodable m"
  shows "rpc_decode (rpc_encode m) out = (True, m)"
proof -
  let ?l = "length (rpc_method m)" and ?p = "rpc_encode m"
  have ml: "?l \<le> kMaxMethodLen" "rpc_type_code (rpc_type m) < rpc_type_code kTypeCount"
    using assms by (simp_all add: rpc_encodable_def rpc_type_code_less)
  note p = rpc_encode_eq [OF ml(1)]
  note f = rpc_fields [of "char_of (rpc_type_code (rpc_type m))" "unat (request_id m)" "unat (status m)" ?l
      "rpc_method m @ rpc_body m", folded p]
  have "?l < 2 ^ 16" using ml(1) by (simp add: kMaxMethodLen_def)
  then have l: "unat (read_be ?p 13 :: u16) = ?l"
    by (simp add: read_be_eq f(3) be_nat_be_bytes unat_of_nat take_bit_eq_mod)
  have i: "read_be ?p 1 = request_id m" and s: "read_be ?p 9 = status m"
    using f(1,2) by (simp_all add: read_be_eq be_bytes_word)
  have "drop (15 + ?l) ?p = drop ?l (drop 15 ?p)" by (simp only: drop_drop add.commute)
  then have b: "drop (15 + ?l) ?p = rpc_body m" by (simp add: f(4))
  show ?thesis
    using ml i by (simp add: rpc_decode_def kHeaderLen_def Let_def f l s b rpc_message.equality)
qed

text \<open>A payload that is accepted is exactly the encoding of what it was decoded to.\<close>

lemma payload_split:
  assumes "15 \<le> length p"
  shows "p = p ! 0 # take 8 (drop 1 p) @ take 4 (drop 9 p) @ take 2 (drop 13 p) @ drop 15 p"
proof -
  have "p = p ! 0 # drop 1 p" using assms by (cases p) auto
  moreover have "drop 1 p = take 8 (drop 1 p) @ drop 9 p"
    using append_take_drop_id [of 8 "drop 1 p"] by simp
  moreover have "drop 9 p = take 4 (drop 9 p) @ drop 13 p"
    using append_take_drop_id [of 4 "drop 9 p"] by simp
  moreover have "drop 13 p = take 2 (drop 13 p) @ drop 15 p"
    using append_take_drop_id [of 2 "drop 13 p"] by simp
  ultimately show ?thesis by metis
qed

lemma rpc_encode_decode:
  assumes "rpc_decode p out = (True, m)"
  shows "rpc_encodable m \<and> rpc_encode m = p"
proof -
  let ?l = "unat (read_be p 13 :: u16)" and ?t = "of_char (p ! 0) :: nat"
  have len: "15 \<le> length p" and ty: "?t < 2" and l: "?l \<le> length p - 15"
    and m: "rpc_type m = rpc_type_of ?t" "request_id m = read_be p 1" "status m = read_be p 9"
      "rpc_method m = take ?l (drop 15 p)" "rpc_body m = drop (15 + ?l) p"
    using assms by (auto simp: rpc_decode_def kHeaderLen_def Let_def split: if_splits)
  have ll: "length (rpc_method m) = ?l" using l len by (simp add: m)
  moreover have "?l < 2 ^ 16" using unsigned_less [of "read_be p 13 :: u16"] by simp
  moreover have t: "rpc_type_code (rpc_type m) = ?t" using ty by (auto simp: m(1) rpc_type_of_def)
  ultimately have enc: "rpc_encodable m"
    using ty by (simp add: rpc_encodable_def rpc_type_code_less kMaxMethodLen_def)
  have "be_bytes 8 (unat (request_id m)) = take 8 (drop 1 p)" "be_bytes 4 (unat (status m)) = take 4 (drop 9 p)"
    "be_bytes 2 ?l = take 2 (drop 13 p)"
    using len by (simp_all add: m read_be_eq word_be_bytes)
  moreover have "rpc_method m @ rpc_body m = drop 15 p"
    using append_take_drop_id [of ?l "drop 15 p"] by (simp add: m add.commute)
  ultimately have "rpc_encode m = p ! 0 # take 8 (drop 1 p) @ take 4 (drop 9 p) @ take 2 (drop 13 p) @ drop 15 p"
    using enc by (simp add: rpc_encode_eq rpc_encodable_def ll t)
  with enc payload_split [OF len] show ?thesis by simp
qed

text \<open>The decoder as a partial function: the previous contents of the output parameter do not matter.\<close>

definition rpc_parse :: "bytes \<Rightarrow> rpc_message option" where
  "rpc_parse p = (case rpc_decode p new_rpc_message of (ok, m) \<Rightarrow> if ok then Some m else None)"

interpretation rpc: message_codec rpc_encodable rpc_encode rpc_parse
  by unfold_locales
    (auto simp: rpc_parse_def rpc_decode_encode dest: rpc_encode_decode split: prod.splits if_splits)

section \<open>Properties of the codec\<close>

text \<open>
  C7. The codec is a bijection between the messages a client may send (a request or response whose
  method name fits the 16-bit length) and the payloads the decoder accepts: decoding a payload
  yields a message exactly when the payload is that message's encoding, whatever the output
  parameter held before.
\<close>

theorem rpc_decode_iff_encode:
  "rpc_decode p out = (True, m) \<longleftrightarrow> rpc_encodable m \<and> rpc_encode m = p"
  using rpc_decode_encode rpc_encode_decode by blast

text \<open>
  Errors. The decoder refuses a payload exactly in the three cases of its comment (shorter than
  the header, unknown type, method length past the end), and then leaves the output parameter as it
  was; in particular it never accepts the empty string that the encoder returns for a method name
  that is too long.
\<close>

theorem rpc_decode_refuses:
  "(fst (rpc_decode p out) \<longleftrightarrow> \<not> (length p < kHeaderLen \<or> 2 \<le> (of_char (p ! 0) :: nat)
      \<or> length p - kHeaderLen < unat (read_be p 13 :: u16)))
   \<and> (\<not> fst (rpc_decode p out) \<longrightarrow> snd (rpc_decode p out) = out)
   \<and> (kMaxMethodLen < length (rpc_method m) \<longrightarrow> \<not> fst (rpc_decode (rpc_encode m) out))"
  by (auto simp: rpc_decode_def rpc_encode_def Let_def kHeaderLen_def)

theorem rpc_decode_refuses_witness:
  "\<not> fst (rpc_decode ''short'' new_rpc_message) \<and> snd (rpc_decode ''short'' new_rpc_message) = new_rpc_message
   \<and> \<not> fst (rpc_decode (rpc_encode (new_rpc_message\<lparr>rpc_method := replicate 65536 CHR ''a''\<rparr>)) new_rpc_message)"
  using rpc_decode_refuses [of "''short''" new_rpc_message "new_rpc_message\<lparr>rpc_method := replicate 65536 CHR ''a''\<rparr>"]
  by (simp add: kHeaderLen_def kMaxMethodLen_def)

text \<open>
  The two layers together. A buffer holding the frames of encodable RPC messages, however many,
  followed by an incomplete frame, decodes to payloads that parse to exactly these messages in
  order, and the incomplete frame stays in the buffer.
\<close>

theorem rpc_framed_roundtrip:
  assumes "\<forall>m\<in>set ms. rpc_encodable m \<and> valid_payload (unat lim) (rpc_encode m)" "unat lim < 2 ^ 32 - 4"
    and "buffer_inv b" "incomplete (unat lim) part"
    and "readable_view b = concat (map (\<lambda>m. frame_encode (rpc_encode m)) ms) @ part"
  shows "\<exists>b' ps. frame_decode lim b [] = (True, b', ps) \<and> map rpc_parse ps = map Some ms
           \<and> buffer_inv b' \<and> readable_view b' = part"
  using assms by (rule rpc.framed_stream)

theorem rpc_framed_roundtrip_witness:
  "\<exists>b' ps. frame_decode kDefaultMaxFrameLen
       (buf_append new_buffer (frame_encode (rpc_encode (new_rpc_message\<lparr>rpc_method := ''Echo''\<rparr>)) @ [CHR 0x00])) []
       = (True, b', ps) \<and> map rpc_parse ps = [Some (new_rpc_message\<lparr>rpc_method := ''Echo''\<rparr>)]"
proof -
  let ?m = "new_rpc_message\<lparr>rpc_method := ''Echo''\<rparr>"
  let ?b = "buf_append new_buffer (frame_encode (rpc_encode ?m) @ [CHR 0x00])"
  have "rpc_encodable ?m" by (simp add: rpc_encodable_def new_rpc_message_def kMaxMethodLen_def)
  moreover from this have "valid_payload (unat kDefaultMaxFrameLen) (rpc_encode ?m)"
    by (simp add: rpc_encode_eq rpc_encodable_def valid_payload_def kDefaultMaxFrameLen_def new_rpc_message_def)
  ultimately show ?thesis
    using rpc_framed_roundtrip [of "[?m]" kDefaultMaxFrameLen ?b "[CHR 0x00]"]
    by (auto simp: kDefaultMaxFrameLen_def incomplete_def readable_view_append buf_append_inv)
qed

end
