(* ===== verification/Timer_Queue.thy ===== *)
theory Timer_Queue
  imports Prelude
begin

text \<open>
  \<open>src/src/timer_queue.h\<close> and \<open>timer_queue.cpp\<close>: the timers of an event loop.

  \<open>std::set<Entry>\<close> is a list in the order of \<open>operator<\<close>; an iterator into it is the key of the
  node it points to, which is stable as long as the node is in the set. Times are nanoseconds of the
  steady clock. The state records the last argument given to \<open>timerfd_settime\<close> with the clock
  reading it was computed from, which is all the code controls about the timer descriptor; what the
  kernel does with it is stated through \<open>deadline\<close>. A callback is a value of the type parameter
  \<open>'f\<close>; the event loop runs it.
\<close>

section \<open>State\<close>

record 'f entry =
  expiration :: int
  timer_id :: nat
  timer_cb :: "'f option"

record itimerspec =
  tv_sec :: int
  tv_nsec :: int

record 'f timer_queue =
  timers :: "'f entry list"
  id_to_iter :: "nat \<rightharpoonup> int \<times> nat"
  next_id :: nat
  timerfd_set :: "(int \<times> itimerspec) option"

definition new_timer_queue :: "'f timer_queue" where
  "new_timer_queue = \<lparr>timers = [], id_to_iter = Map.empty, next_id = 1, timerfd_set = None\<rparr>"

definition entry_less :: "'f entry \<Rightarrow> 'f entry \<Rightarrow> bool" where
  "entry_less a b = (if expiration a \<noteq> expiration b then expiration a < expiration b
                     else timer_id a < timer_id b)"

abbreviation entry_key :: "'f entry \<Rightarrow> int \<times> nat" where
  "entry_key e \<equiv> (expiration e, timer_id e)"

section \<open>Operations\<close>

text \<open>\<open>duration_cast<seconds>\<close> truncates; the duration is positive there, so it is \<open>div\<close>.\<close>

definition to_itimerspec :: "int \<Rightarrow> int \<Rightarrow> itimerspec" where
  "to_itimerspec now exp =
     (let remaining = exp - now;
          remaining = (if remaining < 1 then 1 else remaining);
          secs = remaining div 1000000000
      in \<lparr>tv_sec = secs, tv_nsec = remaining - secs * 1000000000\<rparr>)"

definition reset_timerfd :: "int \<Rightarrow> int \<Rightarrow> 'f timer_queue \<Rightarrow> 'f timer_queue" where
  "reset_timerfd now earliest q = q\<lparr>timerfd_set := Some (now, to_itimerspec now earliest)\<rparr>"

text \<open>\<open>std::set::insert\<close>: in order, and no change if an equivalent key is present.\<close>

fun set_insert :: "'f entry \<Rightarrow> 'f entry list \<Rightarrow> 'f entry list" where
  "set_insert e [] = [e]"
| "set_insert e (x # xs) =
     (if entry_less e x then e # x # xs
      else if entry_less x e then x # set_insert e xs
      else x # xs)"

definition add_timer_in_loop :: "int \<Rightarrow> 'f entry \<Rightarrow> 'f timer_queue \<Rightarrow> 'f timer_queue" where
  "add_timer_in_loop now e q =
     (let earliest_changed = (timers q = [] \<or> entry_less e (hd (timers q)));
          q1 = q\<lparr>timers := set_insert e (timers q),
                 id_to_iter := (case id_to_iter q (timer_id e) of
                                  None \<Rightarrow> (id_to_iter q)(timer_id e \<mapsto> entry_key e)
                                | Some _ \<Rightarrow> id_to_iter q)\<rparr>
      in if earliest_changed then reset_timerfd now (expiration (hd (timers q1))) q1 else q1)"

definition cancel_in_loop :: "int \<Rightarrow> nat \<Rightarrow> 'f timer_queue \<Rightarrow> 'f timer_queue" where
  "cancel_in_loop now i q =
     (case id_to_iter q i of
        None \<Rightarrow> q
      | Some it \<Rightarrow>
          let was_earliest = (timers q \<noteq> [] \<and> entry_key (hd (timers q)) = it);
              q1 = q\<lparr>timers := filter (\<lambda>e. entry_key e \<noteq> it) (timers q),
                     id_to_iter := (id_to_iter q)(i := None)\<rparr>
          in if was_earliest \<and> timers q1 \<noteq> []
             then reset_timerfd now (expiration (hd (timers q1))) q1 else q1)"

text \<open>
  The extraction loop of \<open>handle_read\<close>: the expired entries in order, and the queue without them.
\<close>

fun extract_expired :: "int \<Rightarrow> 'f entry list \<Rightarrow> (nat \<rightharpoonup> int \<times> nat)
    \<Rightarrow> 'f entry list \<times> 'f entry list \<times> (nat \<rightharpoonup> int \<times> nat)" where
  "extract_expired now [] m = ([], [], m)"
| "extract_expired now (e # es) m =
     (if expiration e \<le> now
      then let (x, r, m') = extract_expired now es (m(timer_id e := None)) in (e # x, r, m')
      else ([], e # es, m))"

definition expire :: "int \<Rightarrow> 'f timer_queue \<Rightarrow> 'f entry list \<times> 'f timer_queue" where
  "expire now q = (let (x, r, m) = extract_expired now (timers q) (id_to_iter q)
                   in (x, q\<lparr>timers := r, id_to_iter := m\<rparr>))"

text \<open>The last statement of \<open>handle_read\<close>.\<close>

definition rearm :: "int \<Rightarrow> 'f timer_queue \<Rightarrow> 'f timer_queue" where
  "rearm now q = (if timers q \<noteq> [] then reset_timerfd now (expiration (hd (timers q))) q else q)"

text \<open>\<open>run_at\<close> takes an id from the atomic counter before the entry is handed to the loop.\<close>

definition alloc_timer_id :: "'f timer_queue \<Rightarrow> nat \<times> 'f timer_queue" where
  "alloc_timer_id q = (next_id q, q\<lparr>next_id := next_id q + 1\<rparr>)"

section \<open>The order\<close>

lemma entry_less_irrefl [simp]: "\<not> entry_less e e"
  by (simp add: entry_less_def)

lemma entry_less_trans: "entry_less a b \<Longrightarrow> entry_less b c \<Longrightarrow> entry_less a c"
  by (auto simp: entry_less_def split: if_splits)

lemma entry_less_linear: "entry_less a b \<or> entry_less b a \<or> entry_key a = entry_key b"
  by (auto simp: entry_less_def)

lemma entry_less_key: "entry_less a b \<Longrightarrow> entry_key a \<noteq> entry_key b"
  by (auto simp: entry_less_def)

lemma entry_less_expiration: "entry_less a b \<Longrightarrow> expiration a \<le> expiration b"
  by (auto simp: entry_less_def split: if_splits)

abbreviation entry_sorted :: "'f entry list \<Rightarrow> bool" where
  "entry_sorted \<equiv> sorted_wrt entry_less"

lemma set_insert_subset: "set (set_insert e es) \<subseteq> insert e (set es)"
  by (induction es) auto

lemma set_insert_sorted: "entry_sorted es \<Longrightarrow> entry_sorted (set_insert e es)"
proof (induction es)
  case (Cons x xs)
  then show ?case using set_insert_subset [of e xs] by (auto intro: entry_less_trans)
qed simp

lemma set_insert_new:
  "entry_key e \<notin> entry_key ` set es \<Longrightarrow> set (set_insert e es) = insert e (set es)"
proof (induction es)
  case (Cons x xs)
  then show ?case using entry_less_linear [of e x] by auto
qed simp

lemma hd_set_insert:
  "es \<noteq> [] \<Longrightarrow> \<not> entry_less e (hd es) \<Longrightarrow> hd (set_insert e es) = hd es"
  by (cases es) auto

lemma set_insert_not_Nil [simp]: "set_insert e es \<noteq> []"
  by (cases es) auto

lemma entry_sorted_distinct: "entry_sorted es \<Longrightarrow> distinct (map entry_key es)"
  by (induction es) (auto dest: entry_less_key)

section \<open>Invariant\<close>

text \<open>
  The set is ordered, ids are unique and below the counter, and the index maps exactly the ids of the
  stored entries to their nodes.
\<close>

definition tq_inv :: "'f timer_queue \<Rightarrow> bool" where
  "tq_inv q \<longleftrightarrow> entry_sorted (timers q) \<and> inj_on timer_id (set (timers q))
     \<and> dom (id_to_iter q) = timer_id ` set (timers q)
     \<and> (\<forall>e\<in>set (timers q). id_to_iter q (timer_id e) = Some (entry_key e))
     \<and> (\<forall>e\<in>set (timers q). timer_id e < next_id q)"

definition live :: "'f timer_queue \<Rightarrow> 'f entry set" where
  "live q = set (timers q)"

text \<open>When the timer descriptor becomes readable, according to the last \<open>timerfd_settime\<close>.\<close>

definition deadline :: "int \<times> itimerspec \<Rightarrow> int" where
  "deadline a = (case a of (t, s) \<Rightarrow> t + tv_sec s * 1000000000 + tv_nsec s)"

definition armed :: "'f timer_queue \<Rightarrow> bool" where
  "armed q \<longleftrightarrow> timers q \<noteq> [] \<longrightarrow>
     (\<exists>t s. timerfd_set q = Some (t, s) \<and> deadline (t, s) = max (expiration (hd (timers q))) (t + 1))"

lemma tq_inv_new [simp]: "tq_inv new_timer_queue"
  by (simp add: tq_inv_def new_timer_queue_def)

lemma live_new [simp]: "live new_timer_queue = {}"
  by (simp add: live_def new_timer_queue_def)

lemma armed_new [simp]: "armed new_timer_queue"
  by (simp add: armed_def new_timer_queue_def)

lemma deadline_to_itimerspec: "deadline (t, to_itimerspec t e) = max e (t + 1)"
  by (auto simp: deadline_def to_itimerspec_def Let_def)

lemma reset_timerfd_frame [simp]:
  "timers (reset_timerfd now x q) = timers q" "id_to_iter (reset_timerfd now x q) = id_to_iter q"
  "next_id (reset_timerfd now x q) = next_id q" "tq_inv (reset_timerfd now x q) = tq_inv q"
  "live (reset_timerfd now x q) = live q"
  by (simp_all add: reset_timerfd_def tq_inv_def live_def)

lemma armed_reset: "armed (reset_timerfd now (expiration (hd (timers q))) q)"
  by (simp add: armed_def) (simp add: reset_timerfd_def deadline_to_itimerspec)

lemma armed_frame:
  "armed q \<Longrightarrow> timerfd_set q' = timerfd_set q
    \<Longrightarrow> (timers q' \<noteq> [] \<Longrightarrow> timers q \<noteq> [] \<and> hd (timers q') = hd (timers q)) \<Longrightarrow> armed q'"
  by (auto simp: armed_def)

lemma tq_index_None: "tq_inv q \<Longrightarrow> id_to_iter q i = None \<longleftrightarrow> i \<notin> timer_id ` live q"
  unfolding tq_inv_def live_def by (metis domIff)

subsection \<open>Adding\<close>

lemma add_timer_timers [simp]: "timers (add_timer_in_loop now e q) = set_insert e (timers q)"
  and add_timer_next_id [simp]: "next_id (add_timer_in_loop now e q) = next_id q"
  by (simp_all add: add_timer_in_loop_def Let_def)

lemma live_add_timer:
  assumes "timer_id e \<notin> timer_id ` live q"
  shows "live (add_timer_in_loop now e q) = insert e (live q)"
  using assms by (auto simp: live_def intro!: set_insert_new)

lemma add_timer_inv:
  assumes "tq_inv q" "timer_id e \<notin> timer_id ` live q" "timer_id e < next_id q"
  shows "tq_inv (add_timer_in_loop now e q)"
proof -
  have "id_to_iter q (timer_id e) = None" using assms(1,2) by (simp add: tq_index_None)
  then have idx: "id_to_iter (add_timer_in_loop now e q) = (id_to_iter q)(timer_id e \<mapsto> entry_key e)"
    by (simp add: add_timer_in_loop_def Let_def)
  have "set (timers (add_timer_in_loop now e q)) = insert e (set (timers q))"
    using live_add_timer [OF assms(2)] by (simp add: live_def)
  with assms show ?thesis
    unfolding tq_inv_def live_def idx by (simp add: set_insert_sorted) (force simp: image_iff)
qed

lemma add_timer_armed:
  assumes "armed q"
  shows "armed (add_timer_in_loop now e q)"
proof (cases "timers q = [] \<or> entry_less e (hd (timers q))")
  case True
  then show ?thesis unfolding add_timer_in_loop_def Let_def by (simp only: if_True armed_reset)
next
  case False
  then show ?thesis
    by (intro armed_frame [OF assms]) (auto simp: hd_set_insert add_timer_in_loop_def Let_def)
qed

subsection \<open>Cancelling\<close>

lemma cancel_next_id [simp]: "next_id (cancel_in_loop now i q) = next_id q"
  by (simp add: cancel_in_loop_def Let_def split: option.split)

lemma cancel_timers:
  assumes "tq_inv q"
  shows "timers (cancel_in_loop now i q) = filter (\<lambda>e. timer_id e \<noteq> i) (timers q)"
proof (cases "id_to_iter q i")
  case None
  then have "\<forall>e\<in>set (timers q). timer_id e \<noteq> i" using tq_index_None [OF assms] by (auto simp: live_def)
  with None show ?thesis by (simp add: cancel_in_loop_def)
next
  case (Some it)
  then have "i \<in> timer_id ` set (timers q)" using assms unfolding tq_inv_def by (metis domI)
  then obtain e where e: "e \<in> set (timers q)" "timer_id e = i" by blast
  with Some assms have "it = entry_key e" by (auto simp: tq_inv_def)
  with e assms have "\<forall>d\<in>set (timers q). timer_id d = i \<longleftrightarrow> entry_key d = it"
    unfolding tq_inv_def inj_on_def by auto
  with Some show ?thesis by (auto simp: cancel_in_loop_def Let_def intro: filter_cong)
qed

lemma live_cancel: "tq_inv q \<Longrightarrow> live (cancel_in_loop now i q) = {e \<in> live q. timer_id e \<noteq> i}"
  by (auto simp: live_def cancel_timers)

lemma cancel_index: "id_to_iter (cancel_in_loop now i q) = (id_to_iter q)(i := None)"
  by (auto simp: cancel_in_loop_def Let_def split: option.split)

lemma cancel_inv:
  assumes "tq_inv q"
  shows "tq_inv (cancel_in_loop now i q)"
proof -
  have "timer_id ` set (timers q) - {i} = timer_id ` {e \<in> set (timers q). timer_id e \<noteq> i}" by auto
  then show ?thesis
    using assms unfolding tq_inv_def [of "cancel_in_loop now i q"] cancel_timers [OF assms] cancel_index
    by (simp add: tq_inv_def sorted_wrt_filter inj_on_def)
qed

lemma cancel_armed:
  assumes "armed q"
  shows "armed (cancel_in_loop now i q)"
proof (cases "id_to_iter q i")
  case (Some it)
  define q1 where "q1 = q\<lparr>timers := filter (\<lambda>e. entry_key e \<noteq> it) (timers q), id_to_iter := (id_to_iter q)(i := None)\<rparr>"
  define w where "w \<longleftrightarrow> timers q \<noteq> [] \<and> entry_key (hd (timers q)) = it"
  have c: "cancel_in_loop now i q =
      (if w \<and> timers q1 \<noteq> [] then reset_timerfd now (expiration (hd (timers q1))) q1 else q1)"
    by (simp add: cancel_in_loop_def Some Let_def flip: q1_def w_def)
  have "armed q1" if "\<not> (w \<and> timers q1 \<noteq> [])"
    using that by (intro armed_frame [OF assms]) (cases "timers q"; auto simp: q1_def w_def)+
  then show ?thesis using armed_reset [of now q1] by (simp add: c)
qed (simp add: cancel_in_loop_def assms)

subsection \<open>Expiring\<close>

lemma extract_expired_eq:
  "extract_expired now es m =
     (takeWhile (\<lambda>e. expiration e \<le> now) es, dropWhile (\<lambda>e. expiration e \<le> now) es,
      m |` (- timer_id ` set (takeWhile (\<lambda>e. expiration e \<le> now) es)))"
proof (induction es arbitrary: m)
  case (Cons e es)
  show ?case
  proof (cases "expiration e \<le> now")
    case True
    then show ?thesis unfolding extract_expired.simps Cons by (simp add: fun_eq_iff restrict_map_def)
  qed (simp add: restrict_map_def)
qed (simp add: restrict_map_def)

lemma sorted_dropWhile_expired:
  "entry_sorted es \<Longrightarrow> set (takeWhile (\<lambda>e. expiration e \<le> now) es) = {e \<in> set es. expiration e \<le> now}
     \<and> set (dropWhile (\<lambda>e. expiration e \<le> now) es) = {e \<in> set es. now < expiration e}"
proof (induction es)
  case (Cons a es)
  then have "\<forall>x\<in>set es. expiration a \<le> expiration x" by (auto dest: entry_less_expiration)
  with Cons show ?case by auto
qed simp

lemma expire_spec:
  assumes "tq_inv q" "expire now q = (x, q')"
  shows "set x = {e \<in> live q. expiration e \<le> now}" "live q' = {e \<in> live q. now < expiration e}"
    "entry_sorted x" "tq_inv q'" "next_id q' = next_id q" "timerfd_set q' = timerfd_set q"
proof -
  have x: "x = takeWhile (\<lambda>e. expiration e \<le> now) (timers q)"
    and q': "timers q' = dropWhile (\<lambda>e. expiration e \<le> now) (timers q)"
      "id_to_iter q' = id_to_iter q |` (- timer_id ` set x)" "next_id q' = next_id q"
      "timerfd_set q' = timerfd_set q"
    using assms(2) by (auto simp: expire_def extract_expired_eq)
  have srt: "entry_sorted (timers q)" using assms(1) by (simp add: tq_inv_def)
  note sets = sorted_dropWhile_expired [OF srt, of now]
  show set_x: "set x = {e \<in> live q. expiration e \<le> now}" and live': "live q' = {e \<in> live q. now < expiration e}"
    using sets by (simp_all add: x q' live_def)
  show "entry_sorted x" using srt by (simp add: x sorted_wrt_takeWhile)
  have "entry_sorted (timers q')" using srt by (simp add: q' sorted_wrt_dropWhile)
  moreover have inj: "inj_on timer_id (live q)" and dom: "dom (id_to_iter q) = timer_id ` live q"
    and key: "\<forall>e\<in>live q. id_to_iter q (timer_id e) = Some (entry_key e)"
    and ids: "\<forall>e\<in>live q. timer_id e < next_id q"
    using assms(1) by (simp_all add: tq_inv_def live_def)
  moreover have part: "timer_id ` live q' = timer_id ` live q - timer_id ` set x"
    using inj by (force simp: set_x live' inj_on_def)
  moreover have "timer_id e \<notin> timer_id ` set x" if "e \<in> live q'" for e
    using that part by auto
  ultimately show "tq_inv q'"
    unfolding tq_inv_def live_def [symmetric] q'(2,3) using live'
    by (simp add: Diff_eq dom_restrict inj_on_def)
  show "next_id q' = next_id q" "timerfd_set q' = timerfd_set q" by (rule q')+
qed

lemma rearm_frame [simp]:
  "tq_inv (rearm now q) = tq_inv q" "live (rearm now q) = live q" "next_id (rearm now q) = next_id q"
  "timers (rearm now q) = timers q"
  by (simp_all add: rearm_def)

lemma rearm_armed: "armed (rearm now q)"
  using armed_reset [of now q] by (auto simp: rearm_def) (auto simp: armed_def)

section \<open>The contract of a timer service\<close>

text \<open>What the users of \<open>run_after\<close> and \<open>cancel_timer\<close> rely on, without the set and its index.\<close>

locale timer_service =
  fixes inv :: "'q \<Rightarrow> bool" and pend :: "'q \<Rightarrow> 'f entry set" and issued :: "'q \<Rightarrow> nat"
    and add :: "int \<Rightarrow> 'f entry \<Rightarrow> 'q \<Rightarrow> 'q" and cancel :: "int \<Rightarrow> nat \<Rightarrow> 'q \<Rightarrow> 'q"
    and fire :: "int \<Rightarrow> 'q \<Rightarrow> 'f entry list \<times> 'q"
  assumes unique: "inv q \<Longrightarrow> inj_on timer_id (pend q)"
    and add_ok: "inv q \<Longrightarrow> timer_id e \<notin> timer_id ` pend q \<Longrightarrow> timer_id e < issued q
      \<Longrightarrow> inv (add now e q) \<and> pend (add now e q) = insert e (pend q) \<and> issued (add now e q) = issued q"
    and cancel_ok: "inv q \<Longrightarrow> inv (cancel now i q) \<and> pend (cancel now i q) = {e \<in> pend q. timer_id e \<noteq> i}
      \<and> issued (cancel now i q) = issued q"
    and fire_ok: "inv q \<Longrightarrow> fire now q = (x, q') \<Longrightarrow> inv q' \<and> set x = {e \<in> pend q. expiration e \<le> now}
      \<and> pend q' = {e \<in> pend q. now < expiration e} \<and> issued q' = issued q \<and> entry_sorted x"
begin

lemma cancel_prevents:
  assumes "inv q" "e \<in> set (fst (fire now (cancel t i q)))"
  shows "timer_id e \<noteq> i"
  using fire_ok [of "cancel t i q" now] cancel_ok [OF assms(1), of t i] assms(2)
  by (cases "fire now (cancel t i q)") auto

lemma due_fires:
  assumes "inv q" "timer_id e \<notin> timer_id ` pend q" "timer_id e < issued q" "expiration e \<le> now"
  shows "e \<in> set (fst (fire now (add t e q)))"
  using fire_ok [of "add t e q" now] add_ok [OF assms(1-3), of t] assms(4)
  by (cases "fire now (add t e q)") auto

lemma fires_once:
  assumes "inv q" "fire now q = (x, q')"
  shows "set x \<inter> pend q' = {} \<and> set x \<union> pend q' = pend q \<and> distinct (map timer_id x)"
proof -
  note f = fire_ok [OF assms]
  then have "distinct (map entry_key x)" by (simp add: entry_sorted_distinct)
  then have "distinct x" by (simp add: distinct_map)
  moreover have "inj_on timer_id (set x)" using f unique [OF assms(1)] by (auto simp: inj_on_def)
  ultimately show ?thesis using f by (auto simp: distinct_map)
qed

end

interpretation tsrv: timer_service tq_inv live next_id add_timer_in_loop cancel_in_loop expire
  by unfold_locales
    (simp_all add: add_timer_inv live_add_timer cancel_inv live_cancel expire_spec,
     simp add: tq_inv_def live_def)

section \<open>Histories of a timer queue\<close>

text \<open>
  All that can happen to the queue of one loop, in any order: a thread calls \<open>run_at\<close> (an id is
  taken, the entry waits in the functor that adds it), the loop thread adds a waiting entry, cancels
  an id, lets time pass, and handles the readable timer descriptor in two steps, between which the
  callbacks may add and cancel. The history keeps what fired when, and what was cancelled while
  stored.
\<close>

record 'f timer_sys =
  tsq :: "'f timer_queue"
  clock :: int
  in_read :: bool
  requested :: "'f entry set"
  fired :: "(int \<times> 'f entry) list"
  cancelled :: "nat set"

definition timer_init :: "'f timer_sys \<Rightarrow> bool" where
  "timer_init s \<longleftrightarrow> tsq s = new_timer_queue \<and> \<not> in_read s \<and> requested s = {} \<and> fired s = [] \<and> cancelled s = {}"

inductive timer_step :: "'f timer_sys \<Rightarrow> 'f timer_sys \<Rightarrow> bool" where
  request: "alloc_timer_id (tsq s) = (i, q) \<Longrightarrow>
     timer_step s (s\<lparr>tsq := q, requested := insert \<lparr>expiration = t, timer_id = i, timer_cb = f\<rparr> (requested s)\<rparr>)"
| add: "e \<in> requested s \<Longrightarrow>
     timer_step s (s\<lparr>tsq := add_timer_in_loop (clock s) e (tsq s), requested := requested s - {e}\<rparr>)"
| cancel: "timer_step s (s\<lparr>tsq := cancel_in_loop (clock s) i (tsq s),
                          cancelled := cancelled s \<union> ({i} \<inter> timer_id ` live (tsq s))\<rparr>)"
| pass: "clock s \<le> t \<Longrightarrow> timer_step s (s\<lparr>clock := t\<rparr>)"
| expires: "\<not> in_read s \<Longrightarrow> expire (clock s) (tsq s) = (x, q) \<Longrightarrow>
     timer_step s (s\<lparr>tsq := q, in_read := True, fired := fired s @ map (Pair (clock s)) x\<rparr>)"
| rearms: "in_read s \<Longrightarrow> timer_step s (s\<lparr>tsq := rearm (clock s) (tsq s), in_read := False\<rparr>)"

abbreviation fired_ids :: "'f timer_sys \<Rightarrow> nat list" where
  "fired_ids s \<equiv> map (timer_id \<circ> snd) (fired s)"

text \<open>
  The ids a queue has handed out are requested, stored, fired or cancelled, never two of these.
\<close>

definition ids_apart :: "nat set \<Rightarrow> nat set \<Rightarrow> nat set \<Rightarrow> nat set \<Rightarrow> nat \<Rightarrow> bool" where
  "ids_apart R L F C n \<longleftrightarrow> R \<inter> L = {} \<and> R \<inter> F = {} \<and> R \<inter> C = {} \<and> L \<inter> F = {} \<and> L \<inter> C = {} \<and> F \<inter> C = {}
     \<and> (\<forall>i \<in> R \<union> L \<union> F \<union> C. i < n)"

lemma ids_apart_request: "ids_apart R L F C n \<Longrightarrow> ids_apart (insert n R) L F C (Suc n)"
  unfolding ids_apart_def by (auto simp: less_Suc_eq)

lemma ids_apart_add: "ids_apart R L F C n \<Longrightarrow> i \<in> R \<Longrightarrow> ids_apart (R - {i}) (insert i L) F C n"
  unfolding ids_apart_def by auto

lemma ids_apart_cancel: "ids_apart R L F C n \<Longrightarrow> ids_apart R (L - {i}) F (C \<union> ({i} \<inter> L)) n"
  unfolding ids_apart_def by auto

lemma ids_apart_fire:
  "ids_apart R L F C n \<Longrightarrow> X \<union> L' = L \<Longrightarrow> X \<inter> L' = {} \<Longrightarrow> ids_apart R L' (F \<union> X) C n \<and> F \<inter> X = {}"
  unfolding ids_apart_def by auto

definition timer_sys_inv :: "'f timer_sys \<Rightarrow> bool" where
  "timer_sys_inv s \<longleftrightarrow> tq_inv (tsq s) \<and> (\<not> in_read s \<longrightarrow> armed (tsq s))
     \<and> inj_on timer_id (requested s)
     \<and> ids_apart (timer_id ` requested s) (timer_id ` live (tsq s)) (set (fired_ids s)) (cancelled s) (next_id (tsq s))
     \<and> distinct (fired_ids s) \<and> (\<forall>(t, e) \<in> set (fired s). expiration e \<le> t)"

lemma alloc_timer_id_frame:
  assumes "alloc_timer_id q = (i, q')"
  shows "i = next_id q" "next_id q' = Suc (next_id q)" "live q' = live q" "armed q' = armed q"
    "tq_inv q \<Longrightarrow> tq_inv q'"
proof -
  show "i = next_id q" "next_id q' = Suc (next_id q)" "live q' = live q" "armed q' = armed q"
    using assms by (auto simp: alloc_timer_id_def live_def armed_def)
  show "tq_inv q'" if "tq_inv q"
    using assms that unfolding tq_inv_def alloc_timer_id_def by (force simp: less_Suc_eq)
qed

lemma timer_sys_inv_step:
  assumes "timer_step s s'" "timer_sys_inv s"
  shows "timer_sys_inv s'"
  using assms
proof (induction rule: timer_step.induct)
  case (request s i q t f)
  note al = alloc_timer_id_frame [OF request(1)]
  have ap: "ids_apart (timer_id ` requested s) (timer_id ` live (tsq s)) (set (fired_ids s)) (cancelled s) (next_id (tsq s))"
    using request(2) by (simp add: timer_sys_inv_def)
  then have "next_id (tsq s) \<notin> timer_id ` (requested s - A)" for A by (auto simp: ids_apart_def)
  with request(2) al ids_apart_request [OF ap] show ?case
    by (simp add: timer_sys_inv_def)
next
  case (add e s)
  have ap: "ids_apart (timer_id ` requested s) (timer_id ` live (tsq s)) (set (fired_ids s)) (cancelled s) (next_id (tsq s))"
    and inv: "tq_inv (tsq s)" "inj_on timer_id (requested s)"
    using add(2) by (simp_all add: timer_sys_inv_def)
  have e: "timer_id e \<notin> timer_id ` live (tsq s)" "timer_id e < next_id (tsq s)"
    using ap add(1) by (auto simp: ids_apart_def)
  note ok = tsrv.add_ok [OF inv(1) e, of "clock s"]
  have "timer_id ` (requested s - {e}) = timer_id ` requested s - {timer_id e}"
    "inj_on timer_id (requested s - {e})"
    using inv(2) add(1) by (auto simp: inj_on_def)
  with add ok ids_apart_add [OF ap, of "timer_id e"] add_timer_armed [of "tsq s" "clock s" e] show ?case
    by (simp add: timer_sys_inv_def)
next
  case (cancel s i)
  have ap: "ids_apart (timer_id ` requested s) (timer_id ` live (tsq s)) (set (fired_ids s)) (cancelled s) (next_id (tsq s))"
    and inv: "tq_inv (tsq s)"
    using cancel by (simp_all add: timer_sys_inv_def)
  note ok = tsrv.cancel_ok [OF inv, of "clock s" i]
  have "timer_id ` {e \<in> live (tsq s). timer_id e \<noteq> i} = timer_id ` live (tsq s) - {i}" by auto
  with cancel ok ids_apart_cancel [OF ap, of i] cancel_armed [of "tsq s" "clock s" i] show ?case
    unfolding timer_sys_inv_def timer_sys.simps by simp
next
  case (pass s t)
  then show ?case by (simp add: timer_sys_inv_def)
next
  case (expires s x q)
  have ap: "ids_apart (timer_id ` requested s) (timer_id ` live (tsq s)) (set (fired_ids s)) (cancelled s) (next_id (tsq s))"
    and inv: "tq_inv (tsq s)" using expires(3) by (simp_all add: timer_sys_inv_def)
  note ok = tsrv.fire_ok [OF inv expires(2)] and once = tsrv.fires_once [OF inv expires(2)]
  have part: "timer_id ` set x \<union> timer_id ` live q = timer_id ` live (tsq s)"
    "timer_id ` set x \<inter> timer_id ` live q = {}"
    using ok tsrv.unique [OF inv] once by (auto simp: inj_on_def)
  have ids: "fired_ids (s\<lparr>tsq := q, in_read := True, fired := fired s @ map (Pair (clock s)) x\<rparr>)
      = fired_ids s @ map timer_id x"
    by (simp add: comp_def)
  have "set (fired_ids s) \<inter> timer_id ` set x = {}" using ids_apart_fire [OF ap part] ..
  moreover have "\<forall>(t, e) \<in> set (fired s @ map (Pair (clock s)) x). expiration e \<le> t"
    using expires(3) ok by (auto simp: timer_sys_inv_def)
  ultimately show ?case
    using expires(3) ok once ids_apart_fire [OF ap part] unfolding timer_sys_inv_def ids
    by simp
next
  case (rearms s)
  then show ?case by (simp add: timer_sys_inv_def rearm_armed)
qed

interpretation timer_ts: invariant_system timer_init timer_step timer_sys_inv
  by unfold_locales (simp add: timer_sys_inv_def timer_init_def ids_apart_def, rule timer_sys_inv_step)


text \<open>A queue in which one timer is stored, armed, and about to be due.\<close>

definition timer_sys0 :: "nat timer_sys" where
  "timer_sys0 = \<lparr>tsq = new_timer_queue, clock = 100, in_read = False, requested = {}, fired = [], cancelled = {}\<rparr>"

definition timer_sys1 :: "nat timer_sys" where
  "timer_sys1 = timer_sys0\<lparr>tsq := add_timer_in_loop 100 \<lparr>expiration = 150, timer_id = 1, timer_cb = Some 7\<rparr>
                                   (snd (alloc_timer_id new_timer_queue))\<rparr>"

lemma timer_sys1_reach: "reach timer_init timer_step timer_sys1"
proof -
  let ?e = "\<lparr>expiration = 150, timer_id = 1, timer_cb = Some (7::nat)\<rparr>"
  let ?r = "timer_sys0\<lparr>tsq := snd (alloc_timer_id new_timer_queue), requested := {?e}\<rparr>"
  have "reach timer_init timer_step timer_sys0"
    by (rule reach_init) (simp add: timer_init_def timer_sys0_def)
  moreover have "timer_step timer_sys0 ?r"
    using timer_step.request [of timer_sys0 1 "snd (alloc_timer_id new_timer_queue)" 150 "Some 7"]
    by (simp add: timer_sys0_def alloc_timer_id_def new_timer_queue_def)
  moreover have "timer_step ?r timer_sys1"
    using timer_step.add [of ?e ?r] by (simp add: timer_sys1_def timer_sys0_def)
  ultimately show ?thesis by (blast intro: reach_step)
qed


text \<open>
  \<open>to_itimerspec\<close> never yields the all-zero value that would disarm the descriptor, keeps the
  nanoseconds in the range the system call demands, and encodes exactly the remaining time, at least
  one nanosecond.
\<close>

theorem to_itimerspec_valid:
  "0 \<le> tv_sec (to_itimerspec now e) \<and> 0 \<le> tv_nsec (to_itimerspec now e) \<and> tv_nsec (to_itimerspec now e) < 10 ^ 9
   \<and> tv_sec (to_itimerspec now e) * 10 ^ 9 + tv_nsec (to_itimerspec now e) = max 1 (e - now)"
  by (auto simp: to_itimerspec_def Let_def)

end
