(* ===== verification/Event_Loop.thy ===== *)
theory Event_Loop
  imports Timer_Queue "HOL-Library.Word"
begin

unbundle bit_operations_syntax

text \<open>
  \<open>src/src/channel.h\<close>, \<open>channel.cpp\<close>, \<open>event_loop.h\<close>, \<open>event_loop.cpp\<close> and the part of
  \<open>timer_queue.cpp\<close> that goes through the loop.

  A \<open>std::function<void()>\<close> given to a loop is a value of type \<open>'u task\<close>: the two lambdas of the timer
  queue, or a task of the layer above, which says what running it does. A loop is a record; all
  loops, the calling thread and the steady clock form a \<open>world\<close>, which the layers above extend by
  their own fields. The kernel side of epoll is the interest list with the documented failures of
  \<open>epoll_ctl\<close> (\<open>EEXIST\<close>, \<open>ENOENT\<close>, \<open>EBADF\<close>) and a script of further failures, and the counter of the event
  descriptor. \<open>assert_in_loop_thread\<close> calls \<open>abort\<close>: the model sets \<open>loop_aborted\<close> and leaves the
  function.
\<close>

section \<open>Channel\<close>

datatype chan_state = kNew | kAdded | kDeleted

record channel =
  ch_fd :: int
  ch_events :: u32
  ch_state :: chan_state
  ch_tied :: bool

definition EPOLLIN :: u32 where "EPOLLIN = 0x001"
definition EPOLLOUT :: u32 where "EPOLLOUT = 0x004"
definition EPOLLERR :: u32 where "EPOLLERR = 0x008"
definition EPOLLHUP :: u32 where "EPOLLHUP = 0x010"
definition EPOLLRDHUP :: u32 where "EPOLLRDHUP = 0x2000"
definition EPOLLET :: u32 where "EPOLLET = 0x80000000"

definition kReadEvent :: u32 where
  "kReadEvent = EPOLLIN OR EPOLLRDHUP"

definition new_channel :: "int \<Rightarrow> channel" where
  "new_channel fd = \<lparr>ch_fd = fd, ch_events = 0, ch_state = kNew, ch_tied = False\<rparr>"

definition is_reading :: "channel \<Rightarrow> bool" where
  "is_reading ch \<longleftrightarrow> ch_events ch AND kReadEvent \<noteq> 0"

definition is_writing :: "channel \<Rightarrow> bool" where
  "is_writing ch \<longleftrightarrow> ch_events ch AND EPOLLOUT \<noteq> 0"

definition tie :: "channel \<Rightarrow> channel" where
  "tie ch = ch\<lparr>ch_tied := True\<rparr>"

datatype cb_kind = CloseCb | ErrorCb | ReadCb | WriteCb

text \<open>The callbacks \<open>handle_event_with_guard\<close> calls, in order.\<close>

definition dispatch :: "u32 \<Rightarrow> cb_kind list" where
  "dispatch revents =
     (if revents AND EPOLLHUP \<noteq> 0 \<and> revents AND EPOLLIN = 0 then [CloseCb]
      else (if revents AND EPOLLERR \<noteq> 0 then [ErrorCb] else [])
         @ (if revents AND (EPOLLIN OR EPOLLRDHUP) \<noteq> 0 then [ReadCb] else [])
         @ (if revents AND EPOLLOUT \<noteq> 0 then [WriteCb] else []))"

definition handle_event_with_guard :: "(cb_kind \<Rightarrow> ('w \<Rightarrow> 'w) option) \<Rightarrow> u32 \<Rightarrow> 'w \<Rightarrow> 'w" where
  "handle_event_with_guard cbs revents w =
     fold (\<lambda>k. case cbs k of None \<Rightarrow> id | Some f \<Rightarrow> f) (dispatch revents) w"

text \<open>\<open>locked\<close> is the outcome of \<open>tie_.lock()\<close>.\<close>

definition handle_event :: "channel \<Rightarrow> bool \<Rightarrow> (cb_kind \<Rightarrow> ('w \<Rightarrow> 'w) option) \<Rightarrow> u32 \<Rightarrow> 'w \<Rightarrow> 'w" where
  "handle_event ch locked cbs revents w =
     (if ch_tied ch then (if locked then handle_event_with_guard cbs revents w else w)
      else handle_event_with_guard cbs revents w)"

section \<open>The state of a loop\<close>

record epoll =
  interest :: "int \<rightharpoonup> u32"
  closed_fds :: "int set"
  ctl_faults :: "bool list"

record 'f event_loop =
  owner_tid :: nat
  quit_flag :: bool
  calling_pending_functors :: bool
  pending_functors :: "'f list"
  wakeup_cnt :: nat
  ep :: epoll
  wakeup_channel :: channel
  timerfd_channel :: channel
  timer_queue :: "'f timer_queue"
  loop_aborted :: bool

record 'f world =
  loops :: "nat \<Rightarrow> 'f event_loop"
  this_thread :: nat
  steady_now :: int

text \<open>The next \<open>epoll_ctl\<close> fails for a reason of its own if the script says so.\<close>

definition ctl_fault :: "epoll \<Rightarrow> bool \<times> epoll" where
  "ctl_fault p = (case ctl_faults p of [] \<Rightarrow> (False, p) | b # bs \<Rightarrow> (b, p\<lparr>ctl_faults := bs\<rparr>))"

definition epoll_add :: "int \<Rightarrow> u32 \<Rightarrow> epoll \<Rightarrow> bool \<times> epoll" where
  "epoll_add fd ev p =
     (let (b, p1) = ctl_fault p
      in if b \<or> fd \<in> closed_fds p1 \<or> interest p1 fd \<noteq> None then (False, p1)
         else (True, p1\<lparr>interest := (interest p1)(fd \<mapsto> ev)\<rparr>))"

definition epoll_mod :: "int \<Rightarrow> u32 \<Rightarrow> epoll \<Rightarrow> bool \<times> epoll" where
  "epoll_mod fd ev p =
     (let (b, p1) = ctl_fault p
      in if b \<or> fd \<in> closed_fds p1 \<or> interest p1 fd = None then (False, p1)
         else (True, p1\<lparr>interest := (interest p1)(fd \<mapsto> ev)\<rparr>))"

definition epoll_del :: "int \<Rightarrow> epoll \<Rightarrow> epoll" where
  "epoll_del fd p = p\<lparr>interest := (interest p)(fd := None)\<rparr>"

text \<open>\<open>close(2)\<close> also drops the registration; a descriptor number given out again is open again.\<close>

definition fd_close :: "int \<Rightarrow> 'f event_loop \<Rightarrow> 'f event_loop" where
  "fd_close fd l = l\<lparr>ep := (ep l)\<lparr>interest := (interest (ep l))(fd := None), closed_fds := insert fd (closed_fds (ep l))\<rparr>\<rparr>"

definition fd_open :: "int \<Rightarrow> 'f event_loop \<Rightarrow> 'f event_loop" where
  "fd_open fd l = l\<lparr>ep := (ep l)\<lparr>closed_fds := closed_fds (ep l) - {fd}\<rparr>\<rparr>"

section \<open>Registration\<close>

text \<open>The first argument is the calling thread.\<close>

definition update_channel :: "nat \<Rightarrow> channel \<Rightarrow> 'f event_loop \<Rightarrow> channel \<times> 'f event_loop" where
  "update_channel t ch l =
     (if owner_tid l \<noteq> t then (ch, l\<lparr>loop_aborted := True\<rparr>)
      else let ev = ch_events ch OR EPOLLET
           in if ch_state ch = kNew \<or> ch_state ch = kDeleted
              then let (ok, p) = epoll_add (ch_fd ch) ev (ep l)
                   in (if ok then ch\<lparr>ch_state := kAdded\<rparr> else ch, l\<lparr>ep := p\<rparr>)
              else (ch, l\<lparr>ep := snd (epoll_mod (ch_fd ch) ev (ep l))\<rparr>))"

definition remove_channel :: "nat \<Rightarrow> channel \<Rightarrow> 'f event_loop \<Rightarrow> channel \<times> 'f event_loop" where
  "remove_channel t ch l =
     (if owner_tid l \<noteq> t then (ch, l\<lparr>loop_aborted := True\<rparr>)
      else if ch_state ch \<noteq> kAdded then (ch\<lparr>ch_state := kDeleted\<rparr>, l)
      else (ch\<lparr>ch_state := kDeleted\<rparr>, l\<lparr>ep := epoll_del (ch_fd ch) (ep l)\<rparr>))"

definition enable_reading :: "nat \<Rightarrow> channel \<Rightarrow> 'f event_loop \<Rightarrow> channel \<times> 'f event_loop" where
  "enable_reading t ch = update_channel t (ch\<lparr>ch_events := ch_events ch OR kReadEvent\<rparr>)"

definition disable_reading :: "nat \<Rightarrow> channel \<Rightarrow> 'f event_loop \<Rightarrow> channel \<times> 'f event_loop" where
  "disable_reading t ch = update_channel t (ch\<lparr>ch_events := ch_events ch AND NOT kReadEvent\<rparr>)"

definition enable_writing :: "nat \<Rightarrow> channel \<Rightarrow> 'f event_loop \<Rightarrow> channel \<times> 'f event_loop" where
  "enable_writing t ch = update_channel t (ch\<lparr>ch_events := ch_events ch OR EPOLLOUT\<rparr>)"

definition disable_writing :: "nat \<Rightarrow> channel \<Rightarrow> 'f event_loop \<Rightarrow> channel \<times> 'f event_loop" where
  "disable_writing t ch = update_channel t (ch\<lparr>ch_events := ch_events ch AND NOT EPOLLOUT\<rparr>)"

definition disable_all :: "nat \<Rightarrow> channel \<Rightarrow> 'f event_loop \<Rightarrow> channel \<times> 'f event_loop" where
  "disable_all t ch = update_channel t (ch\<lparr>ch_events := 0\<rparr>)"

section \<open>Construction and destruction\<close>

definition new_event_loop :: "nat \<Rightarrow> int \<Rightarrow> int \<Rightarrow> bool list \<Rightarrow> 'f event_loop" where
  "new_event_loop t wakeup_fd timerfd faults =
     (let l = \<lparr>owner_tid = t, quit_flag = False, calling_pending_functors = False, pending_functors = [],
               wakeup_cnt = 0, ep = \<lparr>interest = Map.empty, closed_fds = {}, ctl_faults = faults\<rparr>,
               wakeup_channel = new_channel wakeup_fd, timerfd_channel = new_channel timerfd,
               timer_queue = new_timer_queue, loop_aborted = False\<rparr>;
          (c1, l1) = enable_reading t (wakeup_channel l) l;
          (c2, l2) = enable_reading t (timerfd_channel l1) (l1\<lparr>wakeup_channel := c1\<rparr>)
      in l2\<lparr>timerfd_channel := c2\<rparr>)"

text \<open>\<open>~EventLoop\<close>: first \<open>~TimerQueue\<close>, then the wake-up channel; both descriptors are closed.\<close>

definition detach_channel :: "nat \<Rightarrow> channel \<Rightarrow> 'f event_loop \<Rightarrow> channel \<times> 'f event_loop" where
  "detach_channel t ch l = (let (c, l) = disable_all t ch l in remove_channel t c l)"

definition destroy_event_loop :: "nat \<Rightarrow> 'f event_loop \<Rightarrow> 'f event_loop" where
  "destroy_event_loop t l =
     (let (c, l) = detach_channel t (timerfd_channel l) l;
          l = l\<lparr>timerfd_channel := c\<rparr>;
          l = fd_close (ch_fd c) l;
          (c, l) = detach_channel t (wakeup_channel l) l
      in fd_close (ch_fd c) (l\<lparr>wakeup_channel := c\<rparr>))"

section \<open>Functors\<close>

text \<open>An event descriptor refuses to count beyond \<open>2\<^sup>6\<^sup>4 - 2\<close>; the code then only logs.\<close>

definition wakeup :: "'f event_loop \<Rightarrow> 'f event_loop" where
  "wakeup l = (if wakeup_cnt l < 2 ^ 64 - 2 then l\<lparr>wakeup_cnt := wakeup_cnt l + 1\<rparr> else l)"

definition handle_wakeup :: "'f event_loop \<Rightarrow> 'f event_loop" where
  "handle_wakeup l = l\<lparr>wakeup_cnt := 0\<rparr>"

definition push_functor :: "'f \<Rightarrow> 'f event_loop \<Rightarrow> 'f event_loop" where
  "push_functor f l = l\<lparr>pending_functors := pending_functors l @ [f]\<rparr>"

definition queue_in_loop :: "nat \<Rightarrow> 'f \<Rightarrow> 'f event_loop \<Rightarrow> 'f event_loop" where
  "queue_in_loop t f l =
     (let l1 = push_functor f l
      in if owner_tid l1 \<noteq> t \<or> calling_pending_functors l1 then wakeup l1 else l1)"

definition quit :: "nat \<Rightarrow> 'f event_loop \<Rightarrow> 'f event_loop" where
  "quit t l = (let l1 = l\<lparr>quit_flag := True\<rparr> in if owner_tid l1 \<noteq> t then wakeup l1 else l1)"

definition swap_functors :: "'f event_loop \<Rightarrow> 'f list \<times> 'f event_loop" where
  "swap_functors l = (pending_functors l, l\<lparr>pending_functors := [], calling_pending_functors := True\<rparr>)"

definition end_functors :: "'f event_loop \<Rightarrow> 'f event_loop" where
  "end_functors l = l\<lparr>calling_pending_functors := False\<rparr>"

section \<open>Loops in a world\<close>

text \<open>A task given to a loop: the lambdas of \<open>run_at\<close> and \<open>cancel\<close>, or one of the layer above.\<close>

datatype 'u task = AddTimer int nat "'u task option" | CancelTimer nat | Task 'u

definition on_loop :: "nat \<Rightarrow> ('f event_loop \<Rightarrow> 'f event_loop) \<Rightarrow> ('f, 'z) world_scheme \<Rightarrow> ('f, 'z) world_scheme" where
  "on_loop i f w = w\<lparr>loops := (loops w)(i := f (loops w i))\<rparr>"

definition in_loop_thread :: "nat \<Rightarrow> ('f, 'z) world_scheme \<Rightarrow> bool" where
  "in_loop_thread i w \<longleftrightarrow> owner_tid (loops w i) = this_thread w"

definition loop_abort :: "nat \<Rightarrow> ('f, 'z) world_scheme \<Rightarrow> ('f, 'z) world_scheme" where
  "loop_abort i = on_loop i (\<lambda>l. l\<lparr>loop_aborted := True\<rparr>)"

text \<open>
  \<open>run_in_loop\<close> is given the name of the lambda, which is what a queue stores, and what calling it
  does.
\<close>

definition run_in_loop :: "nat \<Rightarrow> 'f \<Rightarrow> (('f, 'z) world_scheme \<Rightarrow> ('f, 'z) world_scheme)
    \<Rightarrow> ('f, 'z) world_scheme \<Rightarrow> ('f, 'z) world_scheme" where
  "run_in_loop i f call w =
     (if in_loop_thread i w then call w else on_loop i (queue_in_loop (this_thread w) f) w)"

definition add_timer_task :: "nat \<Rightarrow> 'f entry \<Rightarrow> ('f, 'z) world_scheme \<Rightarrow> ('f, 'z) world_scheme" where
  "add_timer_task i e w =
     (if in_loop_thread i w
      then on_loop i (\<lambda>l. l\<lparr>timer_queue := add_timer_in_loop (steady_now w) e (timer_queue l)\<rparr>) w
      else loop_abort i w)"

definition cancel_task :: "nat \<Rightarrow> nat \<Rightarrow> ('f, 'z) world_scheme \<Rightarrow> ('f, 'z) world_scheme" where
  "cancel_task i k w =
     (if in_loop_thread i w
      then on_loop i (\<lambda>l. l\<lparr>timer_queue := cancel_in_loop (steady_now w) k (timer_queue l)\<rparr>) w
      else loop_abort i w)"

definition run_at :: "nat \<Rightarrow> int \<Rightarrow> 'u task option \<Rightarrow> ('u task, 'z) world_scheme \<Rightarrow> nat \<times> ('u task, 'z) world_scheme" where
  "run_at i t cb w =
     (let (k, q) = alloc_timer_id (timer_queue (loops w i));
          w1 = on_loop i (\<lambda>l. l\<lparr>timer_queue := q\<rparr>) w
      in (k, run_in_loop i (AddTimer t k cb) (add_timer_task i \<lparr>expiration = t, timer_id = k, timer_cb = cb\<rparr>) w1))"

definition run_after :: "nat \<Rightarrow> int \<Rightarrow> 'u task option \<Rightarrow> ('u task, 'z) world_scheme \<Rightarrow> nat \<times> ('u task, 'z) world_scheme" where
  "run_after i delay_ms cb w = run_at i (steady_now w + delay_ms * 1000000) cb w"

definition cancel_timer :: "nat \<Rightarrow> nat \<Rightarrow> ('u task, 'z) world_scheme \<Rightarrow> ('u task, 'z) world_scheme" where
  "cancel_timer i k = run_in_loop i (CancelTimer k) (cancel_task i k)"

text \<open>Calling a stored task; \<open>run\<close> says what the tasks of the layer above do.\<close>

fun run_task :: "('u \<Rightarrow> ('u task, 'z) world_scheme \<Rightarrow> ('u task, 'z) world_scheme) \<Rightarrow> nat \<Rightarrow> 'u task
    \<Rightarrow> ('u task, 'z) world_scheme \<Rightarrow> ('u task, 'z) world_scheme" where
  "run_task run i (AddTimer t k cb) = add_timer_task i \<lparr>expiration = t, timer_id = k, timer_cb = cb\<rparr>"
| "run_task run i (CancelTimer k) = cancel_task i k"
| "run_task run i (Task u) = run u"

definition do_pending_functors :: "('u \<Rightarrow> ('u task, 'z) world_scheme \<Rightarrow> ('u task, 'z) world_scheme) \<Rightarrow> nat
    \<Rightarrow> ('u task, 'z) world_scheme \<Rightarrow> ('u task, 'z) world_scheme" where
  "do_pending_functors run i w =
     (let (functors, l) = swap_functors (loops w i);
          w1 = on_loop i (\<lambda>_. l) w;
          w2 = fold (run_task run i) functors w1
      in on_loop i end_functors w2)"

text \<open>
  \<open>TimerQueue::handle_read\<close>. The expiration count read from the descriptor is not used. Time may
  pass while the callbacks run: \<open>elapsed\<close> is added to the clock before the descriptor is re-armed.
\<close>

definition timer_handle_read :: "('u \<Rightarrow> ('u task, 'z) world_scheme \<Rightarrow> ('u task, 'z) world_scheme) \<Rightarrow> nat \<Rightarrow> nat
    \<Rightarrow> ('u task, 'z) world_scheme \<Rightarrow> ('u task, 'z) world_scheme" where
  "timer_handle_read run i elapsed w =
     (if \<not> in_loop_thread i w then loop_abort i w
      else let (expired, q) = expire (steady_now w) (timer_queue (loops w i));
               w1 = on_loop i (\<lambda>l. l\<lparr>timer_queue := q\<rparr>) w;
               w2 = fold (\<lambda>e. case timer_cb e of None \<Rightarrow> id | Some cb \<Rightarrow> run_task run i cb) expired w1;
               w3 = w2\<lparr>steady_now := steady_now w2 + int elapsed\<rparr>
           in on_loop i (\<lambda>l. l\<lparr>timer_queue := rearm (steady_now w3) (timer_queue l)\<rparr>) w3)"

text \<open>
  \<open>EventLoop::loop\<close>, for the results of \<open>epoll_wait\<close> the kernel will give: \<open>None\<close> is \<open>EINTR\<close>, \<open>Some evs\<close>
  the ready channels. The loop ends when it reads the quit flag; when the list is used up it is
  blocked. \<open>ev\<close> handles one ready channel.
\<close>

fun loop_run :: "('e \<Rightarrow> ('u task, 'z) world_scheme \<Rightarrow> ('u task, 'z) world_scheme)
    \<Rightarrow> ('u \<Rightarrow> ('u task, 'z) world_scheme \<Rightarrow> ('u task, 'z) world_scheme) \<Rightarrow> nat
    \<Rightarrow> 'e list option list \<Rightarrow> ('u task, 'z) world_scheme \<Rightarrow> bool \<times> ('u task, 'z) world_scheme" where
  "loop_run ev run i batches w =
     (if \<not> in_loop_thread i w then (True, loop_abort i w)
      else if quit_flag (loops w i) then (True, w)
      else case batches of
             [] \<Rightarrow> (False, w)
           | None # bs \<Rightarrow> loop_run ev run i bs w
           | Some evs # bs \<Rightarrow> loop_run ev run i bs (do_pending_functors run i (fold ev evs w)))"

declare loop_run.simps [simp del]

section \<open>Event bits\<close>

lemma event_bits:
  "ev AND EPOLLIN \<noteq> 0 \<longleftrightarrow> bit ev 0" "ev AND EPOLLOUT \<noteq> 0 \<longleftrightarrow> bit ev 2" "ev AND EPOLLERR \<noteq> 0 \<longleftrightarrow> bit ev 3"
  "ev AND EPOLLHUP \<noteq> 0 \<longleftrightarrow> bit ev 4" "ev AND kReadEvent \<noteq> 0 \<longleftrightarrow> bit ev 0 \<or> bit ev 13"
proof -
  have "ev AND 2 ^ n \<noteq> 0 \<longleftrightarrow> bit ev n" for n by (simp add: and_exp_eq_0_iff_not_bit)
  note b = this
  show "ev AND EPOLLIN \<noteq> 0 \<longleftrightarrow> bit ev 0" "ev AND EPOLLOUT \<noteq> 0 \<longleftrightarrow> bit ev 2" "ev AND EPOLLERR \<noteq> 0 \<longleftrightarrow> bit ev 3"
    "ev AND EPOLLHUP \<noteq> 0 \<longleftrightarrow> bit ev 4"
    using b [of 0] b [of 2] b [of 3] b [of 4]
    by (simp_all add: EPOLLIN_def EPOLLOUT_def EPOLLERR_def EPOLLHUP_def)
  have "ev AND (2 ^ m OR 2 ^ n) = 0 \<longleftrightarrow> ev AND 2 ^ m = 0 \<and> ev AND 2 ^ n = 0" for m n
    by (simp add: bit.conj_disj_distrib or_eq_0_iff)
  from this [of 0 13] b [of 0] b [of 13] show "ev AND kReadEvent \<noteq> 0 \<longleftrightarrow> bit ev 0 \<or> bit ev 13"
    by (simp add: kReadEvent_def EPOLLIN_def EPOLLRDHUP_def)
qed

lemma is_writing_bit: "is_writing ch \<longleftrightarrow> bit (ch_events ch) 2"
  by (simp add: is_writing_def event_bits)

lemma is_reading_bit: "is_reading ch \<longleftrightarrow> bit (ch_events ch) 0 \<or> bit (ch_events ch) 13"
  by (simp add: is_reading_def event_bits)

lemma bit_EPOLLOUT: "bit EPOLLOUT n \<longleftrightarrow> n = 2"
  using bit_exp_iff [where 'a = u32, of 2 n] by (auto simp: EPOLLOUT_def)

lemma bit_kReadEvent: "bit kReadEvent n \<longleftrightarrow> n = 0 \<or> n = 13"
proof -
  have "kReadEvent = 2 ^ 0 OR 2 ^ 13" by (simp add: kReadEvent_def EPOLLIN_def EPOLLRDHUP_def)
  then have "bit kReadEvent n \<longleftrightarrow> bit (2 ^ 0 :: u32) n \<or> bit (2 ^ 13 :: u32) n"
    by (rule ssubst) (rule bit_or_iff)
  then show ?thesis by (auto simp only: bit_exp_iff possible_bit_word) simp_all
qed

text \<open>
  Which callbacks an event set leads to: a hang-up without readable data closes and does nothing
  else; otherwise an error, a readable or half-closed peer and a writable socket lead to the error,
  the read and the write callback, in this order and each once, so one batch can call several. A
  channel tied to an object that is gone calls nothing.
\<close>

theorem dispatch_callbacks:
  "(CloseCb \<in> set (dispatch ev) \<longleftrightarrow> bit ev 4 \<and> \<not> bit ev 0)
   \<and> (ErrorCb \<in> set (dispatch ev) \<longleftrightarrow> bit ev 3 \<and> (bit ev 4 \<longrightarrow> bit ev 0))
   \<and> (ReadCb \<in> set (dispatch ev) \<longleftrightarrow> (bit ev 0 \<or> bit ev 13) \<and> (bit ev 4 \<longrightarrow> bit ev 0))
   \<and> (WriteCb \<in> set (dispatch ev) \<longleftrightarrow> bit ev 2 \<and> (bit ev 4 \<longrightarrow> bit ev 0))
   \<and> (CloseCb \<in> set (dispatch ev) \<longrightarrow> dispatch ev = [CloseCb])
   \<and> distinct (dispatch ev)
   \<and> handle_event (tie ch) False cbs ev w = w"
proof -
  have "ev AND EPOLLIN = 0 \<longleftrightarrow> \<not> bit ev 0" using event_bits(1) [of ev] by blast
  then show ?thesis
    unfolding dispatch_def handle_event_def tie_def event_bits kReadEvent_def [symmetric] by auto
qed

theorem dispatch_callbacks_witness: "dispatch EPOLLHUP = [CloseCb]"
proof -
  have "bit EPOLLHUP 4" "\<not> bit EPOLLHUP 0" by (simp_all add: EPOLLHUP_def)
  then have "CloseCb \<in> set (dispatch EPOLLHUP)" by (rule iffD2 [OF conjunct1 [OF dispatch_callbacks], OF conjI])
  moreover have "CloseCb \<in> set (dispatch EPOLLHUP) \<longrightarrow> dispatch EPOLLHUP = [CloseCb]"
    by (rule dispatch_callbacks [THEN conjunct2, THEN conjunct2, THEN conjunct2, THEN conjunct2, THEN conjunct1])
  ultimately show ?thesis by simp
qed

section \<open>Registration follows the channel's state\<close>

text \<open>The operations of the owner of a channel.\<close>

datatype chan_op = EnableReading | DisableReading | EnableWriting | DisableWriting | DisableAll | Remove

fun chan_apply :: "nat \<Rightarrow> chan_op \<Rightarrow> channel \<times> 'f event_loop \<Rightarrow> channel \<times> 'f event_loop" where
  "chan_apply t EnableReading (ch, l) = enable_reading t ch l"
| "chan_apply t DisableReading (ch, l) = disable_reading t ch l"
| "chan_apply t EnableWriting (ch, l) = enable_writing t ch l"
| "chan_apply t DisableWriting (ch, l) = disable_writing t ch l"
| "chan_apply t DisableAll (ch, l) = disable_all t ch l"
| "chan_apply t Remove (ch, l) = remove_channel t ch l"

lemmas channel_ops = enable_reading_def disable_reading_def enable_writing_def disable_writing_def disable_all_def

text \<open>The channel believes to be registered exactly if it is.\<close>

definition registered :: "channel \<Rightarrow> 'f event_loop \<Rightarrow> bool" where
  "registered ch l \<longleftrightarrow> (ch_state ch = kAdded \<longleftrightarrow> interest (ep l) (ch_fd ch) \<noteq> None) \<and> ch_fd ch \<notin> closed_fds (ep l)"

definition in_sync :: "channel \<Rightarrow> 'f event_loop \<Rightarrow> bool" where
  "in_sync ch l \<longleftrightarrow> interest (ep l) (ch_fd ch) = Some (ch_events ch OR EPOLLET)"

lemma ctl_fault_frame:
  "ctl_fault p = (b, p') \<Longrightarrow> interest p' = interest p \<and> closed_fds p' = closed_fds p
     \<and> (ctl_faults p = [] \<longrightarrow> \<not> b \<and> p' = p) \<and> (set (ctl_faults p) \<subseteq> {False} \<longrightarrow> \<not> b)
     \<and> set (ctl_faults p') \<subseteq> set (ctl_faults p)"
  by (auto simp: ctl_fault_def split: list.splits)

lemma update_channel_frame:
  assumes "update_channel t ch l = (ch', l')"
  shows "ch_fd ch' = ch_fd ch" "ch_events ch' = ch_events ch" "ch_tied ch' = ch_tied ch"
    "closed_fds (ep l') = closed_fds (ep l)" "\<And>fd. fd \<noteq> ch_fd ch \<Longrightarrow> interest (ep l') fd = interest (ep l) fd"
    "set (ctl_faults (ep l')) \<subseteq> set (ctl_faults (ep l))"
    "owner_tid l = t \<Longrightarrow> l' = l\<lparr>ep := ep l'\<rparr>"
proof -
  obtain b p1 where c: "ctl_fault (ep l) = (b, p1)" by fastforce
  note f = ctl_fault_frame [OF c]
  show "ch_fd ch' = ch_fd ch" "ch_events ch' = ch_events ch" "ch_tied ch' = ch_tied ch"
    "closed_fds (ep l') = closed_fds (ep l)" "\<And>fd. fd \<noteq> ch_fd ch \<Longrightarrow> interest (ep l') fd = interest (ep l) fd"
    "set (ctl_faults (ep l')) \<subseteq> set (ctl_faults (ep l))"
    using assms f unfolding update_channel_def epoll_add_def epoll_mod_def c
    by (auto simp: Let_def split: if_splits)
  show "owner_tid l = t \<Longrightarrow> l' = l\<lparr>ep := ep l'\<rparr>"
    using assms by (auto simp: update_channel_def Let_def split: if_splits prod.splits)
qed

lemma update_channel_registered:
  assumes "update_channel t ch l = (ch', l')" "owner_tid l = t" "registered ch l"
  shows "registered ch' l'" "ch_state ch = kAdded \<Longrightarrow> ch_state ch' = kAdded"
    "set (ctl_faults (ep l)) \<subseteq> {False} \<Longrightarrow> ch_state ch' = kAdded \<and> in_sync ch' l'"
proof -
  obtain b p1 where c: "ctl_fault (ep l) = (b, p1)" by fastforce
  note f = ctl_fault_frame [OF c]
  show "registered ch' l'" "ch_state ch = kAdded \<Longrightarrow> ch_state ch' = kAdded"
    using assms f unfolding update_channel_def epoll_add_def epoll_mod_def c
    by (auto simp: Let_def registered_def split: if_splits)
  show "ch_state ch' = kAdded \<and> in_sync ch' l'" if "set (ctl_faults (ep l)) \<subseteq> {False}"
    using assms f that unfolding update_channel_def epoll_add_def epoll_mod_def c
    by (auto simp: Let_def registered_def in_sync_def split: if_splits) (metis chan_state.exhaust)+
qed

lemma remove_channel_registered:
  assumes "remove_channel t ch l = (ch', l')" "owner_tid l = t" "registered ch l"
  shows "registered ch' l'" "ch_state ch' = kDeleted" "interest (ep l') (ch_fd ch) = None"
    "ctl_faults (ep l') = ctl_faults (ep l)" "l' = l\<lparr>ep := ep l'\<rparr>" "ch_fd ch' = ch_fd ch"
    "closed_fds (ep l') = closed_fds (ep l)" "\<And>fd. fd \<noteq> ch_fd ch \<Longrightarrow> interest (ep l') fd = interest (ep l) fd"
    "ch_events ch' = ch_events ch"
  using assms by (auto simp: remove_channel_def registered_def epoll_del_def split: if_splits)

lemma chan_apply_registered:
  assumes "chan_apply t op (ch, l) = (ch', l')" "owner_tid l = t" "registered ch l"
  shows "registered ch' l' \<and> owner_tid l' = t \<and> ch_fd ch' = ch_fd ch \<and> loop_aborted l' = loop_aborted l
     \<and> set (ctl_faults (ep l')) \<subseteq> set (ctl_faults (ep l))
     \<and> (\<forall>fd. fd \<noteq> ch_fd ch \<longrightarrow> interest (ep l') fd = interest (ep l) fd)
     \<and> (if op = Remove then ch_state ch' = kDeleted
        else set (ctl_faults (ep l)) \<subseteq> {False} \<longrightarrow> ch_state ch' = kAdded \<and> in_sync ch' l')"
proof (cases "op = Remove")
  case True
  then have r: "remove_channel t ch l = (ch', l')" using assms(1) by simp
  note rr = remove_channel_registered [OF r assms(2,3)]
  have "owner_tid l' = t" "loop_aborted l' = loop_aborted l" by (subst rr(5), simp add: assms(2))+
  with rr True show ?thesis by simp
next
  case False
  then obtain ev where u: "update_channel t (ch\<lparr>ch_events := ev\<rparr>) l = (ch', l')"
    using assms(1) by (cases op) (auto simp: channel_ops)
  have reg: "registered (ch\<lparr>ch_events := ev\<rparr>) l" using assms(3) by (simp add: registered_def)
  note fr = update_channel_frame [OF u] and up = update_channel_registered [OF u assms(2) reg]
  have "owner_tid l' = t" "loop_aborted l' = loop_aborted l"
    by (subst fr(7) [OF assms(2)], simp add: assms(2))+
  with fr up False show ?thesis by simp
qed

lemma chan_apply_many:
  assumes "owner_tid l = t" "registered ch l" "fold (chan_apply t) ops (ch, l) = (ch', l')"
  shows "registered ch' l' \<and> ch_fd ch' = ch_fd ch \<and> loop_aborted l' = loop_aborted l
     \<and> (\<forall>fd. fd \<noteq> ch_fd ch \<longrightarrow> interest (ep l') fd = interest (ep l) fd)
     \<and> (ops \<noteq> [] \<longrightarrow> (if last ops = Remove then ch_state ch' = kDeleted
         else set (ctl_faults (ep l)) \<subseteq> {False} \<longrightarrow> ch_state ch' = kAdded \<and> in_sync ch' l'))"
  using assms
proof (induction ops arbitrary: ch l)
  case (Cons op ops)
  obtain c1 l1 where a: "chan_apply t op (ch, l) = (c1, l1)" by fastforce
  note s1 = chan_apply_registered [OF a Cons.prems(1,2)]
  have f: "fold (chan_apply t) ops (c1, l1) = (ch', l')" using Cons.prems(3) a by simp
  note s2 = Cons.IH [OF _ _ f]
  show ?case
  proof (cases "ops = []")
    case True
    then have "c1 = ch'" "l1 = l'" using f by simp_all
    with True s1 show ?thesis by (cases "op = Remove") simp_all
  next
    case False
    have "set (ctl_faults (ep l)) \<subseteq> {False} \<Longrightarrow> set (ctl_faults (ep l1)) \<subseteq> {False}" using s1 by blast
    with False s1 s2 show ?thesis by simp
  qed
qed simp

text \<open>
  Whatever its owner does with a channel, and whichever \<open>epoll_ctl\<close> calls fail: \<open>state_\<close> is
  \<open>kAdded\<close> exactly if the descriptor is in the interest list, so no descriptor is added twice and none
  is modified or deleted while absent; no other descriptor is touched. After \<open>remove\<close> it is not
  registered; after any other operation, if the kernel reports no error of its own, it is registered
  with exactly the channel's events, edge-triggered.
\<close>

theorem channel_registration:
  assumes "owner_tid l = t" "interest (ep l) fd = None" "fd \<notin> closed_fds (ep l)"
    "fold (chan_apply t) ops (new_channel fd, l) = (ch', l')"
  shows "(ch_state ch' = kAdded \<longleftrightarrow> interest (ep l') fd \<noteq> None)
     \<and> (\<forall>fd'. fd' \<noteq> fd \<longrightarrow> interest (ep l') fd' = interest (ep l) fd') \<and> loop_aborted l' = loop_aborted l
     \<and> (ops \<noteq> [] \<and> last ops = Remove \<longrightarrow> interest (ep l') fd = None)
     \<and> (ops \<noteq> [] \<and> last ops \<noteq> Remove \<and> set (ctl_faults (ep l)) \<subseteq> {False} \<longrightarrow>
          interest (ep l') fd = Some (ch_events ch' OR EPOLLET))"
proof -
  have "registered (new_channel fd) l" using assms(2,3) by (simp add: registered_def new_channel_def)
  from chan_apply_many [OF assms(1) this assms(4)] show ?thesis
    by (auto simp: registered_def in_sync_def new_channel_def)
qed

theorem channel_registration_witness:
  "interest (ep (snd (fold (chan_apply 3) [EnableReading, EnableWriting, Remove, EnableReading, EnableWriting, DisableReading]
      (new_channel 9, new_event_loop 3 5 6 [] :: nat event_loop)))) 9 = Some (EPOLLOUT OR EPOLLET)"
proof -
  let ?l = "new_event_loop 3 5 6 [] :: nat event_loop"
  let ?ops = "[EnableReading, EnableWriting, Remove, EnableReading, EnableWriting, DisableReading]"
  obtain c l' where r: "fold (chan_apply 3) ?ops (new_channel 9, ?l) = (c, l')" by (rule prod.exhaust)
  have l: "owner_tid ?l = 3" "interest (ep ?l) 9 = None" "9 \<notin> closed_fds (ep ?l)" "set (ctl_faults (ep ?l)) \<subseteq> {False}"
    by code_simp+
  have "ch_events (fst (fold (chan_apply 3) ?ops (new_channel 9, ?l))) = EPOLLOUT" by code_simp
  then have "ch_events c = EPOLLOUT" by (simp only: r fst_conv)
  moreover have "?ops \<noteq> []" "last ?ops \<noteq> Remove" by simp_all
  ultimately show ?thesis
    using channel_registration [OF l(1-3) r] l(4) by (simp only: r snd_conv) blast
qed

end
