(* ===== verification/Loop_Histories.thy ===== *)
theory Loop_Histories
  imports Event_Loop
begin

text \<open>
  What a loop guarantees to the threads that give it work: functors under every interleaving of
  posting threads with the loop thread, and timers requested and cancelled from several threads.
\<close>

section \<open>Interleavings\<close>

text \<open>
  \<open>queue_in_loop\<close> called by another thread is two steps, the push under the mutex and the write to
  the event descriptor. The loop thread waits, dispatches events, swaps the queue and runs what it
  took; while it does so its callbacks may themselves post. An event other than the wake-up can end
  the wait at any time, and the wake-up descriptor may be read in any batch in which it is ready.
\<close>

datatype 'f loop_phase = Waiting | Dispatching | Running "'f list"

record 'f loop_sys =
  el :: "'f event_loop"
  phase :: "'f loop_phase"
  between :: "nat set"
  posted :: "'f list"
  executed :: "'f list"

definition loop_init :: "nat \<Rightarrow> 'f loop_sys \<Rightarrow> bool" where
  "loop_init t s \<longleftrightarrow> owner_tid (el s) = t \<and> pending_functors (el s) = [] \<and> \<not> calling_pending_functors (el s)
     \<and> wakeup_cnt (el s) = 0 \<and> phase s = Waiting \<and> between s = {} \<and> posted s = [] \<and> executed s = []"

inductive loop_step :: "'f loop_sys \<Rightarrow> 'f loop_sys \<Rightarrow> bool" where
  push: "t \<noteq> owner_tid (el s) \<Longrightarrow> t \<notin> between s \<Longrightarrow>
    loop_step s (s\<lparr>el := push_functor f (el s), between := insert t (between s), posted := posted s @ [f]\<rparr>)"
| wake: "t \<in> between s \<Longrightarrow> loop_step s (s\<lparr>el := wakeup (el s), between := between s - {t}\<rparr>)"
| self_post: "phase s \<noteq> Waiting \<Longrightarrow>
    loop_step s (s\<lparr>el := queue_in_loop (owner_tid (el s)) f (el s), posted := posted s @ [f]\<rparr>)"
| io_event: "phase s = Waiting \<Longrightarrow> loop_step s (s\<lparr>phase := Dispatching\<rparr>)"
| wakeup_event: "phase s = Waiting \<or> phase s = Dispatching \<Longrightarrow> wakeup_cnt (el s) > 0 \<Longrightarrow>
    loop_step s (s\<lparr>el := handle_wakeup (el s), phase := Dispatching\<rparr>)"
| swap: "phase s = Dispatching \<Longrightarrow> swap_functors (el s) = (fs, l) \<Longrightarrow>
    loop_step s (s\<lparr>el := l, phase := Running fs\<rparr>)"
| run_one: "phase s = Running (f # fs) \<Longrightarrow> loop_step s (s\<lparr>phase := Running fs, executed := executed s @ [f]\<rparr>)"
| batch_done: "phase s = Running [] \<Longrightarrow> loop_step s (s\<lparr>el := end_functors (el s), phase := Waiting\<rparr>)"

fun in_flight :: "'f loop_phase \<Rightarrow> 'f list" where
  "in_flight (Running fs) = fs"
| "in_flight _ = []"

definition loop_sys_inv :: "'f loop_sys \<Rightarrow> bool" where
  "loop_sys_inv s \<longleftrightarrow> posted s = executed s @ in_flight (phase s) @ pending_functors (el s)
     \<and> (phase s \<noteq> Dispatching \<and> pending_functors (el s) \<noteq> [] \<longrightarrow> wakeup_cnt (el s) > 0 \<or> between s \<noteq> {})
     \<and> (calling_pending_functors (el s) \<longleftrightarrow> (\<exists>fs. phase s = Running fs)) \<and> finite (between s)"

lemma wakeup_frame [simp]:
  "owner_tid (wakeup l) = owner_tid l" "pending_functors (wakeup l) = pending_functors l"
  "calling_pending_functors (wakeup l) = calling_pending_functors l" "wakeup_cnt (wakeup l) > 0"
  "timer_queue (wakeup l) = timer_queue l" "ep (wakeup l) = ep l" "loop_aborted (wakeup l) = loop_aborted l"
  by (simp_all add: wakeup_def)

lemma push_functor_frame [simp]:
  "owner_tid (push_functor f l) = owner_tid l" "pending_functors (push_functor f l) = pending_functors l @ [f]"
  "calling_pending_functors (push_functor f l) = calling_pending_functors l" "wakeup_cnt (push_functor f l) = wakeup_cnt l"
  "timer_queue (push_functor f l) = timer_queue l" "ep (push_functor f l) = ep l" "loop_aborted (push_functor f l) = loop_aborted l"
  by (simp_all add: push_functor_def)

lemma queue_in_loop_frame [simp]:
  "owner_tid (queue_in_loop t f l) = owner_tid l" "pending_functors (queue_in_loop t f l) = pending_functors l @ [f]"
  "calling_pending_functors (queue_in_loop t f l) = calling_pending_functors l"
  "timer_queue (queue_in_loop t f l) = timer_queue l" "ep (queue_in_loop t f l) = ep l"
  "loop_aborted (queue_in_loop t f l) = loop_aborted l"
  by (simp_all add: queue_in_loop_def Let_def)

lemma queue_in_loop_wakes:
  "owner_tid l \<noteq> t \<or> calling_pending_functors l \<Longrightarrow> wakeup_cnt (queue_in_loop t f l) > 0"
  by (simp add: queue_in_loop_def Let_def)

lemma loop_sys_inv_step:
  assumes "loop_step s s'" "loop_sys_inv s"
  shows "loop_sys_inv s'"
  using assms
proof (induction rule: loop_step.induct)
  case (self_post s f)
  then have "\<exists>fs. phase s = Running fs \<Longrightarrow> wakeup_cnt (queue_in_loop (owner_tid (el s)) f (el s)) > 0"
    by (intro queue_in_loop_wakes) (simp add: loop_sys_inv_def)
  with self_post show ?case by (cases "phase s") (auto simp: loop_sys_inv_def)
next
  case (swap s fs l)
  then show ?case by (auto simp: loop_sys_inv_def swap_functors_def)
next
  case (batch_done s)
  then show ?case by (auto simp: loop_sys_inv_def end_functors_def)
next
  case (wakeup_event s)
  then show ?case by (auto simp: loop_sys_inv_def handle_wakeup_def)
qed (auto simp: loop_sys_inv_def)

interpretation loop_ts: invariant_system "loop_init t" loop_step loop_sys_inv for t
  by unfold_locales (simp add: loop_init_def loop_sys_inv_def, rule loop_sys_inv_step)


definition loop_sys0 :: "nat loop_sys" where
  "loop_sys0 = \<lparr>el = new_event_loop 1 5 6 [], phase = Waiting, between = {}, posted = [], executed = []\<rparr>"


section \<open>Timers from several threads\<close>

lemma on_loop_simps [simp]:
  "loops (on_loop i f w) j = (if j = i then f (loops w i) else loops w j)"
  "this_thread (on_loop i f w) = this_thread w" "steady_now (on_loop i f w) = steady_now w"
  by (simp_all add: on_loop_def)

lemma in_loop_thread_on_loop [simp]:
  "(\<And>l. owner_tid (f l) = owner_tid l) \<Longrightarrow> in_loop_thread j (on_loop i f w) = in_loop_thread j w"
  by (simp add: in_loop_thread_def)

lemma do_pending_functors_timers:
  assumes "in_loop_thread i w" "pending_functors (loops w i) = fs" "list_all (\<lambda>f. \<exists>t k cb. f = AddTimer t k cb \<or> f = CancelTimer k) fs"
  shows "timer_queue (loops (do_pending_functors run i w) i) =
    fold (\<lambda>f q. case f of AddTimer t k cb \<Rightarrow> add_timer_in_loop (steady_now w) \<lparr>expiration = t, timer_id = k, timer_cb = cb\<rparr> q
                  | CancelTimer k \<Rightarrow> cancel_in_loop (steady_now w) k q | Task _ \<Rightarrow> q) fs (timer_queue (loops w i))"
proof -
  let ?g = "\<lambda>f q. case f of AddTimer t k cb \<Rightarrow> add_timer_in_loop (steady_now w) \<lparr>expiration = t, timer_id = k, timer_cb = cb\<rparr> q
                  | CancelTimer k \<Rightarrow> cancel_in_loop (steady_now w) k q | Task _ \<Rightarrow> q"
  have "timer_queue (loops (fold (run_task run i) fs v) i) = fold ?g fs (timer_queue (loops v i))"
    if "in_loop_thread i v" "steady_now v = steady_now w"
      "list_all (\<lambda>f. \<exists>t k cb. f = AddTimer t k cb \<or> f = CancelTimer k) fs" for v
    using that
  proof (induction fs arbitrary: v)
    case (Cons f fs)
    then show ?case by (auto simp: add_timer_task_def cancel_task_def)
  qed simp
  moreover have "in_loop_thread i (on_loop i (\<lambda>_. snd (swap_functors (loops w i))) w)"
    using assms(1) by (simp add: in_loop_thread_def swap_functors_def)
  ultimately show ?thesis
    using assms(2,3) by (simp add: do_pending_functors_def swap_functors_def end_functors_def)
qed

lemma on_loop_compose [simp]: "on_loop i f (on_loop i g w) = on_loop i (f \<circ> g) w"
  by (simp add: on_loop_def)

lemma run_at_eq:
  assumes "alloc_timer_id (timer_queue (loops w i)) = (k, q)"
  shows "run_at i t cb w = (k, on_loop i
    (if in_loop_thread i w
     then (\<lambda>l. l\<lparr>timer_queue := add_timer_in_loop (steady_now w) \<lparr>expiration = t, timer_id = k, timer_cb = cb\<rparr> q\<rparr>)
     else (\<lambda>l. queue_in_loop (this_thread w) (AddTimer t k cb) (l\<lparr>timer_queue := q\<rparr>))) w)"
  using assms by (simp add: run_at_def run_in_loop_def add_timer_task_def comp_def)

lemma cancel_timer_eq:
  "cancel_timer i k w = on_loop i
    (if in_loop_thread i w then (\<lambda>l. l\<lparr>timer_queue := cancel_in_loop (steady_now w) k (timer_queue l)\<rparr>)
     else queue_in_loop (this_thread w) (CancelTimer k)) w"
  by (simp add: cancel_timer_def run_in_loop_def cancel_task_def)

text \<open>
  Cancelling works from the thread that asked for the timer: when any thread calls \<open>run_at\<close> and
  then \<open>cancel_timer\<close> with the id it got, then after the loop has run its functors the timer is not
  stored, and no other timer is affected.
\<close>

theorem cancel_after_run_at:
  assumes "tq_inv (timer_queue (loops w i))" "pending_functors (loops w i) = []"
    "run_at i t cb w = (k, w1)"
    "w2 = do_pending_functors run i ((cancel_timer i k w1)\<lparr>this_thread := owner_tid (loops w i)\<rparr>)"
  shows "live (timer_queue (loops w2 i)) = live (timer_queue (loops w i))"
proof -
  obtain q where a: "alloc_timer_id (timer_queue (loops w i)) = (k, q)"
    using assms(3) by (auto simp: run_at_def split: prod.splits)
  note al = alloc_timer_id_frame [OF a]
  have inv: "tq_inv q" using al assms(1) by simp
  let ?e = "\<lparr>expiration = t, timer_id = k, timer_cb = cb\<rparr>"
  have new: "timer_id ?e \<notin> timer_id ` live q" "timer_id ?e < next_id q"
    using al assms(1) by (auto simp: tq_inv_def live_def)
  note ad = tsrv.add_ok [OF inv new, of "steady_now w"]
  then have tq: "live (cancel_in_loop (steady_now w) k (add_timer_in_loop (steady_now w) ?e q)) = live q"
    using tsrv.cancel_ok [of "add_timer_in_loop (steady_now w) ?e q" "steady_now w" k] new(1) by auto
  have "timer_queue (loops w2 i) = cancel_in_loop (steady_now w) k (add_timer_in_loop (steady_now w) ?e q)"
  proof (cases "in_loop_thread i w")
    case True
    have w1: "w1 = on_loop i (\<lambda>l. l\<lparr>timer_queue := add_timer_in_loop (steady_now w) ?e q\<rparr>) w"
      using assms(3) unfolding run_at_eq [OF a] by (simp add: True)
    then have "in_loop_thread i w1" using True by simp
    then show ?thesis
      using assms(2) True unfolding assms(4) cancel_timer_eq
      by (subst do_pending_functors_timers) (auto simp: in_loop_thread_def w1)
  next
    case False
    have w1: "w1 = on_loop i (\<lambda>l. queue_in_loop (this_thread w) (AddTimer t k cb) (l\<lparr>timer_queue := q\<rparr>)) w"
      using assms(3) unfolding run_at_eq [OF a] by (simp add: False)
    then have "\<not> in_loop_thread i w1" using False by simp
    then show ?thesis
      using assms(2) unfolding assms(4) cancel_timer_eq
      by (subst do_pending_functors_timers) (auto simp: in_loop_thread_def w1)
  qed
  with tq al show ?thesis by simp
qed

definition sample_world :: "nat \<Rightarrow> nat task world" where
  "sample_world t = \<lparr>loops = (\<lambda>_. new_event_loop 1 5 6 []), this_thread = t, steady_now = 100\<rparr>"

theorem cancel_after_run_at_witness:
  "timers (timer_queue (loops (do_pending_functors (\<lambda>_ w. w) 0
      ((cancel_timer 0 1 (snd (run_at 0 150 None (sample_world 2))))\<lparr>this_thread := 1\<rparr>)) 0)) = []"
proof -
  have r: "run_at 0 150 None (sample_world 2) = (1, snd (run_at 0 150 None (sample_world 2)))"
    using run_at_eq [of "sample_world 2" 0 1] by (simp add: sample_world_def new_event_loop_def channel_ops update_channel_def
        epoll_add_def ctl_fault_def new_channel_def Let_def alloc_timer_id_def new_timer_queue_def)
  have q: "timer_queue (loops (sample_world 2) 0) = new_timer_queue" "pending_functors (loops (sample_world 2) 0) = []"
    "owner_tid (loops (sample_world 2) 0) = 1"
    by (simp_all add: sample_world_def new_event_loop_def channel_ops update_channel_def epoll_add_def ctl_fault_def new_channel_def Let_def)
  show ?thesis
    using cancel_after_run_at [OF _ _ r refl, where run = "\<lambda>_ w. w"] by (simp add: q) (simp add: live_def)
qed

text \<open>
  Cancelling from the loop thread does not wait for an add that another thread has queued: after
  the functors have run the timer is stored, although \<open>cancel_timer\<close> was called with its id after
  \<open>run_at\<close> had returned that id. The comment in \<open>run_at\<close> claims that the cancellation is always
  executed after the addition.
\<close>

theorem cancel_overtakes_add:
  assumes "tq_inv (timer_queue (loops w i))" "pending_functors (loops w i) = []" "\<not> in_loop_thread i w"
    "run_at i t cb w = (k, w1)"
    "w2 = do_pending_functors run i (cancel_timer i k (w1\<lparr>this_thread := owner_tid (loops w i)\<rparr>))"
  shows "\<lparr>expiration = t, timer_id = k, timer_cb = cb\<rparr> \<in> live (timer_queue (loops w2 i))"
proof -
  obtain q where a: "alloc_timer_id (timer_queue (loops w i)) = (k, q)"
    using assms(4) by (auto simp: run_at_def split: prod.splits)
  note al = alloc_timer_id_frame [OF a]
  let ?e = "\<lparr>expiration = t, timer_id = k, timer_cb = cb\<rparr>"
  have inv: "tq_inv q" using al assms(1) by simp
  have new: "timer_id ?e \<notin> timer_id ` live q" "timer_id ?e < next_id q"
    using al assms(1) by (auto simp: tq_inv_def live_def)
  note c = tsrv.cancel_ok [OF inv, of "steady_now w" k]
  have w1: "w1 = on_loop i (\<lambda>l. queue_in_loop (this_thread w) (AddTimer t k cb) (l\<lparr>timer_queue := q\<rparr>)) w"
    using assms(3,4) unfolding run_at_eq [OF a] by simp
  have "timer_queue (loops w2 i) = add_timer_in_loop (steady_now w) ?e (cancel_in_loop (steady_now w) k q)"
    using assms(2) unfolding assms(5) cancel_timer_eq
    by (subst do_pending_functors_timers) (auto simp: in_loop_thread_def w1)
  moreover have "timer_id ?e \<notin> timer_id ` live (cancel_in_loop (steady_now w) k q)" "timer_id ?e < next_id (cancel_in_loop (steady_now w) k q)"
    using c new by auto
  ultimately show ?thesis using c tsrv.add_ok [of "cancel_in_loop (steady_now w) k q" ?e "steady_now w"] by simp
qed

theorem cancel_overtakes_add_witness:
  "timer_id ` live (timer_queue (loops (do_pending_functors (\<lambda>_ w. w) 0
      (cancel_timer 0 1 ((snd (run_at 0 150 None (sample_world 2)))\<lparr>this_thread := 1\<rparr>))) 0)) \<noteq> {}"
proof -
  have q: "timer_queue (loops (sample_world 2) 0) = new_timer_queue" "pending_functors (loops (sample_world 2) 0) = []"
    "owner_tid (loops (sample_world 2) 0) = 1" "this_thread (sample_world 2) = 2"
    by (simp_all add: sample_world_def new_event_loop_def channel_ops update_channel_def epoll_add_def ctl_fault_def new_channel_def Let_def)
  then have r: "run_at 0 150 None (sample_world 2) = (1, snd (run_at 0 150 None (sample_world 2)))"
    using run_at_eq [of "sample_world 2" 0 1] by (simp add: alloc_timer_id_def new_timer_queue_def)
  show ?thesis
    using cancel_overtakes_add [OF _ _ _ r refl, where run = "\<lambda>_ w. w"] q
    by (auto simp: in_loop_thread_def)
qed

end
