(* ===== verification/Connection.thy ===== *)
theory Connection
  imports Loop_Histories Buffer
begin

text \<open>
  \<open>src/src/connection.h\<close> and \<open>connection.cpp\<close>: one TCP connection.

  Connections live in a store of the world, addressed by a number that stands for the object. The
  socket behind a connection is scripted: the results the kernel will give to \<open>read\<close> and \<open>write\<close>, in
  order, with \<open>EAGAIN\<close> when the script is used up. What the kernel has accepted is kept in \<open>wire\<close>.
  Calls on a closed descriptor fail with \<open>EBADF\<close> and are counted. \<open>SIGPIPE\<close> is ignored, as in every
  program of the repository, so a write after \<open>SHUT_WR\<close> fails with \<open>EPIPE\<close>.

  The four callbacks are parameters; a connection records which of them it has been given. The
  lambdas it hands to its loop are the constructors of \<open>conn_task\<close>.
\<close>

section \<open>State\<close>

datatype conn_state = kConnected | kDisconnecting | kDisconnected

text \<open>\<open>RBytes []\<close> is a \<open>read\<close> that returns 0, the end of the stream.\<close>

datatype rd_result = RBytes bytes | RIntr | RErr

datatype wr_result = WCount nat | WIntr | WAgain | WErr

record sock =
  rd_script :: "rd_result list"
  wr_script :: "wr_result list"
  wire :: bytes
  shut_wr :: bool
  sk_closed :: bool
  bad_io :: nat

record 'x conn =
  cn_loop :: nat
  cn_fd :: int
  cn_peer :: string
  cn_state :: conn_state
  cn_channel :: channel
  input_buffer :: buffer
  output_buffer :: buffer
  has_message_cb :: bool
  has_close_cb :: bool
  has_high_water_cb :: bool
  has_write_complete_cb :: bool
  high_water_mark :: nat
  shutdown_pending :: bool
  cn_context :: "'x option"
  cn_alive :: bool
  sk :: sock

datatype 'v conn_task = ShutdownInLoop nat | HighWater nat | WriteComplete nat | ForceClose nat | App 'v

record ('v, 'x) conn_world = "'v conn_task task world" +
  conns :: "nat \<Rightarrow> 'x conn"

record 'w conn_cbs =
  message_cb :: "nat \<Rightarrow> 'w \<Rightarrow> 'w"
  close_cb :: "nat \<Rightarrow> 'w \<Rightarrow> 'w"
  high_water_cb :: "nat \<Rightarrow> 'w \<Rightarrow> 'w"
  write_complete_cb :: "nat \<Rightarrow> 'w \<Rightarrow> 'w"

definition on_conn :: "nat \<Rightarrow> ('x conn \<Rightarrow> 'x conn) \<Rightarrow> ('v, 'x, 'z) conn_world_scheme \<Rightarrow> ('v, 'x, 'z) conn_world_scheme" where
  "on_conn c f w = w\<lparr>conns := (conns w)(c := f (conns w c))\<rparr>"

abbreviation loop_of :: "nat \<Rightarrow> ('v, 'x, 'z) conn_world_scheme \<Rightarrow> nat" where
  "loop_of c w \<equiv> cn_loop (conns w c)"

definition new_connection :: "nat \<Rightarrow> int \<Rightarrow> string \<Rightarrow> rd_result list \<Rightarrow> wr_result list \<Rightarrow> 'x conn" where
  "new_connection i fd peer rs ws =
     \<lparr>cn_loop = i, cn_fd = fd, cn_peer = peer, cn_state = kConnected, cn_channel = new_channel fd,
      input_buffer = new_buffer, output_buffer = new_buffer, has_message_cb = False, has_close_cb = False,
      has_high_water_cb = False, has_write_complete_cb = False, high_water_mark = 0,
      shutdown_pending = False, cn_context = None, cn_alive = True,
      sk = \<lparr>rd_script = rs, wr_script = ws, wire = [], shut_wr = False, sk_closed = False, bad_io = 0\<rparr>\<rparr>"

definition connected :: "nat \<Rightarrow> ('v, 'x, 'z) conn_world_scheme \<Rightarrow> bool" where
  "connected c w \<longleftrightarrow> cn_state (conns w c) = kConnected"

definition set_high_water_mark_callback :: "nat \<Rightarrow> 'x conn \<Rightarrow> 'x conn" where
  "set_high_water_mark_callback mark cn = cn\<lparr>high_water_mark := mark, has_high_water_cb := True\<rparr>"

section \<open>System calls\<close>

definition sys_read :: "nat \<Rightarrow> sock \<Rightarrow> rd_result option \<times> sock" where
  "sys_read room s =
     (if sk_closed s then (Some RErr, s\<lparr>bad_io := bad_io s + 1\<rparr>)
      else case rd_script s of
             [] \<Rightarrow> (None, s)
           | RBytes bs # rs \<Rightarrow>
               (Some (RBytes (take room bs)),
                s\<lparr>rd_script := (if length bs \<le> room then rs else RBytes (drop room bs) # rs)\<rparr>)
           | r # rs \<Rightarrow> (Some r, s\<lparr>rd_script := rs\<rparr>))"

text \<open>A \<open>write\<close> of \<open>data\<close>; \<open>WCount n\<close> is the number of bytes the kernel took.\<close>

definition sys_write :: "bytes \<Rightarrow> sock \<Rightarrow> wr_result \<times> sock" where
  "sys_write data s =
     (if sk_closed s then (WErr, s\<lparr>bad_io := bad_io s + 1\<rparr>)
      else if shut_wr s then (WErr, s)
      else case wr_script s of
             [] \<Rightarrow> (WAgain, s)
           | WCount k # ws \<Rightarrow>
               let n = min k (length data)
               in (WCount n, s\<lparr>wr_script := ws, wire := wire s @ take n data\<rparr>)
           | r # ws \<Rightarrow> (r, s\<lparr>wr_script := ws\<rparr>))"

definition sys_shutdown_wr :: "sock \<Rightarrow> sock" where
  "sys_shutdown_wr s = (if sk_closed s then s\<lparr>bad_io := bad_io s + 1\<rparr> else s\<lparr>shut_wr := True\<rparr>)"

section \<open>The loops\<close>

datatype io_outcome = Drained | EndOfStream | IoError

fun script_weight :: "rd_result list \<Rightarrow> nat" where
  "script_weight [] = 0"
| "script_weight (RBytes bs # rs) = Suc (length bs) + script_weight rs"
| "script_weight (_ # rs) = Suc (script_weight rs)"

text \<open>The loop of \<open>handle_read\<close>.\<close>

function read_loop :: "buffer \<Rightarrow> sock \<Rightarrow> io_outcome \<times> buffer \<times> sock" where
  "read_loop b s =
     (let b1 = ensure_writable b 4096
      in case sys_read (writable_bytes b1) s of
           (None, s1) \<Rightarrow> (Drained, b1, s1)
         | (Some (RBytes bs), s1) \<Rightarrow>
             if bs = [] then (EndOfStream, b1, s1)
             else read_loop (has_written (store_at_writer b1 bs) (length bs)) s1
         | (Some RIntr, s1) \<Rightarrow> read_loop b1 s1
         | (Some RErr, s1) \<Rightarrow> (IoError, b1, s1))"
  by pat_completeness auto

lemma sys_read_weight:
  "(Some (RBytes bs), s1) = sys_read room s \<Longrightarrow> bs \<noteq> [] \<Longrightarrow> script_weight (rd_script s1) < script_weight (rd_script s)"
  "(Some RIntr, s1) = sys_read room s \<Longrightarrow> script_weight (rd_script s1) < script_weight (rd_script s)"
  by (auto simp: sys_read_def split: if_splits list.splits rd_result.splits)

termination read_loop
  by (relation "measure (\<lambda>(b, s). script_weight (rd_script s))")
    (auto dest: sys_read_weight)

declare read_loop.simps [simp del]

text \<open>The loop of \<open>handle_write\<close>, on the output buffer; \<open>EndOfStream\<close> means the buffer is empty.\<close>

function write_loop :: "buffer \<Rightarrow> sock \<Rightarrow> io_outcome \<times> buffer \<times> sock" where
  "write_loop b s =
     (if buf_empty b then (EndOfStream, b, s)
      else case sys_write (readable_view b) s of
             (WCount n, s1) \<Rightarrow> if n > 0 then write_loop (retrieve b n) s1 else write_loop b s1
           | (WIntr, s1) \<Rightarrow> write_loop b s1
           | (WAgain, s1) \<Rightarrow> (Drained, b, s1)
           | (WErr, s1) \<Rightarrow> (IoError, b, s1))"
  by pat_completeness auto

lemma sys_write_script:
  "(WCount n, s1) = sys_write d s \<Longrightarrow> length (wr_script s1) < length (wr_script s)"
  "(WIntr, s1) = sys_write d s \<Longrightarrow> length (wr_script s1) < length (wr_script s)"
  by (auto simp: sys_write_def Let_def split: if_splits list.splits wr_result.splits)

termination write_loop
  by (relation "measure (\<lambda>(b, s). length (wr_script s))") (auto dest: sys_write_script)

declare write_loop.simps [simp del]

text \<open>The fast path of \<open>send\<close>: the bytes that remain.\<close>

function send_loop :: "bytes \<Rightarrow> sock \<Rightarrow> io_outcome \<times> bytes \<times> sock" where
  "send_loop data s =
     (if data = [] then (EndOfStream, data, s)
      else case sys_write data s of
             (WCount n, s1) \<Rightarrow> if n > 0 then send_loop (drop n data) s1 else send_loop data s1
           | (WIntr, s1) \<Rightarrow> send_loop data s1
           | (WAgain, s1) \<Rightarrow> (Drained, data, s1)
           | (WErr, s1) \<Rightarrow> (IoError, data, s1))"
  by pat_completeness auto

termination send_loop
  by (relation "measure (\<lambda>(d, s). length (wr_script s))") (auto dest: sys_write_script)

declare send_loop.simps [simp del]

section \<open>Operations\<close>

text \<open>\<open>close\<close> and \<open>send\<close> are given the close callback, the event handlers all four callbacks.\<close>

definition with_channel :: "nat
    \<Rightarrow> (nat \<Rightarrow> channel \<Rightarrow> 'v conn_task task event_loop \<Rightarrow> channel \<times> 'v conn_task task event_loop)
    \<Rightarrow> ('v, 'x, 'z) conn_world_scheme \<Rightarrow> ('v, 'x, 'z) conn_world_scheme" where
  "with_channel c op w =
     (let (ch, l) = op (this_thread w) (cn_channel (conns w c)) (loops w (loop_of c w))
      in on_conn c (\<lambda>cn. cn\<lparr>cn_channel := ch\<rparr>) (on_loop (loop_of c w) (\<lambda>_. l) w))"

definition conn_start :: "nat \<Rightarrow> ('v, 'x, 'z) conn_world_scheme \<Rightarrow> ('v, 'x, 'z) conn_world_scheme" where
  "conn_start c w =
     (if \<not> in_loop_thread (loop_of c w) w then loop_abort (loop_of c w) w
      else with_channel c enable_reading (on_conn c (\<lambda>cn. cn\<lparr>cn_channel := tie (cn_channel cn)\<rparr>) w))"

text \<open>The middle of \<open>close\<close>, and of the destructor: off the loop, then \<open>::close\<close>.\<close>

definition conn_release :: "nat \<Rightarrow> ('v, 'x, 'z) conn_world_scheme \<Rightarrow> ('v, 'x, 'z) conn_world_scheme" where
  "conn_release c w =
     (let w1 = with_channel c remove_channel (with_channel c disable_all w)
      in if cn_fd (conns w1 c) \<ge> 0
         then on_loop (loop_of c w1) (fd_close (cn_fd (conns w1 c)))
                (on_conn c (\<lambda>cn. cn\<lparr>sk := (sk cn)\<lparr>sk_closed := True\<rparr>\<rparr>) w1)
         else w1)"

definition conn_close :: "(nat \<Rightarrow> ('v, 'x, 'z) conn_world_scheme \<Rightarrow> ('v, 'x, 'z) conn_world_scheme) \<Rightarrow> nat
    \<Rightarrow> ('v, 'x, 'z) conn_world_scheme \<Rightarrow> ('v, 'x, 'z) conn_world_scheme" where
  "conn_close clcb c w =
     (if cn_state (conns w c) = kDisconnected then w
      else let w1 = conn_release c (on_conn c (\<lambda>cn. cn\<lparr>cn_state := kDisconnected\<rparr>) w)
           in if has_close_cb (conns w1 c) then clcb c w1 else w1)"

text \<open>The destructor closes a descriptor that was never closed.\<close>

definition conn_destroy :: "nat \<Rightarrow> ('v, 'x, 'z) conn_world_scheme \<Rightarrow> ('v, 'x, 'z) conn_world_scheme" where
  "conn_destroy c w =
     (let w1 = (if cn_state (conns w c) \<noteq> kDisconnected \<and> cn_fd (conns w c) \<ge> 0
                then on_conn c (\<lambda>cn. cn\<lparr>cn_fd := -1\<rparr>) (conn_release c w) else w)
      in on_conn c (\<lambda>cn. cn\<lparr>cn_alive := False\<rparr>) w1)"

text \<open>The message callback is called only if it is set and there is something to read.\<close>

definition deliver :: "('v, 'x, 'z) conn_world_scheme conn_cbs \<Rightarrow> nat
    \<Rightarrow> ('v, 'x, 'z) conn_world_scheme \<Rightarrow> ('v, 'x, 'z) conn_world_scheme" where
  "deliver cbs c w =
     (if has_message_cb (conns w c) \<and> readable_bytes (input_buffer (conns w c)) > 0 then message_cb cbs c w else w)"

definition conn_handle_read :: "('v, 'x, 'z) conn_world_scheme conn_cbs \<Rightarrow> nat
    \<Rightarrow> ('v, 'x, 'z) conn_world_scheme \<Rightarrow> ('v, 'x, 'z) conn_world_scheme" where
  "conn_handle_read cbs c w =
     (let (r, b, s) = read_loop (input_buffer (conns w c)) (sk (conns w c));
          w1 = on_conn c (\<lambda>cn. cn\<lparr>input_buffer := b, sk := s\<rparr>) w
      in case r of
           EndOfStream \<Rightarrow> conn_close (close_cb cbs) c (deliver cbs c w1)
         | IoError \<Rightarrow> conn_close (close_cb cbs) c w1
         | Drained \<Rightarrow> deliver cbs c w1)"

definition conn_handle_write :: "('v, 'x, 'z) conn_world_scheme conn_cbs \<Rightarrow> nat
    \<Rightarrow> ('v, 'x, 'z) conn_world_scheme \<Rightarrow> ('v, 'x, 'z) conn_world_scheme" where
  "conn_handle_write cbs c w =
     (if buf_empty (output_buffer (conns w c))
      then if is_writing (cn_channel (conns w c)) then with_channel c disable_writing w else w
      else let (r, b, s) = write_loop (output_buffer (conns w c)) (sk (conns w c));
               w1 = on_conn c (\<lambda>cn. cn\<lparr>output_buffer := b, sk := s\<rparr>) w
           in case r of
                Drained \<Rightarrow> w1
              | IoError \<Rightarrow> conn_close (close_cb cbs) c w1
              | EndOfStream \<Rightarrow>
                  let w2 = (if is_writing (cn_channel (conns w1 c)) then with_channel c disable_writing w1 else w1);
                      w3 = (if shutdown_pending (conns w2 c)
                            then on_conn c (\<lambda>cn. cn\<lparr>shutdown_pending := False, sk := sys_shutdown_wr (sk cn)\<rparr>) w2
                            else w2)
                  in if has_write_complete_cb (conns w3 c)
                     then on_loop (loop_of c w3) (queue_in_loop (this_thread w3) (Task (WriteComplete c))) w3
                     else w3)"

text \<open>The end of \<open>send\<close>: what could not be written goes to the output buffer.\<close>

definition send_rest :: "nat \<Rightarrow> bytes \<Rightarrow> ('v, 'x, 'z) conn_world_scheme \<Rightarrow> ('v, 'x, 'z) conn_world_scheme" where
  "send_rest c rest w =
     (if rest = [] then w
      else let old_len = readable_bytes (output_buffer (conns w c));
               w1 = on_conn c (\<lambda>cn. cn\<lparr>output_buffer := buf_append (output_buffer cn) rest\<rparr>) w;
               new_len = readable_bytes (output_buffer (conns w1 c));
               w2 = (if high_water_mark (conns w1 c) > 0 \<and> has_high_water_cb (conns w1 c)
                        \<and> old_len < high_water_mark (conns w1 c) \<and> new_len \<ge> high_water_mark (conns w1 c)
                     then on_loop (loop_of c w1) (queue_in_loop (this_thread w1) (Task (HighWater c))) w1
                     else w1)
           in if \<not> is_writing (cn_channel (conns w2 c)) then with_channel c enable_writing w2 else w2)"

definition conn_send :: "(nat \<Rightarrow> ('v, 'x, 'z) conn_world_scheme \<Rightarrow> ('v, 'x, 'z) conn_world_scheme) \<Rightarrow> nat \<Rightarrow> bytes
    \<Rightarrow> ('v, 'x, 'z) conn_world_scheme \<Rightarrow> ('v, 'x, 'z) conn_world_scheme" where
  "conn_send clcb c data w =
     (if cn_state (conns w c) \<noteq> kConnected \<or> data = [] then w
      else if buf_empty (output_buffer (conns w c))
      then let (r, rest, s) = send_loop data (sk (conns w c));
               w1 = on_conn c (\<lambda>cn. cn\<lparr>sk := s\<rparr>) w
           in if r = IoError then conn_close clcb c w1 else send_rest c rest w1
      else send_rest c data w)"

definition shutdown_in_loop :: "nat \<Rightarrow> ('v, 'x, 'z) conn_world_scheme \<Rightarrow> ('v, 'x, 'z) conn_world_scheme" where
  "shutdown_in_loop c w =
     (if \<not> in_loop_thread (loop_of c w) w then loop_abort (loop_of c w) w
      else if cn_state (conns w c) = kDisconnected then w
      else if buf_empty (output_buffer (conns w c))
      then on_conn c (\<lambda>cn. cn\<lparr>sk := sys_shutdown_wr (sk cn)\<rparr>) w
      else on_conn c (\<lambda>cn. cn\<lparr>shutdown_pending := True\<rparr>) w)"

definition conn_shutdown :: "nat \<Rightarrow> ('v, 'x, 'z) conn_world_scheme \<Rightarrow> ('v, 'x, 'z) conn_world_scheme" where
  "conn_shutdown c w =
     (if cn_state (conns w c) = kConnected
      then run_in_loop (loop_of c w) (Task (ShutdownInLoop c)) (shutdown_in_loop c)
             (on_conn c (\<lambda>cn. cn\<lparr>cn_state := kDisconnecting\<rparr>) w)
      else w)"

definition force_close_with_delay :: "nat \<Rightarrow> int \<Rightarrow> ('v, 'x, 'z) conn_world_scheme \<Rightarrow> ('v, 'x, 'z) conn_world_scheme" where
  "force_close_with_delay c delay_ms w =
     (if cn_state (conns w c) = kDisconnected then w
      else snd (run_after (loop_of c w) delay_ms (Some (Task (ForceClose c))) w))"

text \<open>What the lambdas a connection hands to its loop do, and what its channel calls.\<close>

fun run_conn_task :: "('v, 'x, 'z) conn_world_scheme conn_cbs \<Rightarrow> ('v \<Rightarrow> ('v, 'x, 'z) conn_world_scheme \<Rightarrow> ('v, 'x, 'z) conn_world_scheme)
    \<Rightarrow> 'v conn_task \<Rightarrow> ('v, 'x, 'z) conn_world_scheme \<Rightarrow> ('v, 'x, 'z) conn_world_scheme" where
  "run_conn_task cbs app (ShutdownInLoop c) w = shutdown_in_loop c w"
| "run_conn_task cbs app (HighWater c) w = high_water_cb cbs c w"
| "run_conn_task cbs app (WriteComplete c) w = write_complete_cb cbs c w"
| "run_conn_task cbs app (ForceClose c) w = (if cn_alive (conns w c) then conn_close (close_cb cbs) c w else w)"
| "run_conn_task cbs app (App v) w = app v w"

fun conn_channel_cbs :: "('v, 'x, 'z) conn_world_scheme conn_cbs \<Rightarrow> nat \<Rightarrow> cb_kind
    \<Rightarrow> (('v, 'x, 'z) conn_world_scheme \<Rightarrow> ('v, 'x, 'z) conn_world_scheme) option" where
  "conn_channel_cbs cbs c ReadCb = Some (conn_handle_read cbs c)"
| "conn_channel_cbs cbs c WriteCb = Some (conn_handle_write cbs c)"
| "conn_channel_cbs cbs c CloseCb = Some (conn_close (close_cb cbs) c)"
| "conn_channel_cbs cbs c ErrorCb = Some (conn_close (close_cb cbs) c)"

definition conn_event :: "('v, 'x, 'z) conn_world_scheme conn_cbs \<Rightarrow> nat \<Rightarrow> u32
    \<Rightarrow> ('v, 'x, 'z) conn_world_scheme \<Rightarrow> ('v, 'x, 'z) conn_world_scheme" where
  "conn_event cbs c revents w =
     handle_event (cn_channel (conns w c)) (cn_alive (conns w c)) (conn_channel_cbs cbs c) revents w"

end
