(* ===== verification/Connection_Props.thy ===== *)
theory Connection_Props
  imports Connection "HOL-Library.Sublist"
begin

text \<open>
  What a connection promises: its invariant, that the bytes given to \<open>send\<close> reach the wire in order
  and unchanged, back pressure, orderly half-close and close.
\<close>

section \<open>The loops\<close>

lemma sys_write_count:
  assumes "sys_write data s = (WCount n, s1)"
  shows "n \<le> length data" "wire s1 = wire s @ take n data" "shut_wr s1 = shut_wr s" "sk_closed s1 = sk_closed s"
    "rd_script s1 = rd_script s" "bad_io s1 = bad_io s" "\<not> sk_closed s" "\<not> shut_wr s"
  using assms by (auto simp: sys_write_def Let_def split: if_splits list.splits wr_result.splits)

lemma sys_write_frame:
  assumes "sys_write data s = (r, s1)" "\<forall>n. r \<noteq> WCount n"
  shows "wire s1 = wire s" "shut_wr s1 = shut_wr s" "sk_closed s1 = sk_closed s" "rd_script s1 = rd_script s"
    "sk_closed s \<or> shut_wr s \<Longrightarrow> r = WErr"
  using assms by (auto simp: sys_write_def Let_def split: if_splits list.splits wr_result.splits)

lemma send_loop_spec:
  "send_loop data s = (r, rest, s') \<Longrightarrow>
    wire s' @ rest = wire s @ data \<and> prefix (wire s) (wire s') \<and> shut_wr s' = shut_wr s \<and> sk_closed s' = sk_closed s
    \<and> rd_script s' = rd_script s \<and> (r = EndOfStream \<longleftrightarrow> rest = [])
    \<and> (data \<noteq> [] \<and> (sk_closed s \<or> shut_wr s) \<longrightarrow> r = IoError)"
proof (induction data s rule: send_loop.induct)
  case (1 data s)
  obtain o1 s1 where w: "sys_write data s = (o1, s1)" by fastforce
  show ?case
  proof (cases "data = []")
    case False
    show ?thesis
    proof (cases o1)
      case (WCount n)
      note c = sys_write_count [OF w [unfolded WCount]]
      have "prefix (wire s) (wire s')" if "prefix (wire s1) (wire s')"
        using c(2) that by (metis append_prefixD)
      with 1 False w c WCount show ?thesis by (cases "n > 0") (auto simp: send_loop.simps [of data s])
    next
      case WIntr
      with 1 False w show ?thesis
        using sys_write_frame [OF w] by (simp add: send_loop.simps [of data s])
    next
      case WAgain
      with 1 False w show ?thesis
        using sys_write_frame [OF w] by (auto simp: send_loop.simps [of data s])
    next
      case WErr
      with 1 False w show ?thesis
        using sys_write_frame [OF w] by (auto simp: send_loop.simps [of data s])
    qed
  qed (use 1 in \<open>auto simp: send_loop.simps [of "[]" s]\<close>)
qed

text \<open>The loop over the output buffer is the loop over its contents.\<close>

lemma write_loop_send_loop:
  "buffer_inv b \<Longrightarrow> write_loop b s = (r, b', s') \<Longrightarrow>
     buffer_inv b' \<and> send_loop (readable_view b) s = (r, readable_view b', s')"
proof (induction b s rule: write_loop.induct)
  case (1 b s)
  obtain o1 s1 where w: "sys_write (readable_view b) s = (o1, s1)" by fastforce
  show ?case
  proof (cases "readable_view b = []")
    case True
    then show ?thesis
      using "1.prems" by (simp add: write_loop.simps [of b s] send_loop.simps [of "[]"] buf_empty_view)
  next
    case False
    then have ne: "\<not> buf_empty b" using "1.prems" by (simp add: buf_empty_view)
    show ?thesis
    proof (cases o1)
      case (WCount n)
      then show ?thesis
        using 1 False w ne sys_write_count(1) [of "readable_view b" s n s1]
        by (cases "n > 0")
          (simp_all add: write_loop.simps [of b s] send_loop.simps [of "readable_view b" s] retrieve_inv readable_view_retrieve)
    next
      case WIntr
      then show ?thesis
        using 1 False w ne by (simp add: write_loop.simps [of b s] send_loop.simps [of "readable_view b" s])
    qed (use 1 False w ne in \<open>auto simp: write_loop.simps [of b s] send_loop.simps [of "readable_view b'" s]\<close>)
  qed
qed

fun arriving :: "rd_result list \<Rightarrow> bytes" where
  "arriving [] = []"
| "arriving (RBytes bs # rs) = bs @ arriving rs"
| "arriving (_ # rs) = arriving rs"

lemma sys_read_bytes:
  assumes "sys_read room s = (r, s1)"
  shows "(case r of Some (RBytes bs) \<Rightarrow> bs | _ \<Rightarrow> []) @ arriving (rd_script s1) = arriving (rd_script s)"
    "wire s1 = wire s" "shut_wr s1 = shut_wr s" "sk_closed s1 = sk_closed s" "wr_script s1 = wr_script s"
    "r = Some (RBytes bs) \<Longrightarrow> length bs \<le> room" "r = None \<Longrightarrow> rd_script s1 = [] \<and> \<not> sk_closed s"
  using assms by (auto simp: sys_read_def split: if_splits list.splits rd_result.splits)

lemma read_loop_spec:
  "buffer_inv b \<Longrightarrow> read_loop b s = (r, b', s') \<Longrightarrow>
     buffer_inv b' \<and> readable_view b' @ arriving (rd_script s') = readable_view b @ arriving (rd_script s)
     \<and> prefix (readable_view b) (readable_view b')
     \<and> wire s' = wire s \<and> shut_wr s' = shut_wr s \<and> sk_closed s' = sk_closed s \<and> wr_script s' = wr_script s
     \<and> (r = Drained \<longrightarrow> rd_script s' = [])"
proof (induction b s rule: read_loop.induct)
  case (1 b s)
  let ?b1 = "ensure_writable b 4096"
  obtain o1 s1 where w: "sys_read (writable_bytes ?b1) s = (o1, s1)" by fastforce
  note f = sys_read_bytes [OF w] and
    e = ensure_writable_inv [OF "1.prems"(1), of 4096] readable_view_ensure_writable [OF "1.prems"(1), of 4096]
  show ?case
  proof (cases o1)
    case None
    then show ?thesis using 1 w f e by (auto simp: read_loop.simps [of b s] Let_def)
  next
    case (Some x)
    show ?thesis
    proof (cases x)
      case (RBytes bs)
      show ?thesis
      proof (cases "bs = []")
        case True
        then show ?thesis using 1 w f e Some RBytes by (auto simp: read_loop.simps [of b s] Let_def)
      next
        case False
        let ?b2 = "has_written (store_at_writer ?b1 bs) (length bs)"
        have len: "length bs \<le> writable_bytes ?b1" using f(6) Some RBytes by simp
        have b2: "buffer_inv ?b2" "readable_view ?b2 = readable_view b @ bs"
          using fill_inv [OF e(1) len] readable_view_fill [OF e(1) len] e(2) by simp_all
        have r: "read_loop ?b2 s1 = (r, b', s')"
          using "1.prems"(2) w Some RBytes False by (simp add: read_loop.simps [of b s] Let_def)
        have "prefix (readable_view b) (readable_view b')" if "prefix (readable_view ?b2) (readable_view b')"
          using that b2(2) by (auto simp: prefix_def)
        with "1.IH"(1) [OF refl, of o1 s1 x bs] w Some RBytes False b2 r f show ?thesis
          by (simp add: w)
      qed
    next
      case RIntr
      then show ?thesis
        using 1 w f e Some by (simp add: read_loop.simps [of b s] Let_def)
    next
      case RErr
      then show ?thesis using 1 w f e Some by (auto simp: read_loop.simps [of b s] Let_def)
    qed
  qed
qed

section \<open>Invariant\<close>

text \<open>
  The invariant of a connection on its own loop thread. \<open>EPOLLOUT\<close> is requested exactly while there is
  output; a pending half-close waits for output; the write side is shut only when all output is out.
\<close>

definition conn_ok :: "nat \<Rightarrow> ('v, 'x, 'z) conn_world_scheme \<Rightarrow> bool" where
  "conn_ok c w \<longleftrightarrow>
     (let cn = conns w c; ch = cn_channel cn; l = loops w (cn_loop cn); empty = (readable_view (output_buffer cn) = [])
      in buffer_inv (input_buffer cn) \<and> buffer_inv (output_buffer cn) \<and> 0 \<le> cn_fd cn \<and> ch_fd ch = cn_fd cn
         \<and> owner_tid l = this_thread w
         \<and> (cn_state cn = kDisconnected \<longleftrightarrow> sk_closed (sk cn))
         \<and> (cn_state cn = kDisconnected \<longrightarrow> \<not> is_writing ch)
         \<and> (cn_state cn \<noteq> kDisconnected \<longrightarrow> registered ch l \<and> (is_writing ch \<longleftrightarrow> \<not> empty)
              \<and> (shutdown_pending cn \<longrightarrow> cn_state cn = kDisconnecting \<and> \<not> empty)
              \<and> (shut_wr (sk cn) \<longrightarrow> cn_state cn = kDisconnecting \<and> empty)))"

text \<open>All bytes accepted for sending, in order: those the kernel has, then those in the buffer.\<close>

definition stream :: "nat \<Rightarrow> ('v, 'x, 'z) conn_world_scheme \<Rightarrow> bytes" where
  "stream c w = wire (sk (conns w c)) @ readable_view (output_buffer (conns w c))"

definition is_open :: "nat \<Rightarrow> ('v, 'x, 'z) conn_world_scheme \<Rightarrow> bool" where
  "is_open c w \<longleftrightarrow> cn_state (conns w c) \<noteq> kDisconnected"

text \<open>
  A step of a connection: the invariant holds afterwards; bytes on the wire stay; a closed connection
  is not reopened; as long as it is open no accepted byte is lost, reordered or repeated.
\<close>

definition conn_adv :: "nat \<Rightarrow> ('v, 'x, 'z) conn_world_scheme \<Rightarrow> ('v, 'x, 'z) conn_world_scheme \<Rightarrow> bool" where
  "conn_adv c w w' \<longleftrightarrow> conn_ok c w' \<and> loop_of c w' = loop_of c w \<and> cn_fd (conns w' c) = cn_fd (conns w c)
     \<and> this_thread w' = this_thread w \<and> prefix (wire (sk (conns w c))) (wire (sk (conns w' c)))
     \<and> (is_open c w' \<longrightarrow> is_open c w \<and> prefix (stream c w) (stream c w'))"

lemma conn_adv_refl: "conn_ok c w \<Longrightarrow> conn_adv c w w"
  by (simp add: conn_adv_def)

lemma conn_adv_trans: "conn_adv c w w1 \<Longrightarrow> conn_adv c w1 w2 \<Longrightarrow> conn_adv c w w2"
  unfolding conn_adv_def by (auto intro: prefix_order.trans)

lemma conn_adv_ok: "conn_adv c w w' \<Longrightarrow> conn_ok c w'"
  by (simp add: conn_adv_def)

lemma conn_adv_fold:
  "(\<And>x w. conn_ok c w \<Longrightarrow> conn_adv c w (f x w)) \<Longrightarrow> conn_ok c w \<Longrightarrow> conn_adv c w (fold f xs w)"
proof (induction xs arbitrary: w)
  case (Cons x xs)
  have a: "conn_adv c w (f x w)" by (rule Cons.prems)+
  from conn_adv_trans [OF a Cons.IH [OF Cons.prems(1) conn_adv_ok [OF a]]] show ?case by simp
qed (simp add: conn_adv_refl)

lemma on_conn_simps [simp]:
  "conns (on_conn c f w) d = (if d = c then f (conns w c) else conns w d)" "loops (on_conn c f w) = loops w"
  "this_thread (on_conn c f w) = this_thread w" "steady_now (on_conn c f w) = steady_now w"
  "in_loop_thread i (on_conn c f w) = in_loop_thread i w"
  by (simp_all add: on_conn_def in_loop_thread_def)

lemma conns_on_loop [simp]: "conns (on_loop i f w) = conns w"
  by (simp add: on_loop_def)

lemma conn_ok_in_loop: "conn_ok c w \<Longrightarrow> in_loop_thread (loop_of c w) w"
  by (simp add: conn_ok_def in_loop_thread_def Let_def)

text \<open>A step that changes only the scripts, the buffers or flags of the connection.\<close>

lemma conn_adv_on_conn:
  assumes "conn_ok c w" "cn' = f (conns w c)"
    "cn_loop cn' = loop_of c w" "cn_fd cn' = cn_fd (conns w c)" "cn_channel cn' = cn_channel (conns w c)"
    "cn_state cn' = cn_state (conns w c)" "sk_closed (sk cn') = sk_closed (sk (conns w c))"
    "buffer_inv (input_buffer cn')" "buffer_inv (output_buffer cn')"
    "prefix (wire (sk (conns w c))) (wire (sk cn'))"
    "is_open c w \<Longrightarrow> prefix (stream c w) (wire (sk cn') @ readable_view (output_buffer cn'))
       \<and> (readable_view (output_buffer cn') = [] \<longleftrightarrow> readable_view (output_buffer (conns w c)) = [])
       \<and> (shutdown_pending cn' \<longrightarrow> cn_state cn' = kDisconnecting \<and> readable_view (output_buffer cn') \<noteq> [])
       \<and> (shut_wr (sk cn') \<longrightarrow> cn_state cn' = kDisconnecting \<and> readable_view (output_buffer cn') = [])"
  shows "conn_adv c w (on_conn c f w)"
  using assms(1,3-11) unfolding conn_adv_def conn_ok_def is_open_def stream_def Let_def on_conn_simps assms(2)
  by auto

lemma with_channel_update:
  assumes "op (this_thread w) (cn_channel (conns w c)) (loops w (loop_of c w)) =
      update_channel (this_thread w) ((cn_channel (conns w c))\<lparr>ch_events := ev\<rparr>) (loops w (loop_of c w))"
    "owner_tid (loops w (loop_of c w)) = this_thread w" "registered (cn_channel (conns w c)) (loops w (loop_of c w))"
    "w' = with_channel c op w"
  shows "\<exists>ch p. conns w' = (conns w)(c := (conns w c)\<lparr>cn_channel := ch\<rparr>) \<and> ch_fd ch = ch_fd (cn_channel (conns w c))
     \<and> ch_events ch = ev \<and> registered ch (loops w' (loop_of c w))
     \<and> loops w' = (loops w)(loop_of c w := (loops w (loop_of c w))\<lparr>ep := p\<rparr>) \<and> this_thread w' = this_thread w
     \<and> steady_now w' = steady_now w"
proof -
  obtain ch l where u: "update_channel (this_thread w) ((cn_channel (conns w c))\<lparr>ch_events := ev\<rparr>) (loops w (loop_of c w)) = (ch, l)"
    by fastforce
  have reg: "registered ((cn_channel (conns w c))\<lparr>ch_events := ev\<rparr>) (loops w (loop_of c w))"
    using assms(3) by (simp add: registered_def)
  note fr = update_channel_frame [OF u] and up = update_channel_registered [OF u assms(2) reg]
  have l: "l = (loops w (loop_of c w))\<lparr>ep := ep l\<rparr>" using fr(7) assms(2) by simp
  have w': "w' = on_conn c (\<lambda>cn. cn\<lparr>cn_channel := ch\<rparr>) (on_loop (loop_of c w) (\<lambda>_. l) w)"
    by (simp add: assms(1,4) with_channel_def u)
  show ?thesis
    using fr up(1) l by (intro exI [of _ ch] exI [of _ "ep l"]) (auto simp: w' on_conn_def on_loop_def)
qed

section \<open>Closing\<close>

lemma conn_release_effect:
  assumes "owner_tid (loops w (loop_of c w)) = this_thread w" "registered (cn_channel (conns w c)) (loops w (loop_of c w))"
    "ch_fd (cn_channel (conns w c)) = cn_fd (conns w c)" "0 \<le> cn_fd (conns w c)"
  shows "\<exists>ch p. conns (conn_release c w) = (conns w)(c := (conns w c)\<lparr>cn_channel := ch, sk := (sk (conns w c))\<lparr>sk_closed := True\<rparr>\<rparr>)
     \<and> ch_fd ch = cn_fd (conns w c) \<and> ch_events ch = 0 \<and> ch_state ch = kDeleted
     \<and> loops (conn_release c w) = (loops w)(loop_of c w := (loops w (loop_of c w))\<lparr>ep := p\<rparr>)
     \<and> interest p (cn_fd (conns w c)) = None \<and> this_thread (conn_release c w) = this_thread w"
proof -
  define w1 where "w1 = with_channel c disable_all w"
  obtain ch p where u: "conns w1 = (conns w)(c := (conns w c)\<lparr>cn_channel := ch\<rparr>)" "ch_fd ch = cn_fd (conns w c)"
    "ch_events ch = 0" "registered ch (loops w1 (loop_of c w))" "this_thread w1 = this_thread w"
    "loops w1 = (loops w)(loop_of c w := (loops w (loop_of c w))\<lparr>ep := p\<rparr>)"
    using with_channel_update [where op = disable_all, OF _ assms(1,2) w1_def, of 0] assms(3) by (auto simp: disable_all_def)
  obtain ch2 l where r: "remove_channel (this_thread w1) ch (loops w1 (loop_of c w)) = (ch2, l)" by fastforce
  have own: "owner_tid (loops w1 (loop_of c w)) = this_thread w1" using u assms(1) by simp
  note rm = remove_channel_registered [OF r own u(4)]
  have w2: "with_channel c remove_channel w1 = on_conn c (\<lambda>cn. cn\<lparr>cn_channel := ch2\<rparr>) (on_loop (loop_of c w) (\<lambda>_. l) w1)"
    using r by (simp add: with_channel_def u)
  have "fd_close fd (L\<lparr>ep := q\<rparr>) = L\<lparr>ep := ep (fd_close fd (L\<lparr>ep := q\<rparr>))\<rparr>" for fd q and L :: "'a conn_task task event_loop"
    by (simp add: fd_close_def)
  moreover have "l = (loops w (loop_of c w))\<lparr>ep := ep l\<rparr>" using rm(5) u(6) by simp
  ultimately have fc: "fd_close (cn_fd (conns w c)) l = (loops w (loop_of c w))\<lparr>ep := ep (fd_close (cn_fd (conns w c)) l)\<rparr>"
    by metis
  have rel: "conn_release c w = on_loop (loop_of c w) (fd_close (cn_fd (conns w c)))
      (on_conn c (\<lambda>cn. cn\<lparr>sk := (sk cn)\<lparr>sk_closed := True\<rparr>\<rparr>) (with_channel c remove_channel w1))"
    using assms(4) by (simp add: conn_release_def w2 Let_def u flip: w1_def)
  show ?thesis
    using rm u fc unfolding rel w2
    by (intro exI [of _ ch2] exI [of _ "ep (fd_close (cn_fd (conns w c)) l)"]) (auto simp: on_loop_def on_conn_def fd_close_def)
qed

lemma conn_close_released:
  assumes "conn_ok c w" "is_open c w" "w1 = conn_release c (on_conn c (\<lambda>cn. cn\<lparr>cn_state := kDisconnected\<rparr>) w)"
  shows "conn_adv c w w1" "cn_state (conns w1 c) = kDisconnected" "ch_state (cn_channel (conns w1 c)) = kDeleted"
    "interest (ep (loops w1 (loop_of c w))) (cn_fd (conns w c)) = None"
    "wire (sk (conns w1 c)) = wire (sk (conns w c))" "has_close_cb (conns w1 c) = has_close_cb (conns w c)"
    "output_buffer (conns w1 c) = output_buffer (conns w c)"
    "\<And>j. pending_functors (loops w1 j) = pending_functors (loops w j)" "\<And>j. timer_queue (loops w1 j) = timer_queue (loops w j)"
proof -
  let ?w = "on_conn c (\<lambda>cn. cn\<lparr>cn_state := kDisconnected\<rparr>) w"
  have pre: "owner_tid (loops ?w (loop_of c ?w)) = this_thread ?w" "registered (cn_channel (conns ?w c)) (loops ?w (loop_of c ?w))"
    "ch_fd (cn_channel (conns ?w c)) = cn_fd (conns ?w c)" "0 \<le> cn_fd (conns ?w c)"
    using assms(1,2) by (simp_all add: conn_ok_def Let_def is_open_def)
  obtain ch p where e: "conns w1 = (conns ?w)(c := (conns ?w c)\<lparr>cn_channel := ch, sk := (sk (conns ?w c))\<lparr>sk_closed := True\<rparr>\<rparr>)"
    "ch_fd ch = cn_fd (conns ?w c)" "ch_events ch = 0" "ch_state ch = kDeleted"
    "loops w1 = (loops ?w)(loop_of c ?w := (loops ?w (loop_of c ?w))\<lparr>ep := p\<rparr>)"
    "interest p (cn_fd (conns ?w c)) = None" "this_thread w1 = this_thread ?w"
    using conn_release_effect [OF pre] unfolding assms(3) [symmetric] by blast
  show "conn_adv c w w1"
    using assms(1,2) pre e(2,3,7)
    by (auto simp: conn_adv_def conn_ok_def Let_def e(1,5) is_open_def is_writing_bit)
  show "cn_state (conns w1 c) = kDisconnected" "ch_state (cn_channel (conns w1 c)) = kDeleted"
    "interest (ep (loops w1 (loop_of c w))) (cn_fd (conns w c)) = None"
    "wire (sk (conns w1 c)) = wire (sk (conns w c))" "has_close_cb (conns w1 c) = has_close_cb (conns w c)"
    "output_buffer (conns w1 c) = output_buffer (conns w c)"
    "\<And>j. pending_functors (loops w1 j) = pending_functors (loops w j)" "\<And>j. timer_queue (loops w1 j) = timer_queue (loops w j)"
    using e by simp_all
qed

section \<open>Sending\<close>

lemma conn_adv_on_loop:
  assumes "conn_ok c w" "\<And>l. owner_tid (f l) = owner_tid l" "\<And>l. ep (f l) = ep l"
  shows "conn_adv c w (on_loop i f w)"
  using assms by (auto simp: conn_adv_def conn_ok_def Let_def is_open_def stream_def registered_def)

text \<open>The part of the invariant that does not speak about the contents of the output buffer.\<close>

definition conn_core :: "nat \<Rightarrow> ('v, 'x, 'z) conn_world_scheme \<Rightarrow> bool" where
  "conn_core c w \<longleftrightarrow>
     (let cn = conns w c; ch = cn_channel cn; l = loops w (cn_loop cn)
      in buffer_inv (input_buffer cn) \<and> buffer_inv (output_buffer cn) \<and> 0 \<le> cn_fd cn \<and> ch_fd ch = cn_fd cn
         \<and> owner_tid l = this_thread w \<and> cn_state cn \<noteq> kDisconnected \<and> \<not> sk_closed (sk cn) \<and> registered ch l)"

lemma conn_ok_core:
  "is_open c w \<Longrightarrow> conn_ok c w \<longleftrightarrow> conn_core c w
     \<and> (is_writing (cn_channel (conns w c)) \<longleftrightarrow> readable_view (output_buffer (conns w c)) \<noteq> [])
     \<and> (shutdown_pending (conns w c) \<longrightarrow> cn_state (conns w c) = kDisconnecting \<and> readable_view (output_buffer (conns w c)) \<noteq> [])
     \<and> (shut_wr (sk (conns w c)) \<longrightarrow> cn_state (conns w c) = kDisconnecting \<and> readable_view (output_buffer (conns w c)) = [])"
  unfolding conn_ok_def conn_core_def is_open_def Let_def by blast

text \<open>Requesting or dropping \<open>EPOLLOUT\<close> where needed.\<close>

definition set_writing :: "nat \<Rightarrow> bool \<Rightarrow> ('v, 'x, 'z) conn_world_scheme \<Rightarrow> ('v, 'x, 'z) conn_world_scheme" where
  "set_writing c out w =
     (if is_writing (cn_channel (conns w c)) = out then w
      else with_channel c (if out then enable_writing else disable_writing) w)"

lemma set_writing_effect:
  assumes "conn_core c w"
  shows "\<exists>ch p. conns (set_writing c out w) = (conns w)(c := (conns w c)\<lparr>cn_channel := ch\<rparr>)
     \<and> (is_writing ch \<longleftrightarrow> out) \<and> loops (set_writing c out w) = (loops w)(loop_of c w := (loops w (loop_of c w))\<lparr>ep := p\<rparr>)
     \<and> this_thread (set_writing c out w) = this_thread w \<and> conn_core c (set_writing c out w)"
proof (cases "is_writing (cn_channel (conns w c)) = out")
  case True
  then show ?thesis
    using assms by (intro exI [of _ "cn_channel (conns w c)"] exI [of _ "ep (loops w (loop_of c w))"]) (simp add: set_writing_def)
next
  case False
  let ?op = "if out then enable_writing else disable_writing"
  let ?ev = "if out then ch_events (cn_channel (conns w c)) OR EPOLLOUT else ch_events (cn_channel (conns w c)) AND NOT EPOLLOUT"
  have s: "set_writing c out w = with_channel c ?op w" using False by (simp add: set_writing_def)
  have "?op (this_thread w) (cn_channel (conns w c)) (loops w (loop_of c w)) =
      update_channel (this_thread w) ((cn_channel (conns w c))\<lparr>ch_events := ?ev\<rparr>) (loops w (loop_of c w))"
    by (simp add: channel_ops)
  moreover have pre: "owner_tid (loops w (loop_of c w)) = this_thread w" "registered (cn_channel (conns w c)) (loops w (loop_of c w))"
    using assms by (simp_all add: conn_core_def Let_def)
  ultimately obtain ch p where e: "conns (set_writing c out w) = (conns w)(c := (conns w c)\<lparr>cn_channel := ch\<rparr>)"
    "ch_fd ch = ch_fd (cn_channel (conns w c))" "ch_events ch = ?ev"
    "registered ch (loops (set_writing c out w) (loop_of c w))" "this_thread (set_writing c out w) = this_thread w"
    "loops (set_writing c out w) = (loops w)(loop_of c w := (loops w (loop_of c w))\<lparr>ep := p\<rparr>)"
    using with_channel_update [where op = ?op, OF _ pre s] by blast
  have "conn_core c (set_writing c out w)"
    using assms e(2,4) by (simp add: conn_core_def Let_def e(1,5,6))
  moreover have "bit ?ev 2 \<longleftrightarrow> out" by (simp add: bit_simps bit_EPOLLOUT)
  ultimately show ?thesis using e by (intro exI [of _ ch] exI [of _ p]) (simp add: is_writing_bit)
qed

text \<open>The high-water condition of \<open>send\<close>.\<close>

definition crosses_high_water :: "'x conn \<Rightarrow> nat \<Rightarrow> bool" where
  "crosses_high_water cn n \<longleftrightarrow> high_water_mark cn > 0 \<and> has_high_water_cb cn
     \<and> readable_bytes (output_buffer cn) < high_water_mark cn \<and> readable_bytes (output_buffer cn) + n \<ge> high_water_mark cn"

text \<open>The state of \<open>send\<close> in front of \<open>enable_writing\<close>.\<close>

definition send_buffered :: "nat \<Rightarrow> bytes \<Rightarrow> ('v, 'x, 'z) conn_world_scheme \<Rightarrow> ('v, 'x, 'z) conn_world_scheme" where
  "send_buffered c rest w =
     (let w1 = on_conn c (\<lambda>cn. cn\<lparr>output_buffer := buf_append (output_buffer cn) rest\<rparr>) w
      in if crosses_high_water (conns w c) (length rest)
         then on_loop (loop_of c w) (queue_in_loop (this_thread w) (Task (HighWater c))) w1 else w1)"

lemma readable_bytes_append:
  "buffer_inv b \<Longrightarrow> readable_bytes (buf_append b xs) = readable_bytes b + length xs"
  using length_readable_view [of b] length_readable_view [of "buf_append b xs"]
  by (simp add: buf_append_inv readable_view_append)

lemma send_rest_alt:
  assumes "buffer_inv (output_buffer (conns w c))" "rest \<noteq> []"
  shows "send_rest c rest w = set_writing c True (send_buffered c rest w)"
  using assms(2) readable_bytes_append [OF assms(1), of rest]
  by (simp add: send_rest_def send_buffered_def set_writing_def crosses_high_water_def Let_def)

lemma send_buffered_simps:
  "conns (send_buffered c rest w) = (conns w)(c := (conns w c)\<lparr>output_buffer := buf_append (output_buffer (conns w c)) rest\<rparr>)"
  "this_thread (send_buffered c rest w) = this_thread w"
  "owner_tid (loops (send_buffered c rest w) j) = owner_tid (loops w j)" "ep (loops (send_buffered c rest w) j) = ep (loops w j)"
  "pending_functors (loops (send_buffered c rest w) (loop_of c w)) = pending_functors (loops w (loop_of c w))
     @ (if crosses_high_water (conns w c) (length rest) then [Task (HighWater c)] else [])"
  by (simp_all add: send_buffered_def Let_def on_conn_def)

lemma send_rest_effect:
  assumes "conn_ok c w" "cn_state (conns w c) = kConnected" "w' = send_rest c rest w"
  shows "conn_adv c w w'" "stream c w' = stream c w @ rest" "cn_state (conns w' c) = kConnected"
    "wire (sk (conns w' c)) = wire (sk (conns w c))"
    "pending_functors (loops w' (loop_of c w)) = pending_functors (loops w (loop_of c w))
       @ (if rest \<noteq> [] \<and> crosses_high_water (conns w c) (length rest) then [Task (HighWater c)] else [])"
proof -
  have *: "conn_adv c w w' \<and> stream c w' = stream c w @ rest \<and> cn_state (conns w' c) = kConnected
      \<and> wire (sk (conns w' c)) = wire (sk (conns w c))
      \<and> pending_functors (loops w' (loop_of c w)) = pending_functors (loops w (loop_of c w))
          @ (if rest \<noteq> [] \<and> crosses_high_water (conns w c) (length rest) then [Task (HighWater c)] else [])"
  proof (cases "rest = []")
    case True
    then show ?thesis using assms conn_adv_refl [OF assms(1)] by (simp add: send_rest_def)
  next
    case False
    have "is_open c w" using assms(2) by (simp add: is_open_def)
    note ok = assms(1) [unfolded conn_ok_core [OF this]]
    have core: "conn_core c (send_buffered c rest w)"
      using ok by (auto simp: conn_core_def Let_def send_buffered_simps registered_def buf_append_inv)
    have inv: "buffer_inv (output_buffer (conns w c))" using ok by (simp add: conn_core_def Let_def)
    have w': "w' = set_writing c True (send_buffered c rest w)" by (simp add: assms(3) send_rest_alt [OF inv False])
    obtain ch p where e: "conns w' = (conns (send_buffered c rest w))(c := (conns (send_buffered c rest w) c)\<lparr>cn_channel := ch\<rparr>)"
      "is_writing ch" "loops w' = (loops (send_buffered c rest w))(loop_of c w := (loops (send_buffered c rest w) (loop_of c w))\<lparr>ep := p\<rparr>)"
      "this_thread w' = this_thread w" "conn_core c w'"
      using set_writing_effect [OF core, of True] by (auto simp: w' send_buffered_simps)
    have st: "stream c w' = stream c w @ rest" "cn_state (conns w' c) = kConnected" "is_open c w'"
      "wire (sk (conns w' c)) = wire (sk (conns w c))"
      using inv assms(2) by (simp_all add: stream_def is_open_def e(1) send_buffered_simps readable_view_append)
    moreover have "conn_ok c w'"
      unfolding conn_ok_core [OF st(3)]
      using e(5) ok False inv e(2) assms(2) by (simp add: e(1) send_buffered_simps readable_view_append)
    ultimately show ?thesis
      using False \<open>is_open c w\<close> by (simp add: conn_adv_def e(1,3,4) send_buffered_simps)
  qed
  then show "conn_adv c w w'" "stream c w' = stream c w @ rest" "cn_state (conns w' c) = kConnected"
    "wire (sk (conns w' c)) = wire (sk (conns w c))"
    "pending_functors (loops w' (loop_of c w)) = pending_functors (loops w (loop_of c w))
       @ (if rest \<noteq> [] \<and> crosses_high_water (conns w c) (length rest) then [Task (HighWater c)] else [])"
    by blast+
qed

lemma send_rest_frame [simp]:
  "input_buffer (conns (send_rest c rest w) c) = input_buffer (conns w c)"
  "cn_context (conns (send_rest c rest w) c) = cn_context (conns w c)"
  "cn_state (conns (send_rest c rest w) c) = cn_state (conns w c)"
  "sk (conns (send_rest c rest w) c) = sk (conns w c)"
  by (simp_all add: send_rest_def with_channel_def Let_def split: prod.split)

section \<open>Writing out\<close>

text \<open>The end of \<open>handle_write\<close> once the buffer is empty.\<close>

definition write_done :: "nat \<Rightarrow> ('v, 'x, 'z) conn_world_scheme \<Rightarrow> ('v, 'x, 'z) conn_world_scheme" where
  "write_done c w =
     (let w3 = (if shutdown_pending (conns w c)
                then on_conn c (\<lambda>cn. cn\<lparr>shutdown_pending := False, sk := sys_shutdown_wr (sk cn)\<rparr>) w else w)
      in if has_write_complete_cb (conns w3 c)
         then on_loop (loop_of c w3) (queue_in_loop (this_thread w3) (Task (WriteComplete c))) w3 else w3)"

lemma handle_write_alt:
  assumes "\<not> buf_empty (output_buffer (conns w c))" "write_loop (output_buffer (conns w c)) (sk (conns w c)) = (r, b, s)"
    "w1 = on_conn c (\<lambda>cn. cn\<lparr>output_buffer := b, sk := s\<rparr>) w"
  shows "conn_handle_write cbs c w =
    (case r of Drained \<Rightarrow> w1 | IoError \<Rightarrow> conn_close (close_cb cbs) c w1 | EndOfStream \<Rightarrow> write_done c (set_writing c False w1))"
  using assms by (cases r) (simp_all add: conn_handle_write_def write_done_def set_writing_def Let_def)

lemma write_done_effect:
  assumes "conn_core c w" "readable_view (output_buffer (conns w c)) = []" "\<not> is_writing (cn_channel (conns w c))"
    "shutdown_pending (conns w c) \<longrightarrow> cn_state (conns w c) = kDisconnecting" "\<not> shut_wr (sk (conns w c))"
  shows "conn_ok c (write_done c w)" "wire (sk (conns (write_done c w) c)) = wire (sk (conns w c))"
    "output_buffer (conns (write_done c w) c) = output_buffer (conns w c)" "cn_state (conns (write_done c w) c) = cn_state (conns w c)"
    "cn_loop (conns (write_done c w) c) = loop_of c w" "cn_fd (conns (write_done c w) c) = cn_fd (conns w c)"
    "this_thread (write_done c w) = this_thread w" "shut_wr (sk (conns (write_done c w) c)) = shutdown_pending (conns w c)"
    "\<not> shutdown_pending (conns (write_done c w) c)"
    "pending_functors (loops (write_done c w) (loop_of c w)) = pending_functors (loops w (loop_of c w))
       @ (if has_write_complete_cb (conns w c) then [Task (WriteComplete c)] else [])"
  using assms by (auto simp: write_done_def Let_def conn_core_def conn_ok_def sys_shutdown_wr_def registered_def)

lemma write_loop_spec:
  assumes "buffer_inv b" "write_loop b s = (r, b', s')"
  shows "buffer_inv b'" "wire s' @ readable_view b' = wire s @ readable_view b" "prefix (wire s) (wire s')"
    "shut_wr s' = shut_wr s" "sk_closed s' = sk_closed s" "rd_script s' = rd_script s"
    "r = EndOfStream \<longleftrightarrow> readable_view b' = []"
    "readable_view b \<noteq> [] \<Longrightarrow> sk_closed s \<or> shut_wr s \<Longrightarrow> r = IoError"
  using write_loop_send_loop [OF assms] send_loop_spec [of "readable_view b" s r "readable_view b'" s'] by simp_all

lemma conn_adv_same_output:
  assumes "conn_ok c w" "buffer_inv b" "buffer_inv ib" "wire s @ readable_view b = stream c w" "prefix (wire (sk (conns w c))) (wire s)"
    "shut_wr s = shut_wr (sk (conns w c))" "sk_closed s = sk_closed (sk (conns w c))"
    "readable_view b = [] \<longleftrightarrow> readable_view (output_buffer (conns w c)) = []"
  shows "conn_adv c w (on_conn c (\<lambda>cn. cn\<lparr>input_buffer := ib, output_buffer := b, sk := s\<rparr>) w)"
proof (rule conn_adv_on_conn [where f = "\<lambda>cn. cn\<lparr>input_buffer := ib, output_buffer := b, sk := s\<rparr>", OF assms(1) refl],
    simp_all add: assms(2,3,5,7))
  assume o: "is_open c w"
  show "prefix (stream c w) (wire s @ readable_view b)
      \<and> (readable_view b = [] \<longleftrightarrow> readable_view (output_buffer (conns w c)) = [])
      \<and> (shutdown_pending (conns w c) \<longrightarrow> cn_state (conns w c) = kDisconnecting \<and> readable_view b \<noteq> [])
      \<and> (shut_wr s \<longrightarrow> cn_state (conns w c) = kDisconnecting \<and> readable_view b = [])"
    using assms(1) [unfolded conn_ok_core [OF o]] by (simp add: assms(4,6,8))
qed

lemma handle_write_done:
  assumes "conn_ok c w" "is_open c w" "readable_view (output_buffer (conns w c)) \<noteq> []"
    "write_loop (output_buffer (conns w c)) (sk (conns w c)) = (EndOfStream, b, s)"
    "w' = conn_handle_write cbs c w"
  shows "conn_adv c w w'" "wire (sk (conns w' c)) = stream c w" "readable_view (output_buffer (conns w' c)) = []"
    "shut_wr (sk (conns w' c)) = shutdown_pending (conns w c)" "\<not> shutdown_pending (conns w' c)"
    "cn_state (conns w' c) = cn_state (conns w c)"
    "pending_functors (loops w' (loop_of c w)) = pending_functors (loops w (loop_of c w))
       @ (if has_write_complete_cb (conns w c) then [Task (WriteComplete c)] else [])"
proof -
  define w1 where "w1 = on_conn c (\<lambda>cn. cn\<lparr>output_buffer := b, sk := s\<rparr>) w"
  note ok = assms(1) [unfolded conn_ok_core [OF assms(2)]]
  have inv: "buffer_inv (output_buffer (conns w c))" using ok by (simp add: conn_core_def Let_def)
  note wl = write_loop_spec [OF inv assms(4)]
  have ne: "\<not> buf_empty (output_buffer (conns w c))" using assms(3) inv by (simp add: buf_empty_view)
  have w': "w' = write_done c (set_writing c False w1)"
    unfolding assms(5) handle_write_alt [OF ne assms(4) w1_def] by simp
  have core1: "conn_core c w1" using ok wl by (simp add: conn_core_def Let_def w1_def)
  have w1: "conns w1 c = (conns w c)\<lparr>output_buffer := b, sk := s\<rparr>" "loops w1 = loops w" "this_thread w1 = this_thread w"
    by (simp_all add: w1_def)
  define w2 where "w2 = set_writing c False w1"
  obtain ch p where e: "conns w2 = (conns w1)(c := (conns w1 c)\<lparr>cn_channel := ch\<rparr>)" "\<not> is_writing ch"
    "loops w2 = (loops w1)(loop_of c w1 := (loops w1 (loop_of c w1))\<lparr>ep := p\<rparr>)"
    "this_thread w2 = this_thread w1" "conn_core c w2"
    using set_writing_effect [OF core1, of False] unfolding w2_def by blast
  have c2: "conns w2 c = (conns w c)\<lparr>output_buffer := b, sk := s, cn_channel := ch\<rparr>" by (simp add: e(1) w1)
  have d: "readable_view (output_buffer (conns w2 c)) = []" "\<not> is_writing (cn_channel (conns w2 c))"
    "shutdown_pending (conns w2 c) \<longrightarrow> cn_state (conns w2 c) = kDisconnecting" "\<not> shut_wr (sk (conns w2 c))"
    using e(2) ok wl(4,7) assms(3) by (simp_all add: c2)
  note wd = write_done_effect [OF e(5) d]
  show "wire (sk (conns w' c)) = stream c w" "readable_view (output_buffer (conns w' c)) = []"
    "shut_wr (sk (conns w' c)) = shutdown_pending (conns w c)" "\<not> shutdown_pending (conns w' c)"
    "cn_state (conns w' c) = cn_state (conns w c)"
    "pending_functors (loops w' (loop_of c w)) = pending_functors (loops w (loop_of c w))
       @ (if has_write_complete_cb (conns w c) then [Task (WriteComplete c)] else [])"
    using wd(2,3,4,8,9,10) wl(2,7) by (simp_all add: w' c2 e(3) w1 stream_def flip: w2_def)
  then show "conn_adv c w w'"
    using wd(1,5-7) assms(2) wl(3) by (simp add: conn_adv_def is_open_def stream_def w' c2 e(4) w1 flip: w2_def)
qed

section \<open>Half-close\<close>

lemma shutdown_effect:
  assumes "conn_ok c w" "cn_state (conns w c) = kConnected"
  shows "cn_state (conns (conn_shutdown c w) c) = kDisconnecting" "stream c (conn_shutdown c w) = stream c w"
    "input_buffer (conns (conn_shutdown c w) c) = input_buffer (conns w c)"
    "cn_context (conns (conn_shutdown c w) c) = cn_context (conns w c)"
    "shut_wr (sk (conns (conn_shutdown c w) c)) \<longleftrightarrow> readable_view (output_buffer (conns w c)) = []"
    "shutdown_pending (conns (conn_shutdown c w) c) \<longleftrightarrow> readable_view (output_buffer (conns w c)) \<noteq> []"
    "loops (conn_shutdown c w) = loops w"
proof -
  have ok: "is_open c w" using assms(2) by (simp add: is_open_def)
  note core = assms(1) [unfolded conn_ok_core [OF ok]]
  have "buffer_inv (output_buffer (conns w c))" "\<not> sk_closed (sk (conns w c))" using core by (simp_all add: conn_core_def Let_def)
  note b = buf_empty_view [OF this(1)] this(2)
  have s: "conn_shutdown c w = (if readable_view (output_buffer (conns w c)) = []
      then on_conn c (\<lambda>cn. cn\<lparr>cn_state := kDisconnecting, sk := sys_shutdown_wr (sk cn)\<rparr>) w
      else on_conn c (\<lambda>cn. cn\<lparr>cn_state := kDisconnecting, shutdown_pending := True\<rparr>) w)"
    using assms(2) conn_ok_in_loop [OF assms(1)] b
    by (simp add: conn_shutdown_def run_in_loop_def shutdown_in_loop_def) (simp add: on_conn_def comp_def)
  show "cn_state (conns (conn_shutdown c w) c) = kDisconnecting" "stream c (conn_shutdown c w) = stream c w"
    "input_buffer (conns (conn_shutdown c w) c) = input_buffer (conns w c)"
    "cn_context (conns (conn_shutdown c w) c) = cn_context (conns w c)"
    "shut_wr (sk (conns (conn_shutdown c w) c)) \<longleftrightarrow> readable_view (output_buffer (conns w c)) = []"
    "shutdown_pending (conns (conn_shutdown c w) c) \<longleftrightarrow> readable_view (output_buffer (conns w c)) \<noteq> []"
    "loops (conn_shutdown c w) = loops w"
    unfolding s using core b(2) assms(2) by (auto simp: stream_def sys_shutdown_wr_def)
qed

lemma conn_start_adv:
  assumes "conn_ok c w" "is_open c w"
  shows "conn_adv c w (conn_start c w)" "cn_state (conns (conn_start c w) c) = cn_state (conns w c)"
    "is_reading (cn_channel (conns (conn_start c w) c))" "has_close_cb (conns (conn_start c w) c) = has_close_cb (conns w c)"
proof -
  let ?w1 = "on_conn c (\<lambda>cn. cn\<lparr>cn_channel := tie (cn_channel cn)\<rparr>) w"
  define w' where "w' = with_channel c enable_reading ?w1"
  have w': "conn_start c w = w'" using conn_ok_in_loop [OF assms(1)] by (simp add: conn_start_def w'_def)
  note core = assms(1) [unfolded conn_ok_core [OF assms(2)]]
  have pre: "owner_tid (loops ?w1 (loop_of c ?w1)) = this_thread ?w1" "registered (cn_channel (conns ?w1 c)) (loops ?w1 (loop_of c ?w1))"
    using core by (auto simp: conn_core_def Let_def tie_def registered_def)
  obtain ch p where u: "conns w' = (conns ?w1)(c := (conns ?w1 c)\<lparr>cn_channel := ch\<rparr>)"
    "ch_fd ch = ch_fd (cn_channel (conns ?w1 c))" "ch_events ch = ch_events (cn_channel (conns ?w1 c)) OR kReadEvent"
    "registered ch (loops w' (loop_of c ?w1))"
    "loops w' = (loops ?w1)(loop_of c ?w1 := (loops ?w1 (loop_of c ?w1))\<lparr>ep := p\<rparr>)" "this_thread w' = this_thread ?w1"
    using with_channel_update [where op = enable_reading, OF _ pre w'_def, OF fun_cong [OF enable_reading_def]] by blast
  have wr: "is_writing ch = is_writing (cn_channel (conns w c))"
    by (simp add: is_writing_bit u(3) bit_or_iff bit_kReadEvent tie_def)
  show "conn_adv c w (conn_start c w)"
    using assms u(2,4,6) wr unfolding w'
    by (auto simp: conn_adv_def conn_ok_def Let_def u(1,5) is_open_def stream_def tie_def)
  show "cn_state (conns (conn_start c w) c) = cn_state (conns w c)" "is_reading (cn_channel (conns (conn_start c w) c))"
    "has_close_cb (conns (conn_start c w) c) = has_close_cb (conns w c)"
    by (simp_all add: w' u is_reading_bit bit_or_iff bit_kReadEvent)
qed

lemma conn_adv_run_after:
  assumes "conn_ok c w"
  shows "conn_adv c w (snd (run_after i d cb w))"
proof -
  obtain k q where q: "alloc_timer_id (timer_queue (loops w i)) = (k, q)" by fastforce
  show ?thesis
    unfolding run_after_def run_at_eq [OF q] snd_conv
    by (rule conn_adv_on_loop [OF assms]) (auto simp: queue_in_loop_def push_functor_def wakeup_def Let_def)
qed

section \<open>The contract of the callbacks\<close>

text \<open>
  The users of a connection give it callbacks that may send, shut down, close or consume input, that
  is, take further steps of the connection. Closing and sending call the close callback only.
\<close>

locale conn_closer =
  fixes clcb :: "nat \<Rightarrow> ('v, 'x, 'z) conn_world_scheme \<Rightarrow> ('v, 'x, 'z) conn_world_scheme"
  assumes close_cb_adv: "conn_ok c w \<Longrightarrow> \<not> is_open c w \<Longrightarrow> conn_adv c w (clcb c w)"
begin

lemma close_adv:
  assumes "conn_ok c w"
  shows "conn_adv c w (conn_close clcb c w)"
proof (cases "is_open c w")
  case True
  note r = conn_close_released [OF assms True refl]
  then have "\<not> is_open c (conn_release c (on_conn c (\<lambda>cn. cn\<lparr>cn_state := kDisconnected\<rparr>) w))" by (simp add: is_open_def)
  from close_cb_adv [OF conn_adv_ok [OF r(1)] this] True r(1) show ?thesis
    unfolding conn_close_def Let_def is_open_def by (auto intro: conn_adv_trans)
qed (simp add: conn_close_def is_open_def conn_adv_refl [OF assms])

lemma close_closes: "conn_ok c w \<Longrightarrow> \<not> is_open c (conn_close clcb c w)"
proof (cases "is_open c w")
  case True
  assume "conn_ok c w"
  note r = conn_close_released [OF this True refl]
  then have no: "\<not> is_open c (conn_release c (on_conn c (\<lambda>cn. cn\<lparr>cn_state := kDisconnected\<rparr>) w))" by (simp add: is_open_def)
  from close_cb_adv [OF conn_adv_ok [OF r(1)] no] no True show ?thesis
    by (auto simp: conn_close_def Let_def conn_adv_def is_open_def)
qed (simp add: conn_close_def is_open_def)

lemma send_adv:
  assumes "conn_ok c w"
  shows "conn_adv c w (conn_send clcb c data w)"
    "is_open c (conn_send clcb c data w) \<Longrightarrow> cn_state (conns w c) = kConnected \<Longrightarrow> stream c (conn_send clcb c data w) = stream c w @ data"
proof -
  let ?w' = "conn_send clcb c data w"
  have "conn_adv c w ?w' \<and> (is_open c ?w' \<longrightarrow> cn_state (conns w c) = kConnected \<longrightarrow> stream c ?w' = stream c w @ data)"
  proof (cases "cn_state (conns w c) \<noteq> kConnected \<or> data = []")
    case True
    then show ?thesis using conn_adv_refl [OF assms] by (auto simp: conn_send_def)
  next
    case False
    then have conn: "cn_state (conns w c) = kConnected" "is_open c w" by (simp_all add: is_open_def)
    note ok = assms [unfolded conn_ok_core [OF conn(2)]]
    have inv: "buffer_inv (output_buffer (conns w c))" using ok by (simp add: conn_core_def Let_def)
    show ?thesis
    proof (cases "readable_view (output_buffer (conns w c)) = []")
      case True
      obtain r rest s where l: "send_loop data (sk (conns w c)) = (r, rest, s)" by (metis prod_cases3)
      note sl = send_loop_spec [OF l]
      define w1 where "w1 = on_conn c (\<lambda>cn. cn\<lparr>sk := s\<rparr>) w"
      have adv: "conn_adv c w w1" unfolding w1_def
        by (rule conn_adv_on_conn [where f = "\<lambda>cn. cn\<lparr>sk := s\<rparr>", OF assms refl])
          (use sl ok True in \<open>simp_all add: conn_core_def Let_def stream_def\<close>)
      have w1: "cn_state (conns w1 c) = kConnected" "stream c w1 @ rest = stream c w @ data"
        using conn(1) sl True by (simp_all add: w1_def stream_def)
      have "?w' = (if r = IoError then conn_close clcb c w1 else send_rest c rest w1)"
        using False True inv by (simp add: conn_send_def l buf_empty_view w1_def)
      then show ?thesis
        using adv w1 close_adv [OF conn_adv_ok [OF adv]] close_closes [OF conn_adv_ok [OF adv]]
          send_rest_effect [OF conn_adv_ok [OF adv] w1(1) refl, of rest]
        by (auto intro: conn_adv_trans)
    next
      case ne: False
      then have "?w' = send_rest c data w" using False inv by (simp add: conn_send_def buf_empty_view)
      then show ?thesis using send_rest_effect [OF assms conn(1)] by blast
    qed
  qed
  then show "conn_adv c w ?w'" "is_open c ?w' \<Longrightarrow> cn_state (conns w c) = kConnected \<Longrightarrow> stream c ?w' = stream c w @ data"
    by blast+
qed

text \<open>If the connection survives a \<open>send\<close>, the call only buffered what the socket did not take.\<close>

lemma send_shape:
  assumes "conn_ok c w" "is_open c (conn_send clcb c data w)"
  shows "\<exists>rest s. conn_send clcb c data w \<in> {w, send_rest c data w, send_rest c rest (on_conn c (\<lambda>cn. cn\<lparr>sk := s\<rparr>) w)}"
proof -
  obtain r rest s where l: "send_loop data (sk (conns w c)) = (r, rest, s)" by (metis prod_cases3)
  let ?w1 = "on_conn c (\<lambda>cn. cn\<lparr>sk := s\<rparr>) w"
  have "conn_ok c ?w1" if "cn_state (conns w c) = kConnected" "readable_view (output_buffer (conns w c)) = []"
    using assms(1) that send_loop_spec [OF l] by (auto simp: conn_ok_def Let_def)
  then have "conn_send clcb c data w \<in> {w, send_rest c data w, send_rest c rest ?w1}"
    using assms close_closes [of c ?w1] by (auto simp: conn_send_def l conn_ok_def Let_def buf_empty_view)
  then show ?thesis by blast
qed

lemma send_frame:
  assumes "conn_ok c w" "is_open c (conn_send clcb c data w)"
  shows "input_buffer (conns (conn_send clcb c data w) c) = input_buffer (conns w c)"
    "cn_context (conns (conn_send clcb c data w) c) = cn_context (conns w c)"
    "cn_state (conns (conn_send clcb c data w) c) = cn_state (conns w c)"
  using send_shape [OF assms] by auto

text \<open>A full kernel buffer closes nothing.\<close>

lemma send_blocked_open:
  assumes "conn_ok c w" "cn_state (conns w c) = kConnected" "wr_script (sk (conns w c)) = []"
  shows "cn_state (conns (conn_send clcb c data w) c) = kConnected" "sk (conns (conn_send clcb c data w) c) = sk (conns w c)"
proof -
  have "\<not> sk_closed (sk (conns w c)) \<and> \<not> shut_wr (sk (conns w c))" using assms(1,2) by (auto simp: conn_ok_def Let_def)
  then have "send_loop data (sk (conns w c)) = (if data = [] then EndOfStream else Drained, data, sk (conns w c))"
    using assms(3) by (subst send_loop.simps) (simp add: sys_write_def)
  then show "cn_state (conns (conn_send clcb c data w) c) = kConnected" "sk (conns (conn_send clcb c data w) c) = sk (conns w c)"
    using assms(2) by (simp_all add: conn_send_def)
qed

lemma shutdown_in_loop_adv:
  assumes "conn_ok c w" "cn_state (conns w c) \<noteq> kConnected"
  shows "conn_adv c w (shutdown_in_loop c w)"
proof (cases "is_open c w")
  case True
  note ok = assms(1) [unfolded conn_ok_core [OF True]]
  have inv: "buffer_inv (output_buffer (conns w c))" "buffer_inv (input_buffer (conns w c))" "\<not> sk_closed (sk (conns w c))"
    using ok by (simp_all add: conn_core_def Let_def)
  have st: "cn_state (conns w c) = kDisconnecting" using True assms(2) by (cases "cn_state (conns w c)") (auto simp: is_open_def)
  have a: "conn_adv c w (on_conn c (\<lambda>cn. cn\<lparr>sk := sys_shutdown_wr (sk cn)\<rparr>) w)" if "readable_view (output_buffer (conns w c)) = []"
    by (rule conn_adv_on_conn [where f = "\<lambda>cn. cn\<lparr>sk := sys_shutdown_wr (sk cn)\<rparr>", OF assms(1) refl])
      (use that ok inv st in \<open>simp_all add: sys_shutdown_wr_def stream_def\<close>)
  have b: "conn_adv c w (on_conn c (\<lambda>cn. cn\<lparr>shutdown_pending := True\<rparr>) w)" if "readable_view (output_buffer (conns w c)) \<noteq> []"
    by (rule conn_adv_on_conn [where f = "\<lambda>cn. cn\<lparr>shutdown_pending := True\<rparr>", OF assms(1) refl])
      (use that ok inv st in \<open>simp_all add: stream_def\<close>)
  show ?thesis
    using a b st conn_ok_in_loop [OF assms(1)] by (simp add: shutdown_in_loop_def buf_empty_view [OF inv(1)])
next
  case False
  then show ?thesis
    using conn_adv_refl [OF assms(1)] conn_ok_in_loop [OF assms(1)] by (simp add: shutdown_in_loop_def is_open_def)
qed

lemma shutdown_adv:
  assumes "conn_ok c w"
  shows "conn_adv c w (conn_shutdown c w)"
proof (cases "cn_state (conns w c) = kConnected")
  case True
  let ?w1 = "on_conn c (\<lambda>cn. cn\<lparr>cn_state := kDisconnecting\<rparr>) w"
  have adv: "conn_adv c w ?w1"
    using assms True by (auto simp: conn_adv_def conn_ok_def Let_def is_open_def stream_def)
  have "conn_shutdown c w = shutdown_in_loop c ?w1"
    using True conn_ok_in_loop [OF assms] by (simp add: conn_shutdown_def run_in_loop_def)
  then show ?thesis
    using adv shutdown_in_loop_adv [OF conn_adv_ok [OF adv]] by (auto intro: conn_adv_trans)
qed (simp add: conn_shutdown_def conn_adv_refl [OF assms])

end

text \<open>Everything a connection does with callbacks that take steps of the connection is such a step.\<close>

locale conn_callbacks = conn_closer "close_cb cbs" for cbs :: "('v, 'x, 'z) conn_world_scheme conn_cbs" +
  assumes message_adv: "conn_ok c w \<Longrightarrow> conn_adv c w (message_cb cbs c w)"
    and high_water_adv: "conn_ok c w \<Longrightarrow> conn_adv c w (high_water_cb cbs c w)"
    and write_complete_adv: "conn_ok c w \<Longrightarrow> conn_adv c w (write_complete_cb cbs c w)"
begin

lemma deliver_adv: "conn_ok c w \<Longrightarrow> conn_adv c w (deliver cbs c w)"
  by (simp add: deliver_def message_adv conn_adv_refl)

lemma handle_read_adv:
  assumes "conn_ok c w"
  shows "conn_adv c w (conn_handle_read cbs c w)"
proof -
  obtain r b s where l: "read_loop (input_buffer (conns w c)) (sk (conns w c)) = (r, b, s)" by (metis prod_cases3)
  define w1 where "w1 = on_conn c (\<lambda>cn. cn\<lparr>input_buffer := b, sk := s\<rparr>) w"
  have inv: "buffer_inv (input_buffer (conns w c))" "buffer_inv (output_buffer (conns w c))"
    using assms by (simp_all add: conn_ok_def Let_def)
  note rl = read_loop_spec [OF inv(1) l]
  have "w1 = on_conn c (\<lambda>cn. cn\<lparr>input_buffer := b, output_buffer := output_buffer (conns w c), sk := s\<rparr>) w"
    by (simp add: w1_def on_conn_def)
  then have adv: "conn_adv c w w1"
    using rl inv(2) by (simp add: conn_adv_same_output [OF assms] stream_def)
  note ok = conn_adv_ok [OF adv]
  have "conn_handle_read cbs c w =
     (case r of EndOfStream \<Rightarrow> conn_close (close_cb cbs) c (deliver cbs c w1) | IoError \<Rightarrow> conn_close (close_cb cbs) c w1 | Drained \<Rightarrow> deliver cbs c w1)"
    by (cases r) (simp_all add: conn_handle_read_def l w1_def)
  then show ?thesis
    using adv ok deliver_adv [OF ok] close_adv [OF ok] close_adv [OF conn_adv_ok [OF deliver_adv [OF ok]]]
    by (cases r) (auto intro: conn_adv_trans)
qed

lemma handle_write_adv:
  assumes "conn_ok c w"
  shows "conn_adv c w (conn_handle_write cbs c w)"
proof -
  have inv: "buffer_inv (output_buffer (conns w c))" "buffer_inv (input_buffer (conns w c))"
    using assms by (simp_all add: conn_ok_def Let_def)
  show ?thesis
  proof (cases "readable_view (output_buffer (conns w c)) = []")
    case True
    then have "\<not> is_writing (cn_channel (conns w c))" using assms by (auto simp: conn_ok_def Let_def)
    then show ?thesis using True inv conn_adv_refl [OF assms] by (simp add: conn_handle_write_def buf_empty_view)
  next
    case False
    then have ne: "\<not> buf_empty (output_buffer (conns w c))" using inv by (simp add: buf_empty_view)
    obtain r b s where l: "write_loop (output_buffer (conns w c)) (sk (conns w c)) = (r, b, s)" by (metis prod_cases3)
    note wl = write_loop_spec [OF inv(1) l]
    show ?thesis
    proof (cases "r = EndOfStream")
      case True
      have "is_open c w"
        using wl(8) False True assms by (auto simp: conn_ok_def Let_def is_open_def)
      then show ?thesis using handle_write_done(1) [OF assms _ False] l True by blast
    next
      case False
      define w1 where "w1 = on_conn c (\<lambda>cn. cn\<lparr>output_buffer := b, sk := s\<rparr>) w"
      have "w1 = on_conn c (\<lambda>cn. cn\<lparr>input_buffer := input_buffer (conns w c), output_buffer := b, sk := s\<rparr>) w"
        by (simp add: w1_def on_conn_def)
      then have adv: "conn_adv c w w1"
        using wl inv(2) False \<open>readable_view (output_buffer (conns w c)) \<noteq> []\<close>
        by (simp add: conn_adv_same_output [OF assms] stream_def)
      show ?thesis
        unfolding handle_write_alt [OF ne l w1_def] using False adv close_adv [OF conn_adv_ok [OF adv]]
        by (cases r) (auto intro: conn_adv_trans)
    qed
  qed
qed

lemma channel_cb_adv: "conn_ok c w \<Longrightarrow> conn_channel_cbs cbs c k = Some f \<Longrightarrow> conn_adv c w (f w)"
  by (cases k) (auto intro: handle_read_adv handle_write_adv close_adv)

lemma event_adv:
  assumes "conn_ok c w"
  shows "conn_adv c w (conn_event cbs c revents w)"
proof -
  have "conn_adv c w ((case conn_channel_cbs cbs c k of None \<Rightarrow> id | Some f \<Rightarrow> f) w)" if "conn_ok c w" for k w
    using that by (cases "conn_channel_cbs cbs c k") (auto intro: channel_cb_adv conn_adv_refl)
  then have "conn_adv c w (fold (\<lambda>k. case conn_channel_cbs cbs c k of None \<Rightarrow> id | Some f \<Rightarrow> f) ks w)" for ks
    using assms by (rule conn_adv_fold)
  then show ?thesis
    using conn_adv_refl [OF assms] by (simp add: conn_event_def handle_event_def handle_event_with_guard_def)
qed

end

end
