(* ===== verification/Tcp_Server.thy ===== *)
theory Tcp_Server
  imports Connection_Props
begin

text \<open>
  \<open>src/src/server.h\<close>, \<open>server.cpp\<close> and \<open>event_loop_thread_pool.cpp\<close>: the acceptor, the table of
  connections and the distribution over the loops of the pool.

  Loop 0 is the main loop. The descriptors \<open>accept\<close> will return are scripted, each with the scripts of
  its socket. The connection table maps a descriptor to a connection object. The two user callbacks
  are parameters; the lambdas the server hands to loops are the constructors of \<open>server_task\<close>.
\<close>

section \<open>State\<close>

datatype accept_result =
  Accepted int string bool "rd_result list" "wr_result list"
| AcceptIntr
| AcceptErr

datatype 'a server_task = StartConn nat | RemoveConn nat | NotifyClosed nat | CloseConn nat | SrvApp 'a

record pool =
  pool_loops :: "nat list"
  pool_next :: nat
  num_threads :: nat
  pool_started :: bool

record ('a, 'x) server_world = "('a server_task, 'x) conn_world" +
  connections :: "int \<rightharpoonup> nat"
  thread_pool :: pool
  next_cid :: nat
  accept_script :: "accept_result list"
  accept_channel :: channel
  srv_has_message_cb :: bool
  srv_has_connection_cb :: bool

definition main_loop :: nat where
  "main_loop = 0"

section \<open>The pool\<close>

definition new_pool :: "nat \<Rightarrow> pool" where
  "new_pool n = \<lparr>pool_loops = [], pool_next = 0, num_threads = n, pool_started = False\<rparr>"

text \<open>\<open>start\<close> creates one loop per thread; the loops are numbered after the main loop.\<close>

definition pool_start :: "pool \<Rightarrow> pool" where
  "pool_start p = p\<lparr>pool_started := True, pool_loops := pool_loops p @ map Suc [0..<num_threads p]\<rparr>"

definition next_loop :: "pool \<Rightarrow> nat \<times> pool" where
  "next_loop p =
     (if pool_loops p = [] then (main_loop, p)
      else (pool_loops p ! pool_next p, p\<lparr>pool_next := (pool_next p + 1) mod length (pool_loops p)\<rparr>))"

section \<open>Removing\<close>

definition remove_connection_in_loop :: "(nat \<Rightarrow> ('a, 'x, 'z) server_world_scheme \<Rightarrow> ('a, 'x, 'z) server_world_scheme)
    \<Rightarrow> nat \<Rightarrow> ('a, 'x, 'z) server_world_scheme \<Rightarrow> ('a, 'x, 'z) server_world_scheme" where
  "remove_connection_in_loop ccb c w =
     (if \<not> in_loop_thread main_loop w then loop_abort main_loop w
      else let fd = cn_fd (conns w c)
           in case connections w fd of
                None \<Rightarrow> w
              | Some c' \<Rightarrow>
                  if c' \<noteq> c then w
                  else let w1 = w\<lparr>connections := (connections w)(fd := None)\<rparr>
                       in if srv_has_connection_cb w1
                          then run_in_loop (loop_of c w1) (Task (App (NotifyClosed c))) (ccb c) w1
                          else w1)"

definition server_close_cb :: "(nat \<Rightarrow> ('a, 'x, 'z) server_world_scheme \<Rightarrow> ('a, 'x, 'z) server_world_scheme)
    \<Rightarrow> nat \<Rightarrow> ('a, 'x, 'z) server_world_scheme \<Rightarrow> ('a, 'x, 'z) server_world_scheme" where
  "server_close_cb ccb c = run_in_loop main_loop (Task (App (RemoveConn c))) (remove_connection_in_loop ccb c)"

text \<open>
  The callbacks of the connections of a server. The server sets no high-water and no write-complete
  callback.
\<close>

definition server_cbs :: "(nat \<Rightarrow> ('a, 'x, 'z) server_world_scheme \<Rightarrow> ('a, 'x, 'z) server_world_scheme)
    \<Rightarrow> (nat \<Rightarrow> ('a, 'x, 'z) server_world_scheme \<Rightarrow> ('a, 'x, 'z) server_world_scheme)
    \<Rightarrow> ('a, 'x, 'z) server_world_scheme conn_cbs" where
  "server_cbs mcb ccb =
     \<lparr>message_cb = mcb, close_cb = server_close_cb ccb, high_water_cb = (\<lambda>_ w. w), write_complete_cb = (\<lambda>_ w. w)\<rparr>"

section \<open>Accepting\<close>

text \<open>The functor that announces a connection and starts it.\<close>

definition start_conn :: "(nat \<Rightarrow> ('a, 'x, 'z) server_world_scheme \<Rightarrow> ('a, 'x, 'z) server_world_scheme)
    \<Rightarrow> nat \<Rightarrow> ('a, 'x, 'z) server_world_scheme \<Rightarrow> ('a, 'x, 'z) server_world_scheme" where
  "start_conn ccb c w = conn_start c (if srv_has_connection_cb w then ccb c w else w)"

text \<open>One accepted descriptor; \<open>operator[]\<close> replaces a stale entry.\<close>

definition accept_conn :: "(nat \<Rightarrow> ('a, 'x, 'z) server_world_scheme \<Rightarrow> ('a, 'x, 'z) server_world_scheme)
    \<Rightarrow> int \<Rightarrow> string \<Rightarrow> rd_result list \<Rightarrow> wr_result list
    \<Rightarrow> ('a, 'x, 'z) server_world_scheme \<Rightarrow> ('a, 'x, 'z) server_world_scheme" where
  "accept_conn ccb fd peer rs ws w =
     (let (sub, p) = next_loop (thread_pool w);
          c = next_cid w;
          cn = (new_connection sub fd peer rs ws)\<lparr>has_message_cb := srv_has_message_cb w, has_close_cb := True\<rparr>;
          w1 = on_loop sub (fd_open fd) (on_conn c (\<lambda>_. cn) (w\<lparr>thread_pool := p, next_cid := c + 1\<rparr>));
          w2 = w1\<lparr>connections := (connections w1)(fd \<mapsto> c)\<rparr>
      in run_in_loop sub (Task (App (StartConn c))) (start_conn ccb c) w2)"

fun accept_loop :: "(nat \<Rightarrow> ('a, 'x, 'z) server_world_scheme \<Rightarrow> ('a, 'x, 'z) server_world_scheme)
    \<Rightarrow> accept_result list \<Rightarrow> ('a, 'x, 'z) server_world_scheme \<Rightarrow> ('a, 'x, 'z) server_world_scheme" where
  "accept_loop ccb [] w = w"
| "accept_loop ccb (AcceptIntr # as) w = accept_loop ccb as w"
| "accept_loop ccb (AcceptErr # as) w = w\<lparr>accept_script := as\<rparr>"
| "accept_loop ccb (Accepted fd peer nonblocking rs ws # as) w =
     accept_loop ccb as (if nonblocking then accept_conn ccb fd peer rs ws w else w)"

definition handle_accept :: "(nat \<Rightarrow> ('a, 'x, 'z) server_world_scheme \<Rightarrow> ('a, 'x, 'z) server_world_scheme)
    \<Rightarrow> ('a, 'x, 'z) server_world_scheme \<Rightarrow> ('a, 'x, 'z) server_world_scheme" where
  "handle_accept ccb w = accept_loop ccb (accept_script w) (w\<lparr>accept_script := []\<rparr>)"

section \<open>Tasks and destruction\<close>

fun run_server_task :: "(nat \<Rightarrow> ('a, 'x, 'z) server_world_scheme \<Rightarrow> ('a, 'x, 'z) server_world_scheme)
    \<Rightarrow> ('a \<Rightarrow> ('a, 'x, 'z) server_world_scheme \<Rightarrow> ('a, 'x, 'z) server_world_scheme)
    \<Rightarrow> 'a server_task \<Rightarrow> ('a, 'x, 'z) server_world_scheme \<Rightarrow> ('a, 'x, 'z) server_world_scheme" where
  "run_server_task ccb app (StartConn c) w = start_conn ccb c w"
| "run_server_task ccb app (RemoveConn c) w = remove_connection_in_loop ccb c w"
| "run_server_task ccb app (NotifyClosed c) w = ccb c w"
| "run_server_task ccb app (CloseConn c) w = conn_close (server_close_cb ccb) c w"
| "run_server_task ccb app (SrvApp a) w = app a w"

text \<open>
  The loop of \<open>~TcpServer\<close> over the table: the nodes in the order of the iteration. Advancing the
  iterator is defined only while the node it points to is still in the table; the result says whether
  every step was.
\<close>

fun destroy_loop :: "(nat \<Rightarrow> ('a, 'x, 'z) server_world_scheme \<Rightarrow> ('a, 'x, 'z) server_world_scheme)
    \<Rightarrow> (int \<times> nat) list \<Rightarrow> ('a, 'x, 'z) server_world_scheme \<Rightarrow> bool \<times> ('a, 'x, 'z) server_world_scheme" where
  "destroy_loop ccb [] w = (True, w)"
| "destroy_loop ccb ((fd, c) # ns) w =
     (let w1 = run_in_loop (loop_of c w) (Task (App (CloseConn c))) (conn_close (server_close_cb ccb) c) w
      in if connections w1 fd = Some c then destroy_loop ccb ns w1 else (False, w1))"

text \<open>The constructor after \<open>create_listen_socket\<close>, which exits the process on any failure.\<close>

definition server_listen :: "int \<Rightarrow> ('a, 'x, 'z) server_world_scheme \<Rightarrow> ('a, 'x, 'z) server_world_scheme" where
  "server_listen listen_fd w =
     (let (ch, l) = enable_reading (this_thread w) (new_channel listen_fd) (loops w main_loop)
      in (on_loop main_loop (\<lambda>_. l) w)\<lparr>accept_channel := ch\<rparr>)"

text \<open>
  The rest of the destructor: \<open>quit\<close> on every loop of the pool (the threads are joined), the table is
  cleared, the acceptor leaves the main loop and its descriptor is closed.
\<close>

definition server_teardown :: "('a, 'x, 'z) server_world_scheme \<Rightarrow> ('a, 'x, 'z) server_world_scheme" where
  "server_teardown w =
     (let w1 = fold (\<lambda>i. on_loop i (quit (this_thread w))) (pool_loops (thread_pool w)) w;
          w2 = w1\<lparr>thread_pool := (thread_pool w1)\<lparr>pool_loops := []\<rparr>, connections := Map.empty\<rparr>;
          (ch, l) = detach_channel (this_thread w2) (accept_channel w2) (loops w2 main_loop)
      in (on_loop main_loop (\<lambda>_. fd_close (ch_fd ch) l) w2)\<lparr>accept_channel := ch\<rparr>)"

section \<open>The contract of the user's callbacks\<close>

lemma conn_adv_cong:
  assumes "conns w2 c = conns w1 c" "loops w2 (loop_of c w1) = loops w1 (loop_of c w1)" "this_thread w2 = this_thread w1"
  shows "conn_ok c w2 = conn_ok c w1" "stream c w2 = stream c w1" "is_open c w2 = is_open c w1"
    "conn_adv c w w2 = conn_adv c w w1" "conn_adv c w2 w = conn_adv c w1 w"
  using assms by (simp_all add: conn_ok_def Let_def stream_def is_open_def conn_adv_def)

text \<open>
  The connection callback of an application takes steps of the connection it is called with, and
  leaves the server's table alone.
\<close>

locale server_ccb =
  fixes ccb :: "nat \<Rightarrow> ('a, 'x, 'z) server_world_scheme \<Rightarrow> ('a, 'x, 'z) server_world_scheme"
  assumes ccb_adv: "conn_ok c w \<Longrightarrow> conn_adv c w (ccb c w)"
    and ccb_connections: "connections (ccb c w) = connections w"
begin

lemma remove_connection_adv:
  assumes "conn_ok c w" "in_loop_thread main_loop w"
  shows "conn_adv c w (remove_connection_in_loop ccb c w)"
proof -
  let ?w1 = "w\<lparr>connections := (connections w)(cn_fd (conns w c) := None)\<rparr>"
  have eq: "conn_ok c ?w1 = conn_ok c w" "conn_adv c ?w1 = conn_adv c w" "in_loop_thread (loop_of c w) ?w1"
    using conn_ok_in_loop [OF assms(1)] by (auto simp: fun_eq_iff conn_ok_def conn_adv_def is_open_def stream_def in_loop_thread_def)
  then have ad: "conn_adv c w ?w1" "conn_adv c w (ccb c ?w1)"
    using ccb_adv [of c ?w1] conn_adv_refl [of c ?w1] assms(1) by auto
  show ?thesis
    using conn_adv_refl [OF assms(1)] ad eq(3) assms(2)
    by (auto simp: remove_connection_in_loop_def run_in_loop_def Let_def split: option.split)
qed

lemma server_close_cb_adv: "conn_ok c w \<Longrightarrow> conn_adv c w (server_close_cb ccb c w)"
  by (auto simp: server_close_cb_def run_in_loop_def intro: remove_connection_adv conn_adv_on_loop)

end

sublocale server_ccb \<subseteq> conn_closer "server_close_cb ccb"
  by unfold_locales (rule server_close_cb_adv)

text \<open>A server application: both callbacks.\<close>

locale server_app = server_ccb ccb for ccb :: "nat \<Rightarrow> ('a, 'x, 'z) server_world_scheme \<Rightarrow> ('a, 'x, 'z) server_world_scheme" +
  fixes mcb :: "nat \<Rightarrow> ('a, 'x, 'z) server_world_scheme \<Rightarrow> ('a, 'x, 'z) server_world_scheme"
  assumes mcb_adv: "conn_ok c w \<Longrightarrow> conn_adv c w (mcb c w)"

sublocale server_app \<subseteq> conn_callbacks "server_cbs mcb ccb"
  by unfold_locales (simp_all add: server_cbs_def mcb_adv server_close_cb_adv conn_adv_refl)

section \<open>Properties\<close>

lemma connections_frame [simp]:
  "connections (on_loop i f w) = connections w" "connections (on_conn c g w) = connections w"
  by (simp_all add: on_loop_def on_conn_def)

context server_ccb
begin

lemma remove_connection_connections:
  assumes "in_loop_thread main_loop w"
  shows "connections (remove_connection_in_loop ccb c w) =
    (if connections w (cn_fd (conns w c)) = Some c then (connections w)(cn_fd (conns w c) := None) else connections w)"
  using assms
  by (auto simp: remove_connection_in_loop_def run_in_loop_def Let_def ccb_connections split: option.split)

lemma close_in_main_loop_erases:
  assumes "conn_ok c w" "is_open c w" "has_close_cb (conns w c)" "in_loop_thread main_loop w"
    "connections w (cn_fd (conns w c)) = Some c"
  shows "connections (conn_close (server_close_cb ccb) c w) (cn_fd (conns w c)) = None"
proof -
  define w1 where "w1 = conn_release c (on_conn c (\<lambda>cn. cn\<lparr>cn_state := kDisconnected\<rparr>) w)"
  note r = conn_close_released [OF assms(1,2) w1_def]
  have fr: "this_thread w1 = this_thread w" "cn_fd (conns w1 c) = cn_fd (conns w c)" "connections w1 = connections w"
    using r(1) by (simp_all add: conn_adv_def w1_def conn_release_def with_channel_def Let_def split: prod.split)
  have "owner_tid (loops w1 main_loop) = owner_tid (loops w main_loop)"
  proof (cases "loop_of c w = main_loop")
    case True
    then show ?thesis using conn_adv_ok [OF r(1)] r(1) assms(4) by (auto simp: conn_ok_def Let_def conn_adv_def in_loop_thread_def)
  next
    case False
    then show ?thesis by (simp add: w1_def conn_release_def with_channel_def Let_def split: prod.split)
  qed
  then have "in_loop_thread main_loop w1" using assms(4) fr(1) by (simp add: in_loop_thread_def)
  then have "conn_close (server_close_cb ccb) c w = remove_connection_in_loop ccb c w1"
    using assms(2,3) r(6) by (simp add: conn_close_def is_open_def server_close_cb_def run_in_loop_def flip: w1_def)
  with remove_connection_connections [OF \<open>in_loop_thread main_loop w1\<close>, of c] fr assms(5) show ?thesis by simp
qed

end

subsection \<open>Distribution over the pool\<close>

text \<open>What one \<open>accept\<close> does when the chosen loop belongs to another thread.\<close>

lemma accept_conn_remote:
  assumes "pool_loops (thread_pool w) \<noteq> []" "sub = pool_loops (thread_pool w) ! pool_next (thread_pool w)"
    "owner_tid (loops w sub) \<noteq> this_thread w" "w' = accept_conn ccb fd peer rs ws w" "c = next_cid w"
  shows "conns w' = (conns w)(c := (new_connection sub fd peer rs ws)\<lparr>has_message_cb := srv_has_message_cb w, has_close_cb := True\<rparr>)"
    "connections w' = (connections w)(fd \<mapsto> c)" "next_cid w' = Suc (next_cid w)" "this_thread w' = this_thread w"
    "thread_pool w' = (thread_pool w)\<lparr>pool_next := (pool_next (thread_pool w) + 1) mod length (pool_loops (thread_pool w))\<rparr>"
    "srv_has_message_cb w' = srv_has_message_cb w" "owner_tid (loops w' i) = owner_tid (loops w i)"
    "pending_functors (loops w' i) = pending_functors (loops w i) @ (if i = sub then [Task (App (StartConn c))] else [])"
    "i = sub \<Longrightarrow> wakeup_cnt (loops w' i) > 0" "wakeup_cnt (loops w' i) \<ge> wakeup_cnt (loops w i)"
proof -
  have own: "owner_tid (fd_open fd l) = owner_tid l" "pending_functors (fd_open fd l) = pending_functors l"
    "wakeup_cnt (fd_open fd l) = wakeup_cnt l" for l :: "'a server_task conn_task task event_loop"
    by (simp_all add: fd_open_def)
  define w2 where "w2 = (on_loop sub (fd_open fd) (on_conn c (\<lambda>_. (new_connection sub fd peer rs ws)
      \<lparr>has_message_cb := srv_has_message_cb w, has_close_cb := True\<rparr>)
      (w\<lparr>thread_pool := (thread_pool w)\<lparr>pool_next := (pool_next (thread_pool w) + 1) mod length (pool_loops (thread_pool w))\<rparr>,
         next_cid := c + 1\<rparr>)))\<lparr>connections := (connections w)(fd \<mapsto> c)\<rparr>"
  have "\<not> in_loop_thread sub w2" using assms(3) by (simp add: in_loop_thread_def w2_def own)
  then have w': "w' = on_loop sub (queue_in_loop (this_thread w) (Task (App (StartConn c)))) w2"
    using assms by (simp add: accept_conn_def next_loop_def run_in_loop_def w2_def Let_def)
  show "conns w' = (conns w)(c := (new_connection sub fd peer rs ws)\<lparr>has_message_cb := srv_has_message_cb w, has_close_cb := True\<rparr>)"
    "connections w' = (connections w)(fd \<mapsto> c)" "next_cid w' = Suc (next_cid w)" "this_thread w' = this_thread w"
    "thread_pool w' = (thread_pool w)\<lparr>pool_next := (pool_next (thread_pool w) + 1) mod length (pool_loops (thread_pool w))\<rparr>"
    "srv_has_message_cb w' = srv_has_message_cb w" "owner_tid (loops w' i) = owner_tid (loops w i)"
    "pending_functors (loops w' i) = pending_functors (loops w i) @ (if i = sub then [Task (App (StartConn c))] else [])"
    by (simp_all add: w' w2_def on_loop_def on_conn_def own assms(5))
  show "i = sub \<Longrightarrow> wakeup_cnt (loops w' i) > 0"
    using assms(3) by (simp add: w' queue_in_loop_wakes w2_def own)
  show "wakeup_cnt (loops w' i) \<ge> wakeup_cnt (loops w i)"
    by (simp add: w' w2_def own queue_in_loop_def push_functor_def wakeup_def Let_def)
qed

abbreviation accepts :: "(int \<times> string \<times> rd_result list \<times> wr_result list) list \<Rightarrow> accept_result list" where
  "accepts xs \<equiv> map (\<lambda>(fd, peer, rs, ws). Accepted fd peer True rs ws) xs"

text \<open>The loop that serves the connection accepted after \<open>k\<close> others.\<close>

definition served_by :: "pool \<Rightarrow> nat \<Rightarrow> nat" where
  "served_by p k = pool_loops p ! ((pool_next p + k) mod length (pool_loops p))"

definition pool_ready :: "('a, 'x, 'z) server_world_scheme \<Rightarrow> bool" where
  "pool_ready w \<longleftrightarrow> pool_next (thread_pool w) < length (pool_loops (thread_pool w))
     \<and> (\<forall>i\<in>set (pool_loops (thread_pool w)). owner_tid (loops w i) \<noteq> this_thread w)"

lemma accept_conn_ready:
  assumes "pool_ready w" "w1 = accept_conn ccb fd peer rs ws w"
  shows "pool_ready w1" "served_by (thread_pool w1) k = served_by (thread_pool w) (Suc k)" "next_cid w1 = Suc (next_cid w)"
    "srv_has_message_cb w1 = srv_has_message_cb w" "connections w1 = (connections w)(fd \<mapsto> next_cid w)"
    "conns w1 = (conns w)(next_cid w := (new_connection (served_by (thread_pool w) 0) fd peer rs ws)
       \<lparr>has_message_cb := srv_has_message_cb w, has_close_cb := True\<rparr>)"
    "pending_functors (loops w1 i) = pending_functors (loops w i)
       @ (if i = served_by (thread_pool w) 0 then [Task (App (StartConn (next_cid w)))] else [])"
    "wakeup_cnt (loops w i) \<le> wakeup_cnt (loops w1 i)" "wakeup_cnt (loops w1 (served_by (thread_pool w) 0)) > 0"
proof -
  have ne: "pool_loops (thread_pool w) \<noteq> []" "pool_next (thread_pool w) < length (pool_loops (thread_pool w))"
    using assms(1) by (auto simp: pool_ready_def)
  then have sub: "served_by (thread_pool w) 0 = pool_loops (thread_pool w) ! pool_next (thread_pool w)"
    by (simp add: served_by_def)
  then have "owner_tid (loops w (served_by (thread_pool w) 0)) \<noteq> this_thread w"
    using assms(1) ne by (auto simp: pool_ready_def)
  note a = accept_conn_remote [OF ne(1) sub this assms(2) refl]
  show "pool_ready w1" using assms(1) ne by (simp add: pool_ready_def a)
  show "served_by (thread_pool w1) k = served_by (thread_pool w) (Suc k)"
    by (simp add: served_by_def a mod_add_left_eq)
  show "next_cid w1 = Suc (next_cid w)"
    "srv_has_message_cb w1 = srv_has_message_cb w" "connections w1 = (connections w)(fd \<mapsto> next_cid w)"
    "conns w1 = (conns w)(next_cid w := (new_connection (served_by (thread_pool w) 0) fd peer rs ws)
       \<lparr>has_message_cb := srv_has_message_cb w, has_close_cb := True\<rparr>)"
    "pending_functors (loops w1 i) = pending_functors (loops w i)
       @ (if i = served_by (thread_pool w) 0 then [Task (App (StartConn (next_cid w)))] else [])"
    "wakeup_cnt (loops w i) \<le> wakeup_cnt (loops w1 i)" "wakeup_cnt (loops w1 (served_by (thread_pool w) 0)) > 0"
    by (rule a refl)+
qed

lemma accept_loop_conns:
  "pool_ready w \<Longrightarrow> (\<forall>c < next_cid w. conns (accept_loop ccb (accepts xs) w) c = conns w c)
    \<and> (\<forall>k < length xs. case xs ! k of (fd, peer, rs, ws) \<Rightarrow>
         conns (accept_loop ccb (accepts xs) w) (next_cid w + k) = (new_connection (served_by (thread_pool w) k) fd peer rs ws)
           \<lparr>has_message_cb := srv_has_message_cb w, has_close_cb := True\<rparr>)"
proof (induction xs arbitrary: w)
  case (Cons x xs)
  obtain fd peer rs ws where x: "x = (fd, peer, rs, ws)" by (metis prod_cases4)
  define w1 where "w1 = accept_conn ccb fd peer rs ws w"
  note a = accept_conn_ready [OF Cons.prems w1_def] and ih = Cons.IH [OF accept_conn_ready(1) [OF Cons.prems w1_def]]
  have acc: "accept_loop ccb (accepts (x # xs)) w = accept_loop ccb (accepts xs) w1" by (simp add: x w1_def)
  have "\<forall>c < Suc (next_cid w). conns (accept_loop ccb (accepts xs) w1) c = conns w1 c" using ih a(3) by simp
  moreover have "case xs ! k of (fd, peer, rs, ws) \<Rightarrow>
         conns (accept_loop ccb (accepts xs) w1) (Suc (next_cid w + k)) = (new_connection (served_by (thread_pool w) (Suc k)) fd peer rs ws)
           \<lparr>has_message_cb := srv_has_message_cb w, has_close_cb := True\<rparr>" if "k < length xs" for k
    using ih that a(2-4) by (auto split: prod.splits)
  ultimately show ?case
    unfolding acc by (auto simp: a(6) x nth_Cons split: nat.split)
qed simp

lemma accept_loop_connections:
  "pool_ready w \<Longrightarrow> connections (accept_loop ccb (accepts xs) w)
     = connections w ++ map_of (rev (zip (map fst xs) [next_cid w..<next_cid w + length xs]))"
proof (induction xs arbitrary: w)
  case (Cons x xs)
  obtain fd peer rs ws where x: "x = (fd, peer, rs, ws)" by (metis prod_cases4)
  define w1 where "w1 = accept_conn ccb fd peer rs ws w"
  note a = accept_conn_ready [OF Cons.prems w1_def]
  have "connections w1 ++ m = connections w ++ ([fd \<mapsto> next_cid w] ++ m)" for m
    by (rule ext) (simp add: a(5) map_add_def split: option.split)
  then show ?case
    using Cons.IH [OF a(1)] by (simp add: x a(3) upt_conv_Cons flip: w1_def del: upt_Suc)
qed simp

lemma accept_loop_pending:
  "pool_ready w \<Longrightarrow> pending_functors (loops (accept_loop ccb (accepts xs) w) i) = pending_functors (loops w i)
     @ map (\<lambda>k. Task (App (StartConn (next_cid w + k)))) (filter (\<lambda>k. served_by (thread_pool w) k = i) [0..<length xs])"
proof (induction xs arbitrary: w)
  case (Cons x xs)
  obtain fd peer rs ws where x: "x = (fd, peer, rs, ws)" by (metis prod_cases4)
  define w1 where "w1 = accept_conn ccb fd peer rs ws w"
  note a = accept_conn_ready [OF Cons.prems w1_def]
  have "[0..<length (x # xs)] = 0 # map Suc [0..<length xs]" by (simp add: map_Suc_upt upt_conv_Cons del: upt_Suc)
  then show ?case
    using Cons.IH [OF a(1)] by (auto simp: x a(2,3,7) filter_map comp_def simp flip: w1_def simp del: upt_Suc)
qed simp

lemma accept_loop_wakes:
  "pool_ready w \<Longrightarrow> wakeup_cnt (loops w i) \<le> wakeup_cnt (loops (accept_loop ccb (accepts xs) w) i)
     \<and> (k < length xs \<longrightarrow> wakeup_cnt (loops (accept_loop ccb (accepts xs) w) (served_by (thread_pool w) k)) > 0)"
proof (induction xs arbitrary: w k i)
  case (Cons x xs)
  obtain fd peer rs ws where x: "x = (fd, peer, rs, ws)" by (metis prod_cases4)
  define w1 where "w1 = accept_conn ccb fd peer rs ws w"
  note a = accept_conn_ready [OF Cons.prems w1_def] and ih = Cons.IH [OF accept_conn_ready(1) [OF Cons.prems w1_def]]
  have acc: "accept_loop ccb (accepts (x # xs)) w = accept_loop ccb (accepts xs) w1" by (simp add: x w1_def)
  have "wakeup_cnt (loops w i) \<le> wakeup_cnt (loops (accept_loop ccb (accepts xs) w1) i)" for i
    using a(8) [of i] conjunct1 [OF ih, of i] by (rule order.trans)
  moreover have "wakeup_cnt (loops (accept_loop ccb (accepts xs) w1) (served_by (thread_pool w) k)) > 0" if "k < Suc (length xs)"
    using that a(9) conjunct1 [OF ih, of "served_by (thread_pool w) 0"] conjunct2 [OF ih, of "k - 1"] a(2) [of "k - 1"]
    by (cases k) auto
  ultimately show ?case unfolding acc by simp
qed simp

lemma map_of_rev_last_index:
  "k < length xs \<Longrightarrow> fst (xs ! k) \<notin> fst ` set (drop (Suc k) xs) \<Longrightarrow>
     (m ++ map_of (rev (zip (map fst xs) [n..<n + length xs]))) (fst (xs ! k)) = Some (n + k)"
proof (induction xs arbitrary: k n m)
  case (Cons x xs)
  show ?case
  proof (cases k)
    case 0
    then have "map_of (rev (zip (map fst xs) [Suc n..<Suc n + length xs])) (fst x) = None"
      using Cons.prems(2) by (auto simp: map_of_eq_None_iff simp del: upt_Suc dest!: set_zip_leftD)
    then show ?thesis using 0 by (simp add: upt_conv_Cons map_add_def del: upt_Suc)
  next
    case (Suc j)
    then have "(m(fst x \<mapsto> n) ++ map_of (rev (zip (map fst xs) [Suc n..<Suc n + length xs]))) (fst (xs ! j)) = Some (Suc n + j)"
      using Cons.IH [of j "m(fst x \<mapsto> n)" "Suc n"] Cons.prems Suc by (simp add: fun_upd_def del: upt_Suc)
    then show ?thesis using Suc by (auto simp: upt_conv_Cons map_add_def simp del: upt_Suc split: option.splits if_splits)
  qed
qed simp

text \<open>
  With a pool of IO threads, one run of \<open>handle_accept\<close> over any number of waiting clients gives
  the k-th of them to the loops of the pool in turn, starting where the last run stopped; each new
  connection is open, belongs to that loop and is found in the table under its descriptor (the last
  one, if a descriptor was reused); each loop receives the start functors of exactly its connections
  in the order of arrival, and is woken up. Earlier connections are not touched.
\<close>

theorem handle_accept_distributes:
  assumes "pool_next (thread_pool w) < length (pool_loops (thread_pool w))"
    "\<forall>i\<in>set (pool_loops (thread_pool w)). owner_tid (loops w i) \<noteq> this_thread w"
    "accept_script w = accepts xs" "w' = handle_accept ccb w"
  shows "(\<forall>k < length xs. case xs ! k of (fd, peer, rs, ws) \<Rightarrow>
            cn_loop (conns w' (next_cid w + k)) = pool_loops (thread_pool w) ! ((pool_next (thread_pool w) + k) mod length (pool_loops (thread_pool w)))
            \<and> cn_fd (conns w' (next_cid w + k)) = fd \<and> connected (next_cid w + k) w')
     \<and> (\<forall>c < next_cid w. conns w' c = conns w c)
     \<and> (\<forall>k < length xs. fst (xs ! k) \<notin> fst ` set (drop (Suc k) xs) \<longrightarrow> connections w' (fst (xs ! k)) = Some (next_cid w + k))
     \<and> (\<forall>i. pending_functors (loops w' i) = pending_functors (loops w i)
            @ map (\<lambda>k. Task (App (StartConn (next_cid w + k)))) (filter (\<lambda>k. served_by (thread_pool w) k = i) [0..<length xs]))
     \<and> (\<forall>k < length xs. wakeup_cnt (loops w' (served_by (thread_pool w) k)) > 0)"
proof -
  let ?w = "w\<lparr>accept_script := []\<rparr>"
  have r: "pool_ready ?w" using assms(1,2) by (simp add: pool_ready_def)
  have w': "w' = accept_loop ccb (accepts xs) ?w" by (simp add: assms(3,4) handle_accept_def)
  note ac = accept_loop_conns [OF r, of ccb xs, folded w'] and an = accept_loop_connections [OF r, of ccb xs, folded w']
    and ap = accept_loop_pending [OF r, of ccb xs, folded w'] and aw = accept_loop_wakes [OF r, of _ ccb xs, folded w']
  have "connections w' (fst (xs ! k)) = Some (next_cid w + k)" if "k < length xs" "fst (xs ! k) \<notin> fst ` set (drop (Suc k) xs)" for k
    using that by (simp add: an map_of_rev_last_index)
  moreover have "case xs ! k of (fd, peer, rs, ws) \<Rightarrow> cn_loop (conns w' (next_cid w + k)) = served_by (thread_pool w) k
      \<and> cn_fd (conns w' (next_cid w + k)) = fd \<and> connected (next_cid w + k) w'" if "k < length xs" for k
    using ac that by (auto simp: connected_def new_connection_def split: prod.splits)
  ultimately show ?thesis using ac ap aw unfolding served_by_def by auto
qed

text \<open>A server with two IO threads and three clients waiting; thread \<open>i\<close> runs loop \<open>i\<close>.\<close>

definition sample_server_of :: "accept_result list \<Rightarrow> (nat, 'x) server_world" where
  "sample_server_of as = \<lparr>loops = (\<lambda>i. new_event_loop i 5 6 []), this_thread = 0, steady_now = 100,
     conns = (\<lambda>_. new_connection 0 0 [] [] []), connections = Map.empty, thread_pool = pool_start (new_pool 2),
     next_cid = 0, accept_script = as, accept_channel = new_channel 4, srv_has_message_cb = True, srv_has_connection_cb = True\<rparr>"

abbreviation sample_server :: "accept_result list \<Rightarrow> (nat, nat) server_world" where
  "sample_server \<equiv> sample_server_of"

lemma sample_owner [simp]: "owner_tid (new_event_loop i 5 6 []) = i"
  by (simp add: new_event_loop_def channel_ops update_channel_def epoll_add_def ctl_fault_def new_channel_def Let_def)

lemma sample_pool [simp]:
  "pool_loops (pool_start (new_pool 2)) = [1, 2]" "pool_next (pool_start (new_pool 2)) = 0"
  by (simp_all add: pool_start_def new_pool_def upt_rec)

theorem handle_accept_distributes_witness:
  "map (\<lambda>c. cn_loop (conns (handle_accept (\<lambda>_ w. w) (sample_server
      [Accepted 7 ''a'' True [] [], Accepted 8 ''b'' True [] [], Accepted 9 ''c'' True [] []])) c)) [0, 1, Suc 1] = [1, 2, 1]"
proof -
  let ?xs = "[(7, ''a'', [], []), (8, ''b'', [], []), (9, ''c'', [], [])] :: (int \<times> string \<times> rd_result list \<times> wr_result list) list"
  let ?w = "sample_server (accepts ?xs)"
  have "pool_next (thread_pool ?w) < length (pool_loops (thread_pool ?w))"
    "\<forall>i\<in>set (pool_loops (thread_pool ?w)). owner_tid (loops ?w i) \<noteq> this_thread ?w" "accept_script ?w = accepts ?xs"
    by (simp_all add: sample_server_of_def)
  note d = handle_accept_distributes [OF this refl, THEN conjunct1, of "\<lambda>_ w. w"]
  have "next_cid ?w = 0" "thread_pool ?w = pool_start (new_pool 2)" by (simp_all add: sample_server_of_def)
  with d [rule_format, of 0] d [rule_format, of 1] d [rule_format, of 2] show ?thesis by simp
qed

subsection \<open>Closing\<close>

text \<open>
  \<open>remove_connection_in_loop\<close> erases the entry of the connection it was called for and nothing
  else: if the descriptor number has been given to a new connection in the meantime, the new entry
  stays.
\<close>

theorem remove_connection_exact:
  assumes "server_ccb ccb" "in_loop_thread main_loop w"
  shows "connections (remove_connection_in_loop ccb c w) =
    (if connections w (cn_fd (conns w c)) = Some c then (connections w)(cn_fd (conns w c) := None) else connections w)"
  by (rule server_ccb.remove_connection_connections [OF assms])

text \<open>The connection callback of \<open>log_server\<close> only prints.\<close>

lemma server_ccb_print: "server_ccb (\<lambda>_ w. w)"
  by unfold_locales (simp_all add: conn_adv_refl)

theorem remove_connection_exact_witness:
  "connections (remove_connection_in_loop (\<lambda>_ w. w) 0 ((sample_server [])\<lparr>connections := [0 \<mapsto> 1]\<rparr>)) 0 = Some 1"
proof -
  let ?w = "(sample_server [])\<lparr>connections := [0 \<mapsto> 1]\<rparr>"
  have "in_loop_thread main_loop ?w" by (simp add: in_loop_thread_def main_loop_def sample_server_of_def)
  from remove_connection_exact [OF server_ccb_print this, of 0] show ?thesis
    by (simp add: sample_server_of_def new_connection_def)
qed

text \<open>
  The destructor with a pool: closing is handed to the loop of each connection, in the order of
  the table, the loops are woken up, and the table is not changed while it is iterated over.
\<close>

theorem server_destroy_pool:
  assumes "\<forall>(fd, c)\<in>set ns. connections w fd = Some c \<and> owner_tid (loops w (loop_of c w)) \<noteq> this_thread w"
  shows "fst (destroy_loop ccb ns w) \<and> connections (snd (destroy_loop ccb ns w)) = connections w
    \<and> pending_functors (loops (snd (destroy_loop ccb ns w)) i) = pending_functors (loops w i)
        @ map (\<lambda>(fd, c). Task (App (CloseConn c))) (filter (\<lambda>(fd, c). loop_of c w = i) ns)"
  using assms
proof (induction ns arbitrary: w)
  case (Cons n ns)
  obtain fd c where n: "n = (fd, c)" by fastforce
  let ?w1 = "on_loop (loop_of c w) (queue_in_loop (this_thread w) (Task (App (CloseConn c)))) w"
  have "run_in_loop (loop_of c w) (Task (App (CloseConn c))) (conn_close (server_close_cb ccb) c) w = ?w1"
    using Cons.prems by (auto simp: n run_in_loop_def in_loop_thread_def)
  then have d: "destroy_loop ccb (n # ns) w = destroy_loop ccb ns ?w1"
    using Cons.prems by (auto simp: n Let_def)
  have "\<forall>(fd, c)\<in>set ns. connections ?w1 fd = Some c \<and> owner_tid (loops ?w1 (loop_of c ?w1)) \<noteq> this_thread ?w1"
    using Cons.prems by auto
  from Cons.IH [OF this] show ?case unfolding d by (simp add: n)
qed simp

theorem server_destroy_pool_witness:
  "fst (destroy_loop (\<lambda>_ w. w) [(0, 5)]
     ((sample_server [])\<lparr>connections := [0 \<mapsto> 5], conns := (\<lambda>_. new_connection 2 0 [] [] [])\<rparr>))"
  using server_destroy_pool [of "[(0, 5)]" "(sample_server [])\<lparr>connections := [0 \<mapsto> 5], conns := (\<lambda>_. new_connection 2 0 [] [] [])\<rparr>"]
  by (simp add: sample_server_of_def new_connection_def)

text \<open>
  The destructor without a pool, where connections belong to the main loop: closing the first open
  connection erases its node from the table while the range-based loop stands on it, so the loop
  advances an invalid iterator.
\<close>

theorem server_destroy_single_reactor:
  assumes "server_ccb ccb" "conn_ok c w" "is_open c w" "has_close_cb (conns w c)"
    "loop_of c w = main_loop" "connections w (cn_fd (conns w c)) = Some c"
  shows "\<not> fst (destroy_loop ccb ((cn_fd (conns w c), c) # ns) w)"
proof -
  have "in_loop_thread main_loop w" using conn_ok_in_loop [OF assms(2)] assms(5) by simp
  with server_ccb.close_in_main_loop_erases [OF assms(1-4) this assms(6)] show ?thesis
    by (simp add: run_in_loop_def Let_def assms(5))
qed

theorem server_destroy_single_reactor_witness:
  "\<not> fst (destroy_loop (\<lambda>_ w. w) [(9, 5)] ((sample_server [])\<lparr>connections := [9 \<mapsto> 5],
      conns := (\<lambda>_. (new_connection 0 9 [] [] [])\<lparr>has_close_cb := True\<rparr>)\<rparr>))"
proof -
  let ?w = "(sample_server [])\<lparr>connections := [9 \<mapsto> 5], conns := (\<lambda>_. (new_connection 0 9 [] [] [])\<lparr>has_close_cb := True\<rparr>)\<rparr>"
  have "conn_ok 5 ?w"
    by (simp add: conn_ok_def sample_server_of_def new_connection_def registered_def new_event_loop_def channel_ops update_channel_def
        epoll_add_def ctl_fault_def new_channel_def is_writing_def)
  then show ?thesis
    using server_destroy_single_reactor [OF server_ccb_print, of 5 ?w "[]"]
    by (simp add: sample_server_of_def new_connection_def is_open_def main_loop_def)
qed

text \<open>
  The comment in the destructor says that connections are safely taken off before a loop of the
  pool ends. It is not so: if the loop thread is past its last swap when the closing functor arrives,
  the next thing it reads is the quit flag, and \<open>loop\<close> returns with the functor still queued and the
  connection open. Dropping the last reference on the main thread then runs \<open>~Connection\<close>, which goes
  through \<open>update_channel\<close> of the finished loop on the wrong thread and aborts.
\<close>

theorem teardown_leaves_open_connection:
  assumes "is_open c w" "loop_of c w = i" "owner_tid (loops w i) \<noteq> this_thread w" "0 \<le> cn_fd (conns w c)"
    "w1 = on_loop i (quit (this_thread w)) (on_loop i (queue_in_loop (this_thread w) (Task (App (CloseConn c)))) w)"
  shows "loop_run ev run i batches (w1\<lparr>this_thread := owner_tid (loops w i)\<rparr>) = (True, w1\<lparr>this_thread := owner_tid (loops w i)\<rparr>)
    \<and> Task (App (CloseConn c)) \<in> set (pending_functors (loops w1 i)) \<and> is_open c w1
    \<and> loop_aborted (loops (conn_destroy c w1) i)"
proof -
  have own: "owner_tid (quit t l) = owner_tid l" "quit_flag (quit t l)" "pending_functors (quit t l) = pending_functors l"
    for t and l :: "'a server_task conn_task task event_loop"
    by (simp_all add: quit_def Let_def wakeup_def)
  have ow: "owner_tid (loops w1 i) = owner_tid (loops w i)" "quit_flag (loops w1 i)" "this_thread w1 = this_thread w"
    "conns w1 = conns w" "Task (App (CloseConn c)) \<in> set (pending_functors (loops w1 i))"
    by (simp_all add: assms(5) own)
  have u: "disable_all (this_thread w) ch (loops w1 i) = (ch\<lparr>ch_events := 0\<rparr>, (loops w1 i)\<lparr>loop_aborted := True\<rparr>)"
    "remove_channel (this_thread w) ch ((loops w1 i)\<lparr>loop_aborted := True\<rparr>) = (ch, (loops w1 i)\<lparr>loop_aborted := True\<rparr>)" for ch
    using assms(3) ow(1) by (simp_all add: disable_all_def update_channel_def remove_channel_def)
  have "loop_aborted (loops (conn_destroy c w1) i)"
    using assms(1,2,4) by (simp add: conn_destroy_def conn_release_def with_channel_def is_open_def ow u fd_close_def Let_def)
  then show ?thesis
    using ow assms(1) by (simp add: loop_run.simps in_loop_thread_def is_open_def)
qed

theorem teardown_leaves_open_connection_witness:
  "\<exists>w1 :: (nat, nat) server_world. Task (App (CloseConn 5)) \<in> set (pending_functors (loops w1 2)) \<and> quit_flag (loops w1 2)
     \<and> loop_aborted (loops (conn_destroy 5 w1) 2)"
proof -
  let ?w = "(sample_server [])\<lparr>conns := (\<lambda>_. new_connection 2 9 [] [] [])\<rparr>"
  let ?w1 = "on_loop 2 (quit (this_thread ?w)) (on_loop 2 (queue_in_loop (this_thread ?w) (Task (App (CloseConn 5)))) ?w)"
  have "quit_flag (loops ?w1 2)" by (simp add: quit_def Let_def wakeup_def)
  moreover have "is_open 5 ?w" "loop_of 5 ?w = 2" "owner_tid (loops ?w 2) \<noteq> this_thread ?w" "0 \<le> cn_fd (conns ?w 5)"
    by (simp_all add: is_open_def new_connection_def sample_server_of_def)
  note t = teardown_leaves_open_connection [OF this refl]
  ultimately show ?thesis using t by blast
qed

end
