(* ===== verification/Text.thy ===== *)
theory Text
  imports Prelude
begin

text \<open>
  What the source uses of \<open><string>\<close>, \<open><string_view>\<close>, \<open><cctype>\<close> and \<open><cstdlib>\<close>: searching for a
  character, \<open>std::to_string\<close>, \<open>std::tolower\<close> and \<open>std::strtol\<close> in the C locale.
\<close>

section \<open>Decimal numbers\<close>

definition digit :: "nat \<Rightarrow> char" where
  "digit n = char_of (48 + n)"

definition is_digit :: "char \<Rightarrow> bool" where
  "is_digit c \<longleftrightarrow> 48 \<le> (of_char c :: nat) \<and> (of_char c :: nat) \<le> 57"

definition digit_value :: "char \<Rightarrow> nat" where
  "digit_value c = of_char c - 48"

fun to_string :: "nat \<Rightarrow> string" where
  "to_string n = (if n < 10 then [digit n] else to_string (n div 10) @ [digit (n mod 10)])"

declare to_string.simps [simp del]

definition decimal_value :: "string \<Rightarrow> nat" where
  "decimal_value ds = foldl (\<lambda>a c. 10 * a + digit_value c) 0 ds"

lemma of_char_digit: "n < 10 \<Longrightarrow> (of_char (digit n) :: nat) = 48 + n"
  by (simp add: digit_def)

lemma digit_props [simp]: "n < 10 \<Longrightarrow> is_digit (digit n)" "n < 10 \<Longrightarrow> digit_value (digit n) = n"
  by (simp_all add: is_digit_def digit_value_def of_char_digit)

lemma to_string_digits: "\<forall>c\<in>set (to_string n). is_digit c"
  by (induction n rule: to_string.induct) (subst to_string.simps, auto)

lemma to_string_not_Nil [simp]: "to_string n \<noteq> []"
  by (subst to_string.simps) simp

lemma decimal_value_to_string [simp]: "decimal_value (to_string n) = n"
proof (induction n rule: to_string.induct)
  case (1 n)
  show ?case
  proof (cases "n < 10")
    case True
    then show ?thesis by (subst to_string.simps) (simp add: decimal_value_def)
  next
    case False
    then show ?thesis using 1 by (subst to_string.simps) (simp add: decimal_value_def)
  qed
qed

lemma to_string_inject [simp]: "to_string m = to_string n \<longleftrightarrow> m = n"
  by (metis decimal_value_to_string)

lemma length_to_string: "n < 10 ^ Suc k \<Longrightarrow> length (to_string n) \<le> Suc k"
proof (induction k arbitrary: n)
  case 0
  then show ?case by (subst to_string.simps) simp
next
  case (Suc k)
  then have "n div 10 < 10 ^ Suc k" by (simp add: less_mult_imp_div_less)
  then show ?case using Suc.IH [of "n div 10"] by (subst to_string.simps) simp
qed

lemma not_digit [simp]:
  "\<not> is_digit CHR '' ''" "\<not> is_digit CHR ''.''" "\<not> is_digit CHR '':''" "\<not> is_digit CHR ''/''" "\<not> is_digit CHR ''+''" "\<not> is_digit CHR ''-''"
  "\<not> is_digit (CHR 0x0D)" "\<not> is_digit (CHR 0x0A)"
  by (simp_all add: is_digit_def)

text \<open>
  \<open>strtol\<close> with base 10: white space, a sign, digits. The result is the value and the unread rest; the
  rest is the whole input if there is no digit. Values beyond the range of \<open>long\<close> are clamped to it by
  the callers that could see them; the scan of the log directory discards every value above \<open>1000000\<close>.
\<close>

definition is_space :: "char \<Rightarrow> bool" where
  "is_space c \<longleftrightarrow> c = CHR '' '' \<or> (9 \<le> (of_char c :: nat) \<and> (of_char c :: nat) \<le> 13)"

definition strtol :: "string \<Rightarrow> int \<times> string" where
  "strtol s =
     (let s1 = dropWhile is_space s;
          neg = (s1 \<noteq> [] \<and> hd s1 = CHR ''-'');
          s2 = (if s1 \<noteq> [] \<and> (hd s1 = CHR ''-'' \<or> hd s1 = CHR ''+'') then tl s1 else s1);
          ds = takeWhile is_digit s2
      in if ds = [] then (0, s)
         else ((if neg then - int (decimal_value ds) else int (decimal_value ds)), dropWhile is_digit s2))"

lemma digit_not_space: "is_digit c \<Longrightarrow> \<not> is_space c \<and> c \<noteq> CHR ''-'' \<and> c \<noteq> CHR ''+''"
  by (auto simp: is_digit_def is_space_def)

lemma strtol_to_string [simp]: "strtol (to_string n) = (int n, [])"
proof -
  have all: "takeWhile is_digit (to_string n) = to_string n" "dropWhile is_digit (to_string n) = []"
    using to_string_digits by (auto simp: takeWhile_eq_all_conv dropWhile_eq_Nil_conv)
  obtain c cs where c: "to_string n = c # cs" by (metis list.exhaust to_string_not_Nil)
  then have "is_digit c" using to_string_digits [of n] by simp
  note nd = digit_not_space [OF this]
  then have "dropWhile is_space (to_string n) = to_string n" by (simp add: c)
  moreover have "hd (to_string n) \<noteq> CHR ''-''" "hd (to_string n) \<noteq> CHR ''+''" using nd by (simp_all add: c)
  ultimately show ?thesis unfolding strtol_def Let_def by (simp add: all del: takeWhile_eq_all_conv dropWhile_eq_Nil_conv)
qed

text \<open>\<open>atoi\<close> is \<open>strtol\<close> cast to \<open>int\<close>.\<close>

definition atoi :: "string \<Rightarrow> int" where
  "atoi s = (let v = max (- (2 ^ 63)) (min (2 ^ 63 - 1) (fst (strtol s))) in (v + 2 ^ 31) mod 2 ^ 32 - 2 ^ 31)"

lemma atoi_to_string: "n < 2 ^ 31 \<Longrightarrow> atoi (to_string n) = int n"
  by (simp add: atoi_def)

lemma atoi_range: "- (2 ^ 31) \<le> atoi s" "atoi s < 2 ^ 31"
  by (simp_all add: atoi_def Let_def less_diff_eq algebra_simps)

section \<open>Characters in strings\<close>

text \<open>\<open>string_view::find(c, from)\<close>.\<close>

fun find_char :: "char \<Rightarrow> string \<Rightarrow> nat option" where
  "find_char c [] = None"
| "find_char c (d # ds) = (if d = c then Some 0 else map_option Suc (find_char c ds))"

definition find_char_from :: "char \<Rightarrow> nat \<Rightarrow> string \<Rightarrow> nat option" where
  "find_char_from c from s = map_option (\<lambda>i. i + from) (find_char c (drop from s))"

lemma find_char_None [simp]: "find_char c s = None \<longleftrightarrow> c \<notin> set s"
  by (induction s) auto

lemma find_char_append: "c \<notin> set s \<Longrightarrow> find_char c (s @ c # t) = Some (length s)"
  by (induction s) auto

lemma find_char_Some: "find_char c s = Some i \<Longrightarrow> i < length s \<and> s ! i = c \<and> c \<notin> set (take i s)"
  by (induction s arbitrary: i) (auto split: if_splits)

text \<open>\<open>std::tolower\<close> in the C locale.\<close>

definition tolower :: "char \<Rightarrow> char" where
  "tolower c = (if 65 \<le> (of_char c :: nat) \<and> (of_char c :: nat) \<le> 90 then char_of ((of_char c :: nat) + 32) else c)"

lemma tolower_tolower [simp]: "tolower (tolower c) = tolower c"
  by (auto simp: tolower_def)

end
