(* ===== verification/Http_Message.thy ===== *)
theory Http_Message
  imports Buffer Text "HOL-Library.AList"
begin

text \<open>
  \<open>src/http/http_request.h\<close>, \<open>http_context.h\<close> and \<open>http_response.h\<close>: the request, the parser that
  is fed from an input buffer across reads, and the response.

  The header tables are \<open>std::unordered_map\<close>: that of the request is only looked up and is a map; that
  of the response is iterated over, in an order the standard leaves open, and is a list of pairs with
  distinct keys whose order stands for that order.
\<close>

section \<open>Request\<close>

datatype http_method = kInvalid | kGet | kPost | kHead | kPut | kDelete

datatype http_version = kUnknown | kHttp10 | kHttp11

record http_request =
  rq_method :: http_method
  rq_version :: http_version
  rq_path :: string
  rq_query :: string
  rq_headers :: "string \<rightharpoonup> string"

definition new_request :: http_request where
  "new_request = \<lparr>rq_method = kInvalid, rq_version = kUnknown, rq_path = [], rq_query = [], rq_headers = Map.empty\<rparr>"

definition set_method :: "string \<Rightarrow> http_request \<Rightarrow> http_request" where
  "set_method m r = r\<lparr>rq_method :=
     (if m = ''GET'' then kGet else if m = ''POST'' then kPost else if m = ''HEAD'' then kHead
      else if m = ''PUT'' then kPut else if m = ''DELETE'' then kDelete else kInvalid)\<rparr>"

fun method_string :: "http_method \<Rightarrow> string" where
  "method_string kGet = ''GET''"
| "method_string kPost = ''POST''"
| "method_string kHead = ''HEAD''"
| "method_string kPut = ''PUT''"
| "method_string kDelete = ''DELETE''"
| "method_string kInvalid = ''INVALID''"

definition add_header :: "string \<Rightarrow> string \<Rightarrow> http_request \<Rightarrow> http_request" where
  "add_header key val r = r\<lparr>rq_headers := (rq_headers r)(map tolower key \<mapsto> val)\<rparr>"

definition get_header :: "string \<Rightarrow> http_request \<Rightarrow> string" where
  "get_header key r = (case rq_headers r key of None \<Rightarrow> [] | Some v \<Rightarrow> v)"

definition keep_alive :: "http_request \<Rightarrow> bool" where
  "keep_alive r =
     (let conn = get_header ''connection'' r
      in if rq_version r = kHttp11 then conn \<noteq> ''close'' else conn = ''keep-alive'')"

text \<open>\<open>reset\<close> restores the initial value of every field.\<close>

definition request_reset :: "http_request \<Rightarrow> http_request" where
  "request_reset r = r\<lparr>rq_method := kInvalid, rq_version := kUnknown, rq_path := [], rq_query := [], rq_headers := Map.empty\<rparr>"

section \<open>Parser\<close>

datatype parse_state = kExpectRequestLine | kExpectHeaders | kGotAll

record http_context =
  hc_state :: parse_state
  hc_request :: http_request

definition new_context :: http_context where
  "new_context = \<lparr>hc_state = kExpectRequestLine, hc_request = new_request\<rparr>"

definition context_reset :: "http_context \<Rightarrow> http_context" where
  "context_reset c = c\<lparr>hc_state := kExpectRequestLine, hc_request := request_reset (hc_request c)\<rparr>"

text \<open>The result says whether the line was accepted; fields set before an error stay set.\<close>

definition parse_request_line :: "string \<Rightarrow> http_request \<Rightarrow> bool \<times> http_request" where
  "parse_request_line line r =
     (case find_char CHR '' '' line of
        None \<Rightarrow> (False, r)
      | Some sp1 \<Rightarrow>
          let r1 = set_method (take sp1 line) r
          in if rq_method r1 = kInvalid then (False, r1)
             else case find_char_from CHR '' '' (sp1 + 1) line of
                    None \<Rightarrow> (False, r1)
                  | Some sp2 \<Rightarrow>
                      let uri = take (sp2 - sp1 - 1) (drop (sp1 + 1) line);
                          r2 = (case find_char CHR ''?'' uri of
                                  None \<Rightarrow> r1\<lparr>rq_path := uri\<rparr>
                                | Some q \<Rightarrow> r1\<lparr>rq_path := take q uri, rq_query := drop (q + 1) uri\<rparr>);
                          ver = drop (sp2 + 1) line
                      in if ver = ''HTTP/1.1'' then (True, r2\<lparr>rq_version := kHttp11\<rparr>)
                         else if ver = ''HTTP/1.0'' then (True, r2\<lparr>rq_version := kHttp10\<rparr>)
                         else (False, r2))"

definition parse_header :: "string \<Rightarrow> http_request \<Rightarrow> bool \<times> http_request" where
  "parse_header line r =
     (case find_char CHR '':'' line of
        None \<Rightarrow> (False, r)
      | Some colon \<Rightarrow> (True, add_header (take colon line) (dropWhile (\<lambda>c. c = CHR '' '') (drop (colon + 1) line)) r))"

text \<open>\<open>HttpContext::parse\<close>: the context and the buffer after the loop.\<close>

function parse :: "http_context \<Rightarrow> buffer \<Rightarrow> bool \<times> http_context \<times> buffer" where
  "parse c b =
     (case hc_state c of
        kExpectRequestLine \<Rightarrow>
          (case find_crlf b of
             None \<Rightarrow> (True, c, b)
           | Some i \<Rightarrow>
               let (ok, r) = parse_request_line (mem_read b (reader_index b) i) (hc_request c);
                   c1 = c\<lparr>hc_request := r\<rparr>
               in if ok then parse (c1\<lparr>hc_state := kExpectHeaders\<rparr>) (retrieve_until b (i + 2))
                  else (False, c1, b))
      | kExpectHeaders \<Rightarrow>
          (case find_crlf b of
             None \<Rightarrow> (True, c, b)
           | Some i \<Rightarrow>
               let line = mem_read b (reader_index b) i
               in if line = [] then (True, c\<lparr>hc_state := kGotAll\<rparr>, retrieve_until b (i + 2))
                  else let (ok, r) = parse_header line (hc_request c);
                           c1 = c\<lparr>hc_request := r\<rparr>
                       in if ok then parse c1 (retrieve_until b (i + 2)) else (False, c1, b))
      | kGotAll \<Rightarrow> (True, c, b))"
  by pat_completeness auto

lemma find_crlf_readable: "find_crlf b = Some i \<Longrightarrow> 0 < readable_bytes b"
proof -
  assume "find_crlf b = Some i"
  then have "0 < length (readable_view b)" using search_crlf_bound by (fastforce simp: find_crlf_def)
  then show ?thesis by (auto simp: readable_view_def mem_read_def)
qed

lemma readable_retrieve_less: "0 < readable_bytes b \<Longrightarrow> 0 < n \<Longrightarrow> readable_bytes (retrieve_until b n) < readable_bytes b"
  by (auto simp: retrieve_until_def retrieve_def retrieve_all_def readable_bytes_def)

termination parse
  by (relation "measure (\<lambda>(c, b). readable_bytes b)") (auto intro: readable_retrieve_less dest: find_crlf_readable)

declare parse.simps [simp del]

section \<open>Response\<close>

record http_response =
  rs_status_code :: nat
  rs_status_message :: string
  rs_close :: bool
  rs_headers :: "(string \<times> string) list"
  rs_body :: string

definition k200Ok :: nat where "k200Ok = 200"
definition k301MovedPermanently :: nat where "k301MovedPermanently = 301"
definition k400BadRequest :: nat where "k400BadRequest = 400"
definition k404NotFound :: nat where "k404NotFound = 404"
definition k500InternalError :: nat where "k500InternalError = 500"

definition new_response :: http_response where
  "new_response = \<lparr>rs_status_code = k200Ok, rs_status_message = ''OK'', rs_close = False, rs_headers = [], rs_body = []\<rparr>"

definition response_add_header :: "string \<Rightarrow> string \<Rightarrow> http_response \<Rightarrow> http_response" where
  "response_add_header key val r = r\<lparr>rs_headers := AList.update key val (rs_headers r)\<rparr>"

definition set_content_type :: "string \<Rightarrow> http_response \<Rightarrow> http_response" where
  "set_content_type t = response_add_header ''Content-Type'' t"

definition response_head :: "http_response \<Rightarrow> string" where
  "response_head r =
     ''HTTP/1.1 '' @ to_string (rs_status_code r) @ '' '' @ rs_status_message r @ kCRLF
     @ (if rs_close r then ''Connection: close'' @ kCRLF else ''Connection: keep-alive'' @ kCRLF)
     @ ''Content-Length: '' @ to_string (length (rs_body r)) @ kCRLF
     @ concat (map (\<lambda>(key, val). key @ '': '' @ val @ kCRLF) (rs_headers r))"

definition serialize :: "http_response \<Rightarrow> string" where
  "serialize r = response_head r @ kCRLF @ rs_body r"

end
