(* ===== verification/Http_Message_Props.thy ===== *)
theory Http_Message_Props
  imports Http_Message
begin

text \<open>
  The parser as a function on text, its independence of how the text arrives, the round trip from the
  text of a request, and the layout of a response.
\<close>

section \<open>The parser on text\<close>

function parse_text :: "http_context \<Rightarrow> string \<Rightarrow> bool \<times> http_context \<times> string" where
  "parse_text c s =
     (case hc_state c of
        kGotAll \<Rightarrow> (True, c, s)
      | kExpectRequestLine \<Rightarrow>
          (case search_crlf s of
             None \<Rightarrow> (True, c, s)
           | Some i \<Rightarrow>
               (case parse_request_line (take i s) (hc_request c) of
                  (True, r) \<Rightarrow> parse_text (c\<lparr>hc_request := r, hc_state := kExpectHeaders\<rparr>) (drop (i + 2) s)
                | (False, r) \<Rightarrow> (False, c\<lparr>hc_request := r\<rparr>, s)))
      | kExpectHeaders \<Rightarrow>
          (case search_crlf s of
             None \<Rightarrow> (True, c, s)
           | Some i \<Rightarrow>
               if i = 0 then (True, c\<lparr>hc_state := kGotAll\<rparr>, drop 2 s)
               else (case parse_header (take i s) (hc_request c) of
                       (True, r) \<Rightarrow> parse_text (c\<lparr>hc_request := r\<rparr>) (drop (i + 2) s)
                     | (False, r) \<Rightarrow> (False, c\<lparr>hc_request := r\<rparr>, s))))"
  by pat_completeness auto

termination parse_text
  by (relation "measure (\<lambda>(c, s). length s)") (auto dest!: search_crlf_bound)

declare parse_text.simps [simp del]

lemma parse_text_request:
  "hc_state c = kExpectRequestLine \<Longrightarrow> search_crlf s = Some i \<Longrightarrow> parse_request_line (take i s) (hc_request c) = (k, r) \<Longrightarrow>
     parse_text c s = (if k then parse_text (c\<lparr>hc_request := r, hc_state := kExpectHeaders\<rparr>) (drop (i + 2) s)
                       else (False, c\<lparr>hc_request := r\<rparr>, s))"
  by (subst parse_text.simps) (simp split: bool.split)

lemma parse_text_header:
  "hc_state c = kExpectHeaders \<Longrightarrow> search_crlf s = Some i \<Longrightarrow> i \<noteq> 0 \<Longrightarrow> parse_header (take i s) (hc_request c) = (k, r) \<Longrightarrow>
     parse_text c s = (if k then parse_text (c\<lparr>hc_request := r\<rparr>) (drop (i + 2) s) else (False, c\<lparr>hc_request := r\<rparr>, s))"
  by (subst parse_text.simps) (simp split: bool.split)

lemma parse_text_blank:
  "hc_state c = kExpectHeaders \<Longrightarrow> search_crlf s = Some 0 \<Longrightarrow> parse_text c s = (True, c\<lparr>hc_state := kGotAll\<rparr>, drop 2 s)"
  by (subst parse_text.simps) simp

lemma parse_text_wait:
  "hc_state c = kGotAll \<or> search_crlf s = None \<Longrightarrow> parse_text c s = (True, c, s)"
  by (subst parse_text.simps) (auto split: parse_state.split)

lemma mem_read_view: "i \<le> readable_bytes b \<Longrightarrow> mem_read b (reader_index b) i = take i (readable_view b)"
  by (simp add: mem_read_def readable_view_def min_def)

lemma parse_refines:
  "buffer_inv b \<Longrightarrow> parse c b = (ok, c', b') \<Longrightarrow>
     buffer_inv b' \<and> parse_text c (readable_view b) = (ok, c', readable_view b')"
proof (induction c b rule: parse.induct)
  case (1 c b)
  show ?case
  proof (cases "hc_state c = kGotAll \<or> find_crlf b = None")
    case True
    then have "ok = True \<and> c' = c \<and> b' = b"
      using "1.prems"(2) by (subst (asm) parse.simps) (auto split: parse_state.splits)
    then show ?thesis
      using True "1.prems"(1) by (subst parse_text.simps) (auto simp: find_crlf_def split: parse_state.splits)
  next
    case False
    then obtain i where i: "find_crlf b = Some i" "search_crlf (readable_view b) = Some i" by (auto simp: find_crlf_def)
    have le: "i + 2 \<le> readable_bytes b" using search_crlf_bound [OF i(2)] length_readable_view "1.prems"(1) by simp
    have line: "mem_read b (reader_index b) i = take i (readable_view b)" using le by (simp add: mem_read_view)
    let ?b2 = "retrieve_until b (i + 2)"
    have b2: "buffer_inv ?b2" "readable_view ?b2 = drop (i + 2) (readable_view b)"
      using "1.prems"(1) by (simp_all add: retrieve_until_def retrieve_inv readable_view_retrieve)
    have ne: "take i (readable_view b) = [] \<longleftrightarrow> i = 0" using le length_readable_view [OF "1.prems"(1)] by auto
    show ?thesis
    proof (cases "hc_state c")
      case kExpectRequestLine
      obtain k r where p: "parse_request_line (take i (readable_view b)) (hc_request c) = (k, r)" by fastforce
      show ?thesis
        using "1.IH"(1) [OF kExpectRequestLine i(1) refl] "1.prems" b2 p kExpectRequestLine i line
          parse_text_request [OF kExpectRequestLine i(2) p]
        by (cases k) (auto simp: parse.simps [of c b])
    next
      case kExpectHeaders
      obtain k r where p: "parse_header (take i (readable_view b)) (hc_request c) = (k, r)" by fastforce
      show ?thesis
        using "1.IH"(2) [OF kExpectHeaders i(1) refl _ refl] "1.prems" b2 p kExpectHeaders i line ne
          parse_text_header [OF kExpectHeaders i(2) _ p] parse_text_blank [OF kExpectHeaders]
        by (cases k; cases "i = 0") (auto simp: parse.simps [of c b] numeral_2_eq_2)
    qed (use False in simp)
  qed
qed

lemma parse_text_append:
  "parse_text c s = (ok, c', rest) \<Longrightarrow>
     parse_text c (s @ t) = (if ok then parse_text c' (rest @ t) else (False, c', rest @ t))"
proof (induction c s arbitrary: ok c' rest rule: parse_text.induct)
  case (1 c s)
  show ?case
  proof (cases "hc_state c = kGotAll \<or> search_crlf s = None")
    case True
    then have "ok = True \<and> c' = c \<and> rest = s"
      using "1.prems" by (subst (asm) parse_text.simps) (auto split: parse_state.splits)
    then show ?thesis by simp
  next
    case False
    then obtain i where i: "search_crlf s = Some i" by auto
    note it = search_crlf_append [OF i, of t] and le = search_crlf_bound [OF i]
    have tk: "take i (s @ t) = take i s" "drop (i + 2) (s @ t) = drop (i + 2) s @ t" using le by simp_all
    show ?thesis
    proof (cases "hc_state c")
      case kExpectRequestLine
      obtain k r where p: "parse_request_line (take i s) (hc_request c) = (k, r)" by fastforce
      show ?thesis
        using "1.IH"(1) [OF kExpectRequestLine i, of k r] "1.prems" p tk parse_text_request [OF kExpectRequestLine i p]
          parse_text_request [OF kExpectRequestLine it, of k r]
        by (cases k) auto
    next
      case kExpectHeaders
      obtain k r where p: "parse_header (take i s) (hc_request c) = (k, r)" by fastforce
      have d0: "drop 2 (s @ t) = drop 2 s @ t" if "i = 0" using that le by simp
      show ?thesis
      proof (cases "i = 0")
        case True
        then show ?thesis
          using "1.prems" i it d0 kExpectHeaders by (simp add: parse_text_blank) (auto simp: parse_text_wait)
      next
        case False
        then show ?thesis
          using "1.IH"(2) [OF kExpectHeaders i, of k r] "1.prems" p tk parse_text_header [OF kExpectHeaders i False p]
            parse_text_header [OF kExpectHeaders it False, of k r]
          by (cases k) auto
      qed
    qed (use False in simp)
  qed
qed

section \<open>The text of a request\<close>

fun version_string :: "http_version \<Rightarrow> string" where
  "version_string kHttp11 = ''HTTP/1.1''"
| "version_string kHttp10 = ''HTTP/1.0''"
| "version_string kUnknown = []"

definition print_uri :: "string \<Rightarrow> string \<Rightarrow> string" where
  "print_uri path query = (if query = [] then path else path @ ''?'' @ query)"

definition print_request_line :: "http_request \<Rightarrow> string" where
  "print_request_line q = method_string (rq_method q) @ '' '' @ print_uri (rq_path q) (rq_query q) @ '' '' @ version_string (rq_version q)"

definition print_headers :: "(string \<times> string) list \<Rightarrow> string" where
  "print_headers hs = concat (map (\<lambda>(k, v). k @ '': '' @ v @ kCRLF) hs)"

definition print_request :: "http_request \<Rightarrow> (string \<times> string) list \<Rightarrow> string" where
  "print_request q hs = print_request_line q @ kCRLF @ print_headers hs @ kCRLF"

definition headers_of :: "(string \<times> string) list \<Rightarrow> string \<rightharpoonup> string" where
  "headers_of hs = foldl (\<lambda>m (k, v). m(map tolower k \<mapsto> v)) Map.empty hs"

definition header_ok :: "string \<times> string \<Rightarrow> bool" where
  "header_ok h \<longleftrightarrow> (case h of (k, v) \<Rightarrow> CHR '':'' \<notin> set k \<and> CHR 0x0D \<notin> set k \<union> set v \<and> (v \<noteq> [] \<longrightarrow> hd v \<noteq> CHR '' ''))"

definition request_ok :: "http_request \<Rightarrow> (string \<times> string) list \<Rightarrow> bool" where
  "request_ok q hs \<longleftrightarrow> rq_method q \<noteq> kInvalid \<and> rq_version q \<noteq> kUnknown
     \<and> {CHR '' '', CHR ''?'', CHR 0x0D} \<inter> set (rq_path q) = {} \<and> {CHR '' '', CHR 0x0D} \<inter> set (rq_query q) = {}
     \<and> list_all header_ok hs \<and> rq_headers q = headers_of hs"

lemma method_string_props:
  "m \<noteq> kInvalid \<Longrightarrow> rq_method (set_method (method_string m) r) = m" "CHR '' '' \<notin> set (method_string m)"
  "CHR 0x0D \<notin> set (method_string m)" "method_string m \<noteq> []"
  by (cases m; simp add: set_method_def)+

lemma set_method_eq: "m \<noteq> kInvalid \<Longrightarrow> set_method (method_string m) r = r\<lparr>rq_method := m\<rparr>"
  by (cases m) (simp_all add: set_method_def)

lemma parse_request_line_print:
  assumes "request_ok q hs" "rq_path r = []" "rq_query r = []"
  shows "parse_request_line (print_request_line q) r =
    (True, r\<lparr>rq_method := rq_method q, rq_version := rq_version q, rq_path := rq_path q, rq_query := rq_query q\<rparr>)"
proof -
  let ?m = "method_string (rq_method q)" and ?u = "print_uri (rq_path q) (rq_query q)" and ?v = "version_string (rq_version q)"
  have line: "print_request_line q = ?m @ CHR '' '' # ?u @ CHR '' '' # ?v" by (simp add: print_request_line_def)
  have u: "CHR '' '' \<notin> set ?u" using assms(1) by (auto simp: print_uri_def request_ok_def)
  have sp1: "find_char CHR '' '' (print_request_line q) = Some (length ?m)"
    unfolding line by (rule find_char_append) (rule method_string_props)
  have sp2: "find_char_from CHR '' '' (length ?m + 1) (print_request_line q) = Some (length ?u + (length ?m + 1))"
    by (simp add: find_char_from_def line find_char_append [OF u])
  have uri: "(case find_char CHR ''?'' ?u of None \<Rightarrow> s\<lparr>rq_path := ?u\<rparr>
        | Some k \<Rightarrow> s\<lparr>rq_path := take k ?u, rq_query := drop (k + 1) ?u\<rparr>) = s\<lparr>rq_path := rq_path q, rq_query := rq_query q\<rparr>"
    if "rq_query s = []" for s
  proof (cases "rq_query q = []")
    case True
    then have "find_char CHR ''?'' ?u = None" using assms(1) by (auto simp: print_uri_def request_ok_def)
    then show ?thesis unfolding \<open>find_char CHR ''?'' ?u = None\<close> option.case
      using True that by (cases s) (simp add: print_uri_def)
  next
    case False
    then have "find_char CHR ''?'' ?u = Some (length (rq_path q))"
      using assms(1) by (auto simp: print_uri_def request_ok_def intro: find_char_append)
    then show ?thesis using False by (simp add: print_uri_def)
  qed
  have m: "rq_method q \<noteq> kInvalid" using assms(1) by (simp add: request_ok_def)
  have ver: "?v = ''HTTP/1.1'' \<longleftrightarrow> rq_version q = kHttp11" "rq_version q \<noteq> kHttp11 \<Longrightarrow> ?v = ''HTTP/1.0'' \<and> rq_version q = kHttp10"
    using assms(1) by (cases "rq_version q"; simp add: request_ok_def)+
  have parts: "take (length ?m) (print_request_line q) = ?m" "drop (length ?u + (length ?m + 1) + 1) (print_request_line q) = ?v"
    "take (length ?u + (length ?m + 1) - length ?m - 1) (drop (length ?m + 1) (print_request_line q)) = ?u"
    by (simp_all add: line)
  show ?thesis
    unfolding parse_request_line_def sp1 option.case parts Let_def set_method_eq [OF m] sp2
    using m ver uri [of "r\<lparr>rq_method := rq_method q\<rparr>"] assms(3) by (cases "rq_version q = kHttp11") simp_all
qed

lemma parse_header_print:
  assumes "header_ok (k, v)"
  shows "parse_header (k @ '': '' @ v) r = (True, add_header k v r)"
proof -
  have "find_char CHR '':'' (k @ CHR '':'' # CHR '' '' # v) = Some (length k)"
    by (rule find_char_append) (use assms in \<open>simp add: header_ok_def\<close>)
  moreover have "dropWhile (\<lambda>c. c = CHR '' '') v = v"
    using assms by (cases v) (auto simp: header_ok_def)
  ultimately show ?thesis by (simp add: parse_header_def)
qed

lemma parse_text_headers:
  assumes "list_all header_ok hs" "hc_state c = kExpectHeaders"
  shows "parse_text c (print_headers hs @ kCRLF @ rest) =
    (True, c\<lparr>hc_state := kGotAll, hc_request := foldl (\<lambda>r (k, v). add_header k v r) (hc_request c) hs\<rparr>, rest)"
  using assms
proof (induction hs arbitrary: c)
  case Nil
  have "search_crlf (kCRLF @ rest) = Some 0" using search_crlf_line [of "[]" rest] by simp
  with Nil show ?case by (simp add: print_headers_def parse_text_blank) (simp add: kCRLF_def)
next
  case (Cons h hs)
  obtain k v where h: "h = (k, v)" by fastforce
  let ?l = "k @ '': '' @ v" and ?t = "print_headers hs @ kCRLF @ rest"
  have ok: "header_ok (k, v)" using Cons.prems h by simp
  have eq: "print_headers (h # hs) @ kCRLF @ rest = ?l @ kCRLF @ ?t" by (simp add: print_headers_def h)
  have f: "search_crlf (?l @ kCRLF @ ?t) = Some (length ?l)"
    by (rule search_crlf_line) (use ok in \<open>auto simp: header_ok_def\<close>)
  have "take (length l) (l @ kCRLF @ t) = l" "drop (length l + 2) (l @ kCRLF @ t) = t" for l t by (simp_all add: kCRLF_def)
  note tk = this [of ?l ?t]
  have "parse_text c (?l @ kCRLF @ ?t) = parse_text (c\<lparr>hc_request := add_header k v (hc_request c)\<rparr>) ?t"
    using parse_text_header [OF Cons.prems(2) f, unfolded tk, OF _ parse_header_print [OF ok]] by simp
  with Cons show ?case unfolding eq by (simp add: h)
qed

lemma add_headers_headers_of:
  "foldl (\<lambda>r (k, v). add_header k v r) r hs = r\<lparr>rq_headers := foldl (\<lambda>m (k, v). m(map tolower k \<mapsto> v)) (rq_headers r) hs\<rparr>"
  by (induction hs arbitrary: r) (auto simp: add_header_def)

lemma parse_text_print:
  assumes "request_ok q hs"
  shows "parse_text new_context (print_request q hs @ rest) = (True, \<lparr>hc_state = kGotAll, hc_request = q\<rparr>, rest)"
proof -
  let ?l = "print_request_line q" and ?t = "print_headers hs @ kCRLF @ rest"
  have "CHR 0x0D \<notin> set ?l"
    using assms method_string_props(3) [of "rq_method q"]
    by (cases "rq_version q") (auto simp: print_request_line_def print_uri_def request_ok_def)
  then have f: "search_crlf (?l @ kCRLF @ ?t) = Some (length ?l)" by (rule search_crlf_line)
  have "take (length l) (l @ kCRLF @ t) = l" "drop (length l + 2) (l @ kCRLF @ t) = t" for l t by (simp_all add: kCRLF_def)
  note tk = this [of ?l ?t]
  have new: "hc_state new_context = kExpectRequestLine" "rq_path (hc_request new_context) = []"
    "rq_query (hc_request new_context) = []" "hc_request new_context = new_request"
    by (simp_all add: new_context_def new_request_def)
  have "parse_text new_context (?l @ kCRLF @ ?t) = parse_text (new_context\<lparr>hc_request := new_request\<lparr>rq_method := rq_method q,
      rq_version := rq_version q, rq_path := rq_path q, rq_query := rq_query q\<rparr>, hc_state := kExpectHeaders\<rparr>) ?t"
    using parse_text_request [OF new(1) f, unfolded tk] parse_request_line_print [OF assms new(2,3)] new(4) by simp
  then show ?thesis
    using assms by (simp add: print_request_def parse_text_headers request_ok_def add_headers_headers_of
        new_context_def new_request_def headers_of_def)
qed

section \<open>Feeding the parser from reads\<close>

text \<open>Each read is appended to the input buffer and the parser continues where it stopped.\<close>

definition feed :: "string \<Rightarrow> bool \<times> http_context \<times> buffer \<Rightarrow> bool \<times> http_context \<times> buffer" where
  "feed chunk x = (case x of (ok, c, b) \<Rightarrow> if ok then parse c (buf_append b chunk) else (ok, c, buf_append b chunk))"

lemma feed_all:
  assumes "buffer_inv b" "fold feed chunks (ok, c, b) = (ok', c', b')"
    "ok \<longrightarrow> parse_text c (readable_view b) = (True, c, readable_view b)"
  shows "buffer_inv b' \<and> (if ok then parse_text c (readable_view b @ concat chunks) = (ok', c', readable_view b')
     else ok' = ok \<and> c' = c \<and> readable_view b' = readable_view b @ concat chunks)"
  using assms
proof (induction chunks arbitrary: ok c b)
  case (Cons x xs)
  obtain k c1 b1 where f: "feed x (ok, c, b) = (k, c1, b1)" by (metis prod_cases3)
  have app: "buffer_inv (buf_append b x)" "readable_view (buf_append b x) = readable_view b @ x"
    using Cons.prems(1) by (simp_all add: buf_append_inv readable_view_append)
  have rest: "fold feed xs (k, c1, b1) = (ok', c', b')" using Cons.prems(2) f by simp
  show ?case
  proof (cases ok)
    case True
    then have p: "parse c (buf_append b x) = (k, c1, b1)" using f by (simp add: feed_def)
    note r = parse_refines [OF app(1) p, unfolded app(2)]
    have "parse_text c1 (readable_view b1) = (True, c1, readable_view b1)" if k
      using parse_text_append [of c "readable_view b @ x" k c1 "readable_view b1" "[]"] r that by simp
    with Cons.IH [OF _ rest] r
    have ih: "buffer_inv b' \<and> (if k then parse_text c1 (readable_view b1 @ concat xs) = (ok', c', readable_view b')
       else ok' = k \<and> c' = c1 \<and> readable_view b' = readable_view b1 @ concat xs)" by blast
    show ?thesis
      using ih r parse_text_append [of c "readable_view b @ x" k c1 "readable_view b1" "concat xs"] True by (cases k) simp_all
  next
    case False
    then show ?thesis using Cons.IH [OF app(1), of ok c] Cons.prems(2) app(2) by (simp add: feed_def)
  qed
qed simp

text \<open>
  The parser is independent of how the bytes arrive: feeding any sequence of reads into a fresh
  parser gives the verdict, the state and the unread rest of parsing all of them at once.
\<close>

theorem http_parse_chunking:
  assumes "fold feed chunks (True, new_context, new_buffer) = (ok, c, b)"
  shows "parse_text new_context (concat chunks) = (ok, c, readable_view b)"
  using feed_all [OF buffer_inv_new assms] by (simp add: parse_text_wait)

theorem http_parse_chunking_witness:
  "parse_text new_context (concat [''GET /a HT'', ''TP/1.1'' @ [CHR 0x0D], [CHR 0x0A]]) =
     (case fold feed [''GET /a HT'', ''TP/1.1'' @ [CHR 0x0D], [CHR 0x0A]] (True, new_context, new_buffer) of
        (ok, c, b) \<Rightarrow> (ok, c, readable_view b))"
proof -
  obtain ok c b where f: "fold feed [''GET /a HT'', ''TP/1.1'' @ [CHR 0x0D], [CHR 0x0A]] (True, new_context, new_buffer) = (ok, c, b)"
    by (rule prod_cases3)
  from http_parse_chunking [OF f] show ?thesis unfolding f by (simp only: prod.case)
qed

text \<open>
  C29. Round trip: a request line and headers printed the way HTTP prescribes, cut into reads anywhere,
  are parsed to exactly the request they were printed from, with header names in lower case and the
  last value of a repeated name, and the bytes behind the blank line stay in the buffer.
\<close>

theorem http_request_roundtrip:
  assumes "request_ok q hs" "concat chunks = print_request q hs @ rest"
    "fold feed chunks (True, new_context, new_buffer) = (ok, c, b)"
  shows "ok \<and> hc_state c = kGotAll \<and> hc_request c = q \<and> readable_view b = rest"
  using feed_all [OF buffer_inv_new assms(3)] parse_text_print [OF assms(1), of rest] assms(2) by (auto simp: parse_text_wait)

definition sample_request :: http_request where
  "sample_request = \<lparr>rq_method = kGet, rq_version = kHttp11, rq_path = ''/a'', rq_query = ''x=1'',
     rq_headers = headers_of [(''Host'', ''h''), (''CONNECTION'', ''close'')]\<rparr>"

theorem http_request_roundtrip_witness:
  "\<exists>c b. fold feed [''GET /a?x=1 HTTP/1.1'' @ [CHR 0x0D], [CHR 0x0A] @ ''Host: h'' @ kCRLF @ ''CONNECTION: close'', kCRLF @ kCRLF @ ''GE'']
       (True, new_context, new_buffer) = (True, c, b) \<and> hc_request c = sample_request \<and> readable_view b = ''GE''"
proof -
  let ?cs = "[''GET /a?x=1 HTTP/1.1'' @ [CHR 0x0D], [CHR 0x0A] @ ''Host: h'' @ kCRLF @ ''CONNECTION: close'', kCRLF @ kCRLF @ ''GE'']"
  obtain ok c b where f: "fold feed ?cs (True, new_context, new_buffer) = (ok, c, b)" by (rule prod_cases3)
  have "request_ok sample_request [(''Host'', ''h''), (''CONNECTION'', ''close'')]"
    by (simp add: request_ok_def sample_request_def header_ok_def)
  moreover have "concat ?cs = print_request sample_request [(''Host'', ''h''), (''CONNECTION'', ''close'')] @ ''GE''"
    by (simp add: print_request_def print_request_line_def print_uri_def print_headers_def sample_request_def kCRLF_def)
  ultimately have "ok \<and> hc_state c = kGotAll \<and> hc_request c = sample_request \<and> readable_view b = ''GE''"
    using http_request_roundtrip f by blast
  then show ?thesis unfolding f by auto
qed

section \<open>The layout of a response\<close>

text \<open>How a client reads a response: the lines up to the blank line, and what follows it.\<close>

function head_lines :: "string \<Rightarrow> (string list \<times> string) option" where
  "head_lines s =
     (case search_crlf s of
        None \<Rightarrow> None
      | Some i \<Rightarrow> if i = 0 then Some ([], drop 2 s)
                  else map_option (\<lambda>(ls, rest). (take i s # ls, rest)) (head_lines (drop (i + 2) s)))"
  by pat_completeness auto

termination head_lines
  by (relation "measure length") (auto dest!: search_crlf_bound)

declare head_lines.simps [simp del]

lemma head_lines_Cons:
  assumes "CHR 0x0D \<notin> set l" "l \<noteq> []"
  shows "head_lines (l @ kCRLF @ t) = map_option (\<lambda>(ls, rest). (l # ls, rest)) (head_lines t)"
proof -
  note f = search_crlf_line [OF assms(1), of t]
  have "take (length l) (l @ kCRLF @ t) = l" "drop (length l + 2) (l @ kCRLF @ t) = t" by (simp_all add: kCRLF_def)
  with f assms(2) show ?thesis by (subst head_lines.simps) simp
qed

lemma head_lines_blank: "head_lines (kCRLF @ t) = Some ([], t)"
  using search_crlf_line [of "[]" t] by (subst head_lines.simps) (simp add: kCRLF_def)

lemma head_lines_headers:
  assumes "\<forall>(k, v)\<in>set hs. CHR 0x0D \<notin> set k \<union> set v"
  shows "head_lines (concat (map (\<lambda>(k, v). k @ '': '' @ v @ kCRLF) hs) @ t)
    = map_option (\<lambda>(ls, rest). (map (\<lambda>(k, v). k @ '': '' @ v) hs @ ls, rest)) (head_lines t)"
  using assms
proof (induction hs)
  case Nil
  then show ?case by (cases "head_lines t") auto
next
  case (Cons h hs)
  obtain k v where h: "h = (k, v)" by fastforce
  have "head_lines ((k @ '': '' @ v) @ kCRLF @ u) = map_option (\<lambda>(ls, rest). ((k @ '': '' @ v) # ls, rest)) (head_lines u)" for u
    by (rule head_lines_Cons) (use Cons.prems h in auto)
  with Cons show ?case by (auto simp: h option.map_comp comp_def split: prod.split intro: option.map_cong0)
qed

text \<open>
  A client that reads a serialized response finds the status line, the connection line, the
  content length and the headers, then the blank line, and behind it the body; the announced length
  is the length of the body, so that taking this many bytes yields the body and leaves what follows.
\<close>

theorem http_response_framing:
  assumes "CHR 0x0D \<notin> set (rs_status_message r)" "\<forall>(k, v)\<in>set (rs_headers r). CHR 0x0D \<notin> set k \<union> set v"
  shows "\<exists>n. head_lines (serialize r @ rest) =
      Some ([''HTTP/1.1 '' @ to_string (rs_status_code r) @ '' '' @ rs_status_message r,
             (if rs_close r then ''Connection: close'' else ''Connection: keep-alive''), ''Content-Length: '' @ n]
            @ map (\<lambda>(k, v). k @ '': '' @ v) (rs_headers r), rs_body r @ rest)
    \<and> strtol n = (int (length (rs_body r)), []) \<and> take (nat (fst (strtol n))) (rs_body r @ rest) = rs_body r"
proof -
  have nd: "CHR 0x0D \<notin> set (to_string n)" for n using to_string_digits [of n] by (auto simp del: not_digit) (metis not_digit(7))
  let ?status = "''HTTP/1.1 '' @ to_string (rs_status_code r) @ '' '' @ rs_status_message r"
  let ?conn = "if rs_close r then ''Connection: close'' else ''Connection: keep-alive''"
  let ?len = "''Content-Length: '' @ to_string (length (rs_body r))"
  have "serialize r @ rest = ?status @ kCRLF @ ?conn @ kCRLF @ ?len @ kCRLF
      @ concat (map (\<lambda>(k, v). k @ '': '' @ v @ kCRLF) (rs_headers r)) @ kCRLF @ rs_body r @ rest"
    by (simp add: serialize_def response_head_def)
  moreover have "head_lines (?status @ kCRLF @ t) = map_option (\<lambda>(ls, rest). (?status # ls, rest)) (head_lines t)"
    "head_lines (?conn @ kCRLF @ t) = map_option (\<lambda>(ls, rest). (?conn # ls, rest)) (head_lines t)"
    "head_lines (?len @ kCRLF @ t) = map_option (\<lambda>(ls, rest). (?len # ls, rest)) (head_lines t)" for t
    by (rule head_lines_Cons; use assms(1) nd in simp)+
  ultimately have "head_lines (serialize r @ rest) = Some ([?status, ?conn, ?len] @ map (\<lambda>(k, v). k @ '': '' @ v) (rs_headers r), rs_body r @ rest)"
    using head_lines_headers [OF assms(2), of "kCRLF @ rs_body r @ rest"] by (simp add: head_lines_blank)
  then show ?thesis by (intro exI [of _ "to_string (length (rs_body r))"]) simp
qed

theorem http_response_framing_witness:
  "\<exists>n ls. head_lines (serialize (new_response\<lparr>rs_body := ''hi''\<rparr>) @ ''HTTP'') = Some (ls, ''hiHTTP'') \<and> strtol n = (2, [])"
  using http_response_framing [of "new_response\<lparr>rs_body := ''hi''\<rparr>" "''HTTP''"] by (auto simp: new_response_def)

end
