(* ===== verification/Http_Server.thy ===== *)
theory Http_Server
  imports Tcp_Server Http_Message_Props
begin

text \<open>
  \<open>src/http/http_server.h\<close>, \<open>http_server.cpp\<close> and the route table of \<open>http_demo_main.cpp\<close>: an HTTP
  server on top of the TCP server. The context of a connection is its parser. The user's callback is
  a parameter, absent or a function from the request and the prepared response to the response.
\<close>

section \<open>Callbacks\<close>

type_synonym http_cb = "(http_request \<Rightarrow> http_response \<Rightarrow> http_response) option"

definition http_on_connection :: "nat \<Rightarrow> ('a, http_context, 'z) server_world_scheme \<Rightarrow> ('a, http_context, 'z) server_world_scheme" where
  "http_on_connection c w =
     (if connected c w then on_conn c (\<lambda>cn. cn\<lparr>cn_context := Some new_context\<rparr>) w else w)"

abbreviation http_close_cb :: "nat \<Rightarrow> ('a, http_context, 'z) server_world_scheme \<Rightarrow> ('a, http_context, 'z) server_world_scheme" where
  "http_close_cb \<equiv> server_close_cb http_on_connection"

definition respond :: "http_cb \<Rightarrow> http_request \<Rightarrow> http_response" where
  "respond http_cb req =
     (let resp = set_content_type ''text/plain'' (new_response\<lparr>rs_close := \<not> keep_alive req\<rparr>)
      in case http_cb of
           Some cb \<Rightarrow> cb req resp
         | None \<Rightarrow> resp\<lparr>rs_status_code := k404NotFound, rs_status_message := ''Not Found'', rs_body := ''404 Not Found'' @ [CHR 0x0A]\<rparr>)"

definition http_on_request :: "http_cb \<Rightarrow> nat \<Rightarrow> http_request
    \<Rightarrow> ('a, http_context, 'z) server_world_scheme \<Rightarrow> ('a, http_context, 'z) server_world_scheme" where
  "http_on_request http_cb c req w =
     (let close = (\<not> keep_alive req);
          w1 = conn_send http_close_cb c (serialize (respond http_cb req)) w
      in if close then conn_shutdown c w1 else w1)"

definition bad_request :: http_response where
  "bad_request = set_content_type ''text/plain''
     (new_response\<lparr>rs_status_code := k400BadRequest, rs_status_message := ''Bad Request'', rs_close := True,
                   rs_body := ''400 Bad Request'' @ [CHR 0x0A]\<rparr>)"

definition http_on_message :: "http_cb \<Rightarrow> nat
    \<Rightarrow> ('a, http_context, 'z) server_world_scheme \<Rightarrow> ('a, http_context, 'z) server_world_scheme" where
  "http_on_message http_cb c w =
     (case cn_context (conns w c) of
        None \<Rightarrow> conn_close http_close_cb c w
      | Some ctx \<Rightarrow>
          let (ok, ctx1, b) = parse ctx (input_buffer (conns w c));
              w1 = on_conn c (\<lambda>cn. cn\<lparr>cn_context := Some ctx1, input_buffer := b\<rparr>) w
          in if \<not> ok then conn_shutdown c (conn_send http_close_cb c (serialize bad_request) w1)
             else if hc_state ctx1 = kGotAll
             then on_conn c (\<lambda>cn. cn\<lparr>cn_context := map_option context_reset (cn_context cn)\<rparr>)
                    (http_on_request http_cb c (hc_request ctx1) w1)
             else w1)"

text \<open>The routes of the demo program.\<close>

definition demo_http_cb :: "http_request \<Rightarrow> http_response \<Rightarrow> http_response" where
  "demo_http_cb req resp =
     (if rq_path req = ''/'' then resp\<lparr>rs_status_code := k200Ok, rs_status_message := ''OK'', rs_body := ''Hello, epoll_proj!'' @ [CHR 0x0A]\<rparr>
      else if rq_path req = ''/hello'' then resp\<lparr>rs_status_code := k200Ok, rs_status_message := ''OK'', rs_body := ''Hello, World!'' @ [CHR 0x0A]\<rparr>
      else resp\<lparr>rs_status_code := k404NotFound, rs_status_message := ''Not Found'', rs_body := ''404 Not Found'' @ [CHR 0x0A]\<rparr>)"

section \<open>The server is a server application\<close>

text \<open>Changing the context or consuming input is a step of the connection.\<close>

lemma conn_adv_context:
  assumes "conn_ok c w"
  shows "conn_adv c w (on_conn c (\<lambda>cn. cn\<lparr>cn_context := x cn\<rparr>) w)"
  using assms by (auto simp: conn_adv_def conn_ok_def Let_def is_open_def stream_def)

lemma conn_adv_input:
  assumes "conn_ok c w" "buffer_inv b"
  shows "conn_adv c w (on_conn c (\<lambda>cn. cn\<lparr>cn_context := x cn, input_buffer := b\<rparr>) w)"
  using assms by (auto simp: conn_adv_def conn_ok_def Let_def is_open_def stream_def)

interpretation http: server_ccb http_on_connection
  by unfold_locales (auto simp: http_on_connection_def conn_adv_refl intro: conn_adv_context [where x = "\<lambda>_. Some new_context"])

lemma http_on_request_adv:
  assumes "conn_ok c w"
  shows "conn_adv c w (http_on_request http_cb c req w)"
proof -
  note s = http.send_adv(1) [OF assms, of "serialize (respond http_cb req)"]
  from s http.shutdown_adv [OF conn_adv_ok [OF s]] show ?thesis
    unfolding http_on_request_def Let_def by (auto intro: conn_adv_trans)
qed

lemma http_on_message_adv:
  assumes "conn_ok c w"
  shows "conn_adv c w (http_on_message http_cb c w)"
proof (cases "cn_context (conns w c)")
  case None
  then show ?thesis using http.close_adv [OF assms] by (simp add: http_on_message_def)
next
  case (Some ctx)
  obtain ok ctx1 b where p: "parse ctx (input_buffer (conns w c)) = (ok, ctx1, b)" by (metis prod_cases3)
  have "buffer_inv (input_buffer (conns w c))" using assms by (simp add: conn_ok_def Let_def)
  then have inv: "buffer_inv b" using parse_refines [OF _ p] by simp
  define w1 where "w1 = on_conn c (\<lambda>cn. cn\<lparr>cn_context := Some ctx1, input_buffer := b\<rparr>) w"
  have a1: "conn_adv c w w1" using conn_adv_input [OF assms inv, of "\<lambda>_. Some ctx1"] by (simp add: w1_def)
  note ok1 = conn_adv_ok [OF a1]
  note snd = http.send_adv(1) [OF ok1, of "serialize bad_request"]
  note sh = conn_adv_trans [OF a1 conn_adv_trans [OF snd http.shutdown_adv [OF conn_adv_ok [OF snd]]]]
  note rq = http_on_request_adv [OF ok1, of http_cb "hc_request ctx1"]
  have rs: "conn_adv c w (on_conn c (\<lambda>cn. cn\<lparr>cn_context := map_option context_reset (cn_context cn)\<rparr>)
      (http_on_request http_cb c (hc_request ctx1) w1))"
    by (rule conn_adv_trans [OF conn_adv_trans [OF a1 rq] conn_adv_context [OF conn_adv_ok [OF rq]]])
  have "http_on_message http_cb c w = (if \<not> ok then conn_shutdown c (conn_send http_close_cb c (serialize bad_request) w1)
     else if hc_state ctx1 = kGotAll
     then on_conn c (\<lambda>cn. cn\<lparr>cn_context := map_option context_reset (cn_context cn)\<rparr>) (http_on_request http_cb c (hc_request ctx1) w1)
     else w1)"
    by (simp add: http_on_message_def Some p w1_def Let_def)
  then show ?thesis using sh rs a1 by simp
qed

interpretation http_app: server_app http_on_connection "http_on_message http_cb" for http_cb
  by unfold_locales (rule http_on_message_adv)

section \<open>Answers\<close>

lemma context_reset_new [simp]: "context_reset c = new_context"
  by (simp add: context_reset_def request_reset_def new_context_def new_request_def)

lemma http_on_request_answers:
  assumes "conn_ok c w" "connected c w" "w' = http_on_request http_cb c req w" "is_open c w'"
  shows "stream c w' = stream c w @ serialize (respond http_cb req)" "input_buffer (conns w' c) = input_buffer (conns w c)"
    "cn_context (conns w' c) = cn_context (conns w c)"
    "cn_state (conns w' c) = (if keep_alive req then kConnected else kDisconnecting)"
proof -
  define w1 where "w1 = conn_send http_close_cb c (serialize (respond http_cb req)) w"
  have a: "conn_adv c w w1" using http.send_adv(1) [OF assms(1)] by (simp add: w1_def)
  have w': "w' = (if keep_alive req then w1 else conn_shutdown c w1)" by (simp add: assms(3) http_on_request_def w1_def Let_def)
  have op: "is_open c w1"
    using assms(4) http.shutdown_adv [OF conn_adv_ok [OF a]] by (auto simp: w' conn_adv_def split: if_splits)
  note fr = http.send_frame [OF assms(1) op [unfolded w1_def], folded w1_def]
  have st: "cn_state (conns w1 c) = kConnected" "stream c w1 = stream c w @ serialize (respond http_cb req)"
    using fr(3) assms(2) http.send_adv(2) [OF assms(1) op [unfolded w1_def], folded w1_def] by (simp_all add: connected_def)
  note sh = shutdown_effect [OF conn_adv_ok [OF a] st(1)]
  show "stream c w' = stream c w @ serialize (respond http_cb req)" "input_buffer (conns w' c) = input_buffer (conns w c)"
    "cn_context (conns w' c) = cn_context (conns w c)"
    "cn_state (conns w' c) = (if keep_alive req then kConnected else kDisconnecting)"
    using sh st fr by (simp_all add: w')
qed

lemma http_on_message_answers:
  assumes "conn_ok c w" "connected c w" "cn_context (conns w c) = Some ctx"
    "parse_text ctx (readable_view (input_buffer (conns w c))) = (True, ctx1, rest)" "hc_state ctx1 = kGotAll"
    "w' = http_on_message http_cb c w" "is_open c w'"
  shows "conn_ok c w'" "stream c w' = stream c w @ serialize (respond http_cb (hc_request ctx1))"
    "readable_view (input_buffer (conns w' c)) = rest" "cn_context (conns w' c) = Some new_context"
    "cn_state (conns w' c) = (if keep_alive (hc_request ctx1) then kConnected else kDisconnecting)"
proof -
  have inv: "buffer_inv (input_buffer (conns w c))" using assms(1) by (simp add: conn_ok_def Let_def)
  obtain ok c2 b where p0: "parse ctx (input_buffer (conns w c)) = (ok, c2, b)" by (metis prod_cases3)
  with parse_refines [OF inv p0] assms(4)
  have p: "parse ctx (input_buffer (conns w c)) = (True, ctx1, b)" "buffer_inv b" "readable_view b = rest" by auto
  define w1 where "w1 = on_conn c (\<lambda>cn. cn\<lparr>cn_context := Some ctx1, input_buffer := b\<rparr>) w"
  have a1: "conn_ok c w1" using conn_adv_ok [OF conn_adv_input [OF assms(1) p(2), of "\<lambda>_. Some ctx1"]] by (simp add: w1_def)
  have c1: "connected c w1" "stream c w1 = stream c w" "cn_context (conns w1 c) = Some ctx1" "input_buffer (conns w1 c) = b"
    using assms(2) by (simp_all add: w1_def connected_def stream_def)
  define w2 where "w2 = http_on_request http_cb c (hc_request ctx1) w1"
  have w': "w' = on_conn c (\<lambda>cn. cn\<lparr>cn_context := map_option context_reset (cn_context cn)\<rparr>) w2"
    using assms(5) by (simp add: assms(6) http_on_message_def assms(3) p w1_def w2_def)
  have "is_open c w2" using assms(7) by (simp add: w' is_open_def)
  note r = http_on_request_answers [OF a1 c1(1) w2_def this]
  show "conn_ok c w'"
    using conn_adv_ok [OF conn_adv_context [OF conn_adv_ok [OF http_on_request_adv [OF a1]]]] by (simp add: w' w2_def)
  show "stream c w' = stream c w @ serialize (respond http_cb (hc_request ctx1))"
    "readable_view (input_buffer (conns w' c)) = rest" "cn_context (conns w' c) = Some new_context"
    "cn_state (conns w' c) = (if keep_alive (hc_request ctx1) then kConnected else kDisconnecting)"
    using r c1 p(3) by (simp_all add: w' stream_def)
qed

text \<open>One read that delivers \<open>data\<close>, and the message callback.\<close>

definition http_receive :: "http_cb \<Rightarrow> nat \<Rightarrow> string \<Rightarrow> ('a, http_context, 'z) server_world_scheme \<Rightarrow> ('a, http_context, 'z) server_world_scheme" where
  "http_receive http_cb c data w =
     http_on_message http_cb c (on_conn c (\<lambda>cn. cn\<lparr>input_buffer := buf_append (input_buffer cn) data\<rparr>) w)"

lemma http_receive_request:
  assumes "conn_ok c w" "connected c w" "cn_context (conns w c) = Some new_context"
    "readable_view (input_buffer (conns w c)) = []" "request_ok q hs" "w' = http_receive http_cb c (print_request q hs @ rest) w" "is_open c w'"
  shows "conn_ok c w' \<and> stream c w' = stream c w @ serialize (respond http_cb q) \<and> readable_view (input_buffer (conns w' c)) = rest
    \<and> cn_context (conns w' c) = Some new_context \<and> cn_state (conns w' c) = (if keep_alive q then kConnected else kDisconnecting)"
proof -
  let ?w = "on_conn c (\<lambda>cn. cn\<lparr>input_buffer := buf_append (input_buffer cn) (print_request q hs @ rest)\<rparr>) w"
  have inv: "buffer_inv (input_buffer (conns w c))" using assms(1) by (simp add: conn_ok_def Let_def)
  have pre: "conn_ok c ?w" "connected c ?w" "stream c ?w = stream c w" "cn_context (conns ?w c) = Some new_context"
    using assms(1-3) by (auto simp: conn_ok_def Let_def connected_def stream_def buf_append_inv)
  have "parse_text new_context (readable_view (input_buffer (conns ?w c))) = (True, \<lparr>hc_state = kGotAll, hc_request = q\<rparr>, rest)"
    using parse_text_print [OF assms(5), of rest] inv assms(4) by (simp add: readable_view_append)
  from http_on_message_answers [OF pre(1,2,4) this _ assms(6) [unfolded http_receive_def] assms(7)] pre(3) show ?thesis by simp
qed

lemma http_receive_adv:
  assumes "conn_ok c w"
  shows "conn_adv c w (http_receive http_cb c data w)"
proof -
  let ?w = "on_conn c (\<lambda>cn. cn\<lparr>input_buffer := buf_append (input_buffer cn) data\<rparr>) w"
  have "conn_adv c w ?w"
    using assms by (auto simp: conn_adv_def conn_ok_def Let_def buf_append_inv is_open_def stream_def)
  with http_on_message_adv [OF conn_adv_ok [OF this]] show ?thesis
    unfolding http_receive_def by (blast intro: conn_adv_trans)
qed

lemma http_on_message_blocked_open:
  assumes "conn_ok c w" "connected c w" "cn_context (conns w c) = Some ctx" "wr_script (sk (conns w c)) = []"
  shows "is_open c (http_on_message http_cb c w)"
proof -
  obtain ok ctx1 b where p: "parse ctx (input_buffer (conns w c)) = (ok, ctx1, b)" by (metis prod_cases3)
  have "buffer_inv (input_buffer (conns w c))" using assms(1) by (simp add: conn_ok_def Let_def)
  then have inv: "buffer_inv b" using parse_refines [OF _ p] by simp
  define w1 where "w1 = on_conn c (\<lambda>cn. cn\<lparr>cn_context := Some ctx1, input_buffer := b\<rparr>) w"
  have ok1: "conn_ok c w1" using conn_adv_ok [OF conn_adv_input [OF assms(1) inv, of "\<lambda>_. Some ctx1"]] by (simp add: w1_def)
  have st: "cn_state (conns w1 c) = kConnected" "wr_script (sk (conns w1 c)) = []"
    using assms(2,4) by (simp_all add: w1_def connected_def)
  have s: "cn_state (conns (conn_send http_close_cb c d w1) c) = kConnected" for d
    by (rule http.send_blocked_open(1) [OF ok1 st])
  have "cn_state (conns (conn_shutdown c (conn_send http_close_cb c d w1)) c) = kDisconnecting" for d
    by (rule shutdown_effect(1) [OF conn_adv_ok [OF http.send_adv(1) [OF ok1]] s])
  then show ?thesis
    using s st(1) by (simp add: http_on_message_def assms(3) p http_on_request_def Let_def is_open_def flip: w1_def)
qed

lemma http_receive_blocked_open:
  assumes "conn_ok c w" "connected c w" "cn_context (conns w c) = Some ctx" "wr_script (sk (conns w c)) = []"
  shows "is_open c (http_receive http_cb c data w)"
  unfolding http_receive_def
  by (rule http_on_message_blocked_open [of _ _ ctx])
    (use assms in \<open>auto simp: conn_ok_def Let_def connected_def buf_append_inv\<close>)

text \<open>A connection of the main loop that has just been announced; its kernel buffer is full.\<close>

definition sample_http :: "(nat, http_context) server_world" where
  "sample_http = (sample_server_of [])\<lparr>conns := (\<lambda>_. (new_connection 0 9 [] [] [])
     \<lparr>cn_context := Some new_context, has_message_cb := True, has_close_cb := True\<rparr>)\<rparr>"

lemma sample_http_ok: "conn_ok 3 sample_http" "connected 3 sample_http" "cn_context (conns sample_http 3) = Some new_context"
  "wr_script (sk (conns sample_http 3)) = []" "readable_view (input_buffer (conns sample_http 3)) = []"
  by (simp_all add: conn_ok_def sample_http_def sample_server_of_def new_connection_def registered_def new_event_loop_def channel_ops
      update_channel_def epoll_add_def ctl_fault_def new_channel_def is_writing_def connected_def)



text \<open>
  Pipelining is not handled: when one read brings two complete requests, the callback answers the
  first and leaves the second, complete, in the input buffer. With edge-triggered events nothing
  calls it again until the client sends more.
\<close>

theorem http_pipelined_request_waits:
  assumes "conn_ok c w" "connected c w" "cn_context (conns w c) = Some new_context"
    "readable_view (input_buffer (conns w c)) = []" "request_ok q1 hs1" "request_ok q2 hs2"
    "w' = http_receive http_cb c (print_request q1 hs1 @ print_request q2 hs2) w" "is_open c w'"
  shows "stream c w' = stream c w @ serialize (respond http_cb q1)
    \<and> cn_context (conns w' c) = Some new_context
    \<and> parse_text new_context (readable_view (input_buffer (conns w' c))) = (True, \<lparr>hc_state = kGotAll, hc_request = q2\<rparr>, [])"
  using http_receive_request [OF assms(1-5,7,8)] parse_text_print [OF assms(6), of "[]"] by simp

theorem http_pipelined_request_waits_witness:
  "stream 3 (http_receive None 3 (print_request sample_request [(''Host'', ''h''), (''CONNECTION'', ''close'')]
      @ print_request sample_request [(''Host'', ''h''), (''CONNECTION'', ''close'')]) sample_http) = serialize (respond None sample_request)"
proof -
  let ?hs = "[(''Host'', ''h''), (''CONNECTION'', ''close'')]"
  let ?w = "http_receive None 3 (print_request sample_request ?hs @ print_request sample_request ?hs) sample_http"
  have ok: "request_ok sample_request ?hs" by (simp add: request_ok_def sample_request_def header_ok_def)
  have "is_open 3 ?w" by (rule http_receive_blocked_open [OF sample_http_ok(1-4)])
  moreover have "stream 3 sample_http = []" by code_simp
  ultimately show ?thesis using http_pipelined_request_waits [OF sample_http_ok(1-3,5) ok ok refl] by simp
qed



end
