(* ===== verification/Connection_Guarantees.thy ===== *)
theory Connection_Guarantees
  imports Http_Server
begin

text \<open>
  What every user of a connection may rely on, for any callbacks that keep the contract of
  \<open>Connection_Props\<close>. The callbacks of the HTTP server are the instance.
\<close>

section \<open>Any sequence of events\<close>

text \<open>
  C11. Whatever events epoll reports, in any number and combination, with user callbacks that send,
  half-close or close: as long as the connection is open, the bytes accepted for sending (those on
  the wire followed by those in the output buffer) only grow at the end, so nothing is lost,
  reordered or repeated; \<open>EPOLLOUT\<close> is requested exactly while output waits; the write side is shut
  only after all output is on the wire; the registration matches the channel's state. A closed
  connection never becomes open again, and bytes on the wire stay.
\<close>

theorem conn_events_safe:
  assumes "conn_callbacks cbs" "conn_ok c w" "w' = fold (conn_event cbs c) evs w"
  shows "conn_ok c w' \<and> prefix (wire (sk (conns w c))) (wire (sk (conns w' c)))
    \<and> (is_open c w' \<longrightarrow> is_open c w \<and> prefix (stream c w) (stream c w')
         \<and> (is_writing (cn_channel (conns w' c)) \<longleftrightarrow> readable_view (output_buffer (conns w' c)) \<noteq> [])
         \<and> (shut_wr (sk (conns w' c)) \<longrightarrow> wire (sk (conns w' c)) = stream c w')
         \<and> registered (cn_channel (conns w' c)) (loops w' (loop_of c w')))"
proof -
  have "conn_adv c w w'" unfolding assms(3)
    using conn_callbacks.event_adv [OF assms(1)] assms(2) by (rule conn_adv_fold)
  then show ?thesis by (auto simp: conn_adv_def conn_ok_core conn_core_def Let_def stream_def)
qed

theorem conn_events_safe_witness:
  "conn_ok 3 (fold (conn_event (server_cbs (http_on_message None) http_on_connection) 3) [EPOLLIN OR EPOLLOUT, EPOLLERR, EPOLLHUP] sample_http)"
  using conn_events_safe [OF http_app.conn_callbacks_axioms sample_http_ok(1) refl] by blast

section \<open>Sending\<close>

lemma send_functors:
  assumes "conn_closer clcb" "conn_ok c w" "cn_state (conns w c) = kConnected" "w' = conn_send clcb c data w" "is_open c w'"
  shows "pending_functors (loops w' (loop_of c w)) = pending_functors (loops w (loop_of c w))
    @ (if high_water_mark (conns w c) > 0 \<and> has_high_water_cb (conns w c)
          \<and> length (readable_view (output_buffer (conns w c))) < high_water_mark (conns w c)
          \<and> high_water_mark (conns w c) \<le> length (readable_view (output_buffer (conns w' c)))
       then [Task (HighWater c)] else [])"
proof (cases "data = []")
  case False
  have "is_open c w" using assms(3) by (simp add: is_open_def)
  then have inv: "buffer_inv (output_buffer (conns w c))" using assms(2) by (simp add: conn_ok_core conn_core_def Let_def)
  have len: "readable_bytes (output_buffer (conns w c)) = length (readable_view (output_buffer (conns w c)))"
    using length_readable_view [OF inv] by simp
  show ?thesis
  proof (cases "readable_view (output_buffer (conns w c)) = []")
    case empty: True
    obtain r rest s where l: "send_loop data (sk (conns w c)) = (r, rest, s)" by (metis prod_cases3)
    define w1 where "w1 = on_conn c (\<lambda>cn. cn\<lparr>sk := s\<rparr>) w"
    have ok1: "conn_ok c w1" using assms(2) send_loop_spec [OF l] empty assms(3) by (auto simp: w1_def conn_ok_def Let_def)
    have w1: "cn_state (conns w1 c) = kConnected" "output_buffer (conns w1 c) = output_buffer (conns w c)"
      "loops w1 = loops w" "loop_of c w1 = loop_of c w" "crosses_high_water (conns w1 c) = crosses_high_water (conns w c)"
      using assms(3) by (simp_all add: w1_def crosses_high_water_def fun_eq_iff)
    have "w' = (if r = IoError then conn_close clcb c w1 else send_rest c rest w1)"
      using False empty inv assms(3) by (simp add: assms(4) conn_send_def l buf_empty_view w1_def)
    then have w': "w' = send_rest c rest w1"
      using assms(5) conn_closer.close_closes [OF assms(1) ok1] by (auto split: if_splits)
    note e = send_rest_effect [OF ok1 w1(1) w']
    have "readable_view (output_buffer (conns w' c)) = rest"
      using e(2,4) empty w1(2) by (simp add: stream_def)
    then show ?thesis using e(5) empty len by (auto simp: w1 crosses_high_water_def)
  next
    case ne: False
    then have w': "w' = send_rest c data w" using False inv assms(3) by (simp add: assms(4) conn_send_def buf_empty_view)
    note e = send_rest_effect [OF assms(2,3) w']
    have "readable_view (output_buffer (conns w' c)) = readable_view (output_buffer (conns w c)) @ data"
      using e(2,4) by (simp add: stream_def)
    then show ?thesis using e(5) len False by (simp add: crosses_high_water_def)
  qed
qed (use assms(4) in \<open>simp add: conn_send_def\<close>)

text \<open>
  C12. \<open>send\<close> on a connected socket: unless a write error closes the connection, exactly \<open>data\<close> is added
  to the stream, wherever the kernel stops accepting; and the high-water callback is queued on the
  loop, once, exactly if this call lifts the output buffer from below the mark to the mark or above.
\<close>

theorem conn_send_exact:
  assumes "conn_closer clcb" "conn_ok c w" "connected c w" "w' = conn_send clcb c data w" "is_open c w'"
  shows "stream c w' = stream c w @ data
    \<and> pending_functors (loops w' (loop_of c w)) = pending_functors (loops w (loop_of c w))
        @ (if high_water_mark (conns w c) > 0 \<and> has_high_water_cb (conns w c)
              \<and> length (readable_view (output_buffer (conns w c))) < high_water_mark (conns w c)
              \<and> high_water_mark (conns w c) \<le> length (readable_view (output_buffer (conns w' c)))
           then [Task (HighWater c)] else [])"
proof
  have c: "cn_state (conns w c) = kConnected" using assms(3) by (simp add: connected_def)
  show "stream c w' = stream c w @ data" using conn_closer.send_adv(2) [OF assms(1,2)] c assms(4,5) by simp
qed (use send_functors [OF assms(1,2) _ assms(4,5)] assms(3) in \<open>simp add: connected_def\<close>)

theorem conn_send_exact_witness:
  "stream 3 (conn_send http_close_cb 3 ''abc'' sample_http) = stream 3 sample_http @ ''abc''"
proof -
  have "is_open 3 (conn_send http_close_cb 3 ''abc'' sample_http)"
    using http.send_blocked_open(1) [OF sample_http_ok(1) _ sample_http_ok(4)] sample_http_ok(2) by (simp add: connected_def is_open_def)
  from conn_send_exact [OF http.conn_closer_axioms sample_http_ok(1,2) refl this] show ?thesis by blast
qed

section \<open>Draining\<close>

text \<open>The number of bytes the kernel is willing to take, if it reports neither an error nor \<open>EAGAIN\<close> before.\<close>

fun room :: "wr_result list \<Rightarrow> nat" where
  "room (WCount k # ws) = k + room ws"
| "room (WIntr # ws) = room ws"
| "room _ = 0"

lemma send_loop_completes:
  "\<not> sk_closed s \<Longrightarrow> \<not> shut_wr s \<Longrightarrow> length data \<le> room (wr_script s) \<Longrightarrow> fst (send_loop data s) = EndOfStream"
proof (induction data s rule: send_loop.induct)
  case (1 data s)
  show ?case
  proof (cases "data = []")
    case False
    then obtain r ws where ws: "wr_script s = r # ws" using "1.prems"(3) by (cases "wr_script s") auto
    show ?thesis
    proof (cases r)
      case (WCount k)
      let ?n = "min k (length data)"
      let ?s = "s\<lparr>wr_script := ws, wire := wire s @ take ?n data\<rparr>"
      have w: "sys_write data s = (WCount ?n, ?s)" using "1.prems" ws WCount by (simp add: sys_write_def Let_def)
      have "length (drop ?n data) \<le> room (wr_script ?s)" using "1.prems"(3) ws WCount by auto
      then show ?thesis
        using "1.IH"(1,2) [OF False w [symmetric] refl] "1.prems" False w
        by (subst send_loop.simps) (cases "?n > 0"; auto)
    next
      case WIntr
      let ?s = "s\<lparr>wr_script := ws\<rparr>"
      have w: "sys_write data s = (WIntr, ?s)" using "1.prems" ws WIntr by (simp add: sys_write_def)
      then show ?thesis
        using "1.IH"(3) [OF False w [symmetric] refl] "1.prems" False ws WIntr by (subst send_loop.simps) simp
    qed (use "1.prems" ws False in simp_all)
  qed (subst send_loop.simps, simp)
qed

text \<open>
  C13. Once the kernel takes enough, a writable event empties the output buffer: every accepted byte is
  on the wire, \<open>EPOLLOUT\<close> is dropped, a half-close that was waiting is carried out now, and exactly one
  write-complete callback is queued if there is one.
\<close>

theorem conn_drains:
  assumes "conn_ok c w" "is_open c w" "readable_view (output_buffer (conns w c)) \<noteq> []"
    "length (readable_view (output_buffer (conns w c))) \<le> room (wr_script (sk (conns w c)))"
    "w' = conn_handle_write cbs c w"
  shows "wire (sk (conns w' c)) = stream c w \<and> readable_view (output_buffer (conns w' c)) = []
    \<and> \<not> is_writing (cn_channel (conns w' c)) \<and> cn_state (conns w' c) = cn_state (conns w c)
    \<and> shut_wr (sk (conns w' c)) = shutdown_pending (conns w c) \<and> \<not> shutdown_pending (conns w' c)
    \<and> pending_functors (loops w' (loop_of c w)) = pending_functors (loops w (loop_of c w))
        @ (if has_write_complete_cb (conns w c) then [Task (WriteComplete c)] else [])"
proof -
  note ok = assms(1) [unfolded conn_ok_core [OF assms(2)]]
  have inv: "buffer_inv (output_buffer (conns w c))" "\<not> sk_closed (sk (conns w c))" "\<not> shut_wr (sk (conns w c))"
    using ok assms(3) by (auto simp: conn_core_def Let_def)
  obtain r b s where l: "write_loop (output_buffer (conns w c)) (sk (conns w c)) = (r, b, s)" by (metis prod_cases3)
  have "r = EndOfStream"
    using write_loop_send_loop [OF inv(1) l] send_loop_completes [OF inv(2,3) assms(4)] by simp
  note d = handle_write_done [OF assms(1-3) l [unfolded this] assms(5)]
  have "is_open c w'" using d(6) assms(2) by (simp add: is_open_def)
  then have "\<not> is_writing (cn_channel (conns w' c))" using conn_adv_ok [OF d(1)] d(3) by (simp add: conn_ok_core)
  with d show ?thesis by blast
qed

theorem conn_drains_witness:
  "wire (sk (conns (conn_handle_write (server_cbs (http_on_message None) http_on_connection) 3
      ((\<lambda>w. on_conn 3 (\<lambda>cn. cn\<lparr>sk := (sk cn)\<lparr>wr_script := [WCount 2, WIntr, WCount 9]\<rparr>\<rparr>) w)
         (conn_send http_close_cb 3 ''abc'' sample_http))) 3)) = ''abc''"
proof -
  let ?w = "conn_send http_close_cb 3 ''abc'' sample_http"
  let ?v = "on_conn 3 (\<lambda>cn. cn\<lparr>sk := (sk cn)\<lparr>wr_script := [WCount 2, WIntr, WCount 9]\<rparr>\<rparr>) ?w"
  have st: "cn_state (conns ?w 3) = kConnected"
    using http.send_blocked_open(1) [OF sample_http_ok(1) _ sample_http_ok(4)] sample_http_ok(2) by (simp add: connected_def)
  then have op: "is_open 3 ?w" by (simp add: is_open_def)
  have okw: "conn_ok 3 ?w" by (rule conn_adv_ok [OF http.send_adv(1) [OF sample_http_ok(1)]])
  have "sk (conns ?w 3) = sk (conns sample_http 3)"
    using http.send_blocked_open(2) [OF sample_http_ok(1) _ sample_http_ok(4)] sample_http_ok(2) by (simp add: connected_def)
  then have str: "stream 3 ?w = ''abc''" "wire (sk (conns ?w 3)) = []"
    using http.send_adv(2) [OF sample_http_ok(1) op] sample_http_ok(2)
    by (simp_all add: connected_def stream_def [of 3 sample_http]) (simp_all add: sample_http_def new_connection_def)
  have v: "conn_ok 3 ?v" "is_open 3 ?v" using okw op by (auto simp: conn_ok_def Let_def is_open_def)
  have "readable_view (output_buffer (conns ?w 3)) = ''abc''" using str by (simp add: stream_def)
  then have out: "readable_view (output_buffer (conns ?v 3)) = ''abc''" by simp
  then have "readable_view (output_buffer (conns ?v 3)) \<noteq> []" "length (readable_view (output_buffer (conns ?v 3))) \<le> room (wr_script (sk (conns ?v 3)))"
    by simp_all
  note d = conjunct1 [OF conn_drains [OF v this refl, of "server_cbs (http_on_message None) http_on_connection"]]
  have "stream 3 ?v = ''abc''" using out str(2) by (simp add: stream_def)
  with d show ?thesis by (simp only:)
qed

section \<open>Closing\<close>

text \<open>
  C16. \<open>close\<close> takes effect once: the descriptor is closed and out of the interest list, the connection
  stays closed whatever the close callback does, a second \<open>close\<close>, \<open>shutdown\<close> or \<open>send\<close> changes nothing,
  so the close callback is not called again.
\<close>

theorem conn_close_once:
  assumes "conn_closer clcb" "conn_ok c w" "w' = conn_close clcb c w"
  shows "\<not> is_open c w' \<and> sk_closed (sk (conns w' c)) \<and> conn_close clcb c w' = w' \<and> conn_send clcb c data w' = w'
    \<and> conn_shutdown c w' = w' \<and> force_close_with_delay c ms w' = w'
    \<and> (is_open c w \<and> \<not> has_close_cb (conns w c) \<longrightarrow> interest (ep (loops w' (loop_of c w))) (cn_fd (conns w c)) = None)"
proof -
  have no: "\<not> is_open c w'" using conn_closer.close_closes [OF assms(1,2)] assms(3) by simp
  have "conn_ok c w'" using conn_adv_ok [OF conn_closer.close_adv [OF assms(1,2)]] assms(3) by simp
  then have "sk_closed (sk (conns w' c))" using no by (simp add: conn_ok_def Let_def is_open_def)
  moreover have "interest (ep (loops w' (loop_of c w))) (cn_fd (conns w c)) = None"
    if "is_open c w" "\<not> has_close_cb (conns w c)"
    using conn_close_released(4,6) [OF assms(2) that(1) refl] that
    by (simp add: assms(3) conn_close_def is_open_def Let_def)
  ultimately show ?thesis
    using no by (auto simp: conn_close_def conn_send_def conn_shutdown_def force_close_with_delay_def is_open_def)
qed

theorem conn_close_once_witness:
  "\<not> is_open 3 (conn_close http_close_cb 3 sample_http)"
  using conn_close_once [OF http.conn_closer_axioms sample_http_ok(1) refl] by blast

text \<open>
  \<open>handle_event_with_guard\<close> goes on after the error callback although that callback closes the
  connection: with \<open>EPOLLERR\<close> and \<open>EPOLLIN\<close> in one event the handler calls \<open>read\<close> on a descriptor number
  that is already closed, and that another thread may own by then.
\<close>

theorem read_after_error_close:
  assumes "conn_ok c w" "is_open c w" "\<not> has_close_cb (conns w c)" "cn_alive (conns w c)"
    "w' = conn_event cbs c (EPOLLERR OR EPOLLIN) w"
  shows "sk_closed (sk (conns w' c)) \<and> bad_io (sk (conns w' c)) = bad_io (sk (conns w c)) + 1"
proof -
  define w1 where "w1 = conn_close (close_cb cbs) c w"
  have rel: "w1 = conn_release c (on_conn c (\<lambda>cn. cn\<lparr>cn_state := kDisconnected\<rparr>) w)"
    using conn_close_released(6) [OF assms(1,2) refl] assms(2,3) by (simp add: w1_def conn_close_def is_open_def Let_def)
  note r = conn_close_released [OF assms(1,2) rel]
  have cl: "sk_closed (sk (conns w1 c))" using conn_adv_ok [OF r(1)] r(2) by (simp add: conn_ok_def Let_def)
  have bad: "bad_io (sk (conns w1 c)) = bad_io (sk (conns w c))"
    by (simp add: rel conn_release_def with_channel_def Let_def split: prod.split)
  have ev: "dispatch (EPOLLERR OR EPOLLIN) = [ErrorCb, ReadCb]" by code_simp
  have "w' = conn_handle_read cbs c w1"
    using assms(4) by (simp add: assms(5) conn_event_def handle_event_def handle_event_with_guard_def ev w1_def)
  moreover have "read_loop (input_buffer (conns w1 c)) (sk (conns w1 c)) =
      (IoError, ensure_writable (input_buffer (conns w1 c)) 4096, (sk (conns w1 c))\<lparr>bad_io := bad_io (sk (conns w1 c)) + 1\<rparr>)"
    using cl by (subst read_loop.simps) (simp add: sys_read_def Let_def)
  ultimately show ?thesis
    using cl bad r(2) by (simp add: conn_handle_read_def conn_close_def)
qed

theorem read_after_error_close_witness:
  "bad_io (sk (conns (conn_event (server_cbs (http_on_message None) http_on_connection) 3 (EPOLLERR OR EPOLLIN)
     (on_conn 3 (\<lambda>cn. cn\<lparr>has_close_cb := False\<rparr>) sample_http)) 3)) = 1"
proof -
  let ?w = "on_conn 3 (\<lambda>cn. cn\<lparr>has_close_cb := False\<rparr>) sample_http"
  have "conn_ok 3 ?w" "is_open 3 ?w" using sample_http_ok by (auto simp: conn_ok_def Let_def connected_def is_open_def)
  moreover have "\<not> has_close_cb (conns ?w 3)" "cn_alive (conns ?w 3)" "bad_io (sk (conns ?w 3)) = 0"
    by (simp_all add: sample_http_def new_connection_def)
  ultimately show ?thesis using read_after_error_close [OF _ _ _ _ refl, of 3 ?w] by simp
qed

end
