(* ===== verification/Event_Loop_Thread.thy ===== *)
theory Event_Loop_Thread
  imports Prelude
begin

text \<open>
  \<open>src/src/event_loop_thread.h\<close> and \<open>event_loop_thread.cpp\<close>: a thread with an event loop on its stack. Two
  threads share the pointer \<open>loop_\<close>: the owner, which runs \<open>start_loop\<close> and the destructor, and the thread
  that runs \<open>thread_func\<close>. Each definition is what one of them does between two points where the other can
  intervene; the step relation interleaves them. The loop itself is reduced to whether the object exists
  and whether \<open>quit\<close> has been called on it, which is what makes \<open>loop()\<close> return.
\<close>

section \<open>State\<close>

datatype owner_pc = OwnNew | OwnWaiting | OwnStarted | OwnSawLoop | OwnJoining | OwnEndBody | OwnDone

datatype thread_pc = ThrNone | ThrConstruct | ThrPublish | ThrLooping | ThrClear | ThrLeave | ThrDone

record el_thread =
  el_owner :: owner_pc
  el_thread_pc :: thread_pc
  loop_ptr :: bool
  loop_object :: bool
  quit_called :: bool
  joinable :: bool
  exiting :: bool
  bad_call :: bool
  terminated :: bool

definition new_el_thread :: el_thread where
  "new_el_thread = \<lparr>el_owner = OwnNew, el_thread_pc = ThrNone, loop_ptr = False, loop_object = False, quit_called = False,
     joinable = False, exiting = False, bad_call = False, terminated = False\<rparr>"

section \<open>The owner\<close>

definition start_thread :: "el_thread \<Rightarrow> el_thread" where
  "start_thread s = s\<lparr>el_owner := OwnWaiting, joinable := True, el_thread_pc := ThrConstruct\<rparr>"

text \<open>The wait returns when \<open>loop_\<close> is set.\<close>

definition start_loop_returns :: "el_thread \<Rightarrow> el_thread option" where
  "start_loop_returns s = (if loop_ptr s then Some (s\<lparr>el_owner := OwnStarted\<rparr>) else None)"

text \<open>\<open>quit\<close> through \<open>loop_\<close>: without an object behind it the call has no meaning.\<close>

definition call_quit :: "el_thread \<Rightarrow> el_thread" where
  "call_quit s = (if loop_ptr s \<and> loop_object s then s\<lparr>quit_called := True\<rparr> else s\<lparr>bad_call := True\<rparr>)"

definition dtor_check :: "el_thread \<Rightarrow> el_thread" where
  "dtor_check s = s\<lparr>exiting := True, el_owner := (if loop_ptr s then OwnSawLoop else OwnEndBody)\<rparr>"

definition dtor_quit :: "el_thread \<Rightarrow> el_thread" where
  "dtor_quit s = (call_quit s)\<lparr>el_owner := (if joinable s then OwnJoining else OwnEndBody)\<rparr>"

definition dtor_join :: "el_thread \<Rightarrow> el_thread option" where
  "dtor_join s = (if el_thread_pc s = ThrDone then Some (s\<lparr>joinable := False, el_owner := OwnEndBody\<rparr>) else None)"

text \<open>The members are destroyed: a \<open>std::thread\<close> that is still joinable calls \<open>std::terminate\<close>.\<close>

definition dtor_members :: "el_thread \<Rightarrow> el_thread" where
  "dtor_members s = s\<lparr>el_owner := OwnDone, terminated := terminated s \<or> joinable s\<rparr>"

section \<open>The thread\<close>

definition thread_construct :: "el_thread \<Rightarrow> el_thread" where
  "thread_construct s = s\<lparr>loop_object := True, el_thread_pc := ThrPublish\<rparr>"

definition thread_publish :: "el_thread \<Rightarrow> el_thread" where
  "thread_publish s = s\<lparr>loop_ptr := True, el_thread_pc := ThrLooping\<rparr>"

definition thread_loop_returns :: "el_thread \<Rightarrow> el_thread option" where
  "thread_loop_returns s = (if quit_called s then Some (s\<lparr>el_thread_pc := ThrClear\<rparr>) else None)"

definition thread_clear :: "el_thread \<Rightarrow> el_thread" where
  "thread_clear s = s\<lparr>loop_ptr := False, el_thread_pc := ThrLeave\<rparr>"

definition thread_leave :: "el_thread \<Rightarrow> el_thread" where
  "thread_leave s = s\<lparr>loop_object := False, el_thread_pc := ThrDone\<rparr>"

section \<open>Interleavings\<close>

inductive el_step :: "el_thread \<Rightarrow> el_thread \<Rightarrow> bool" where
  el_start: "el_owner s = OwnNew \<Longrightarrow> el_step s (start_thread s)"
| el_started: "el_owner s = OwnWaiting \<Longrightarrow> start_loop_returns s = Some t \<Longrightarrow> el_step s t"
| el_check: "el_owner s \<in> {OwnNew, OwnStarted} \<Longrightarrow> el_step s (dtor_check s)"
| el_quit: "el_owner s = OwnSawLoop \<Longrightarrow> el_step s (dtor_quit s)"
| el_join: "el_owner s = OwnJoining \<Longrightarrow> dtor_join s = Some t \<Longrightarrow> el_step s t"
| el_members: "el_owner s = OwnEndBody \<Longrightarrow> el_step s (dtor_members s)"
| el_construct: "el_thread_pc s = ThrConstruct \<Longrightarrow> el_step s (thread_construct s)"
| el_publish: "el_thread_pc s = ThrPublish \<Longrightarrow> el_step s (thread_publish s)"
| el_loop: "el_thread_pc s = ThrLooping \<Longrightarrow> thread_loop_returns s = Some t \<Longrightarrow> el_step s t"
| el_clear: "el_thread_pc s = ThrClear \<Longrightarrow> el_step s (thread_clear s)"
| el_leave: "el_thread_pc s = ThrLeave \<Longrightarrow> el_step s (thread_leave s)"

text \<open>The same, when somebody else who was given the loop may also tell it to quit.\<close>

definition el_step_ext :: "el_thread \<Rightarrow> el_thread \<Rightarrow> bool" where
  "el_step_ext s t \<longleftrightarrow> el_step s t \<or> (el_owner s = OwnStarted \<and> loop_object s \<and> t = s\<lparr>quit_called := True\<rparr>)"

section \<open>Invariant\<close>

text \<open>Where the thread can be while the owner is at a point, and the flags at each point.\<close>

fun together :: "owner_pc \<Rightarrow> thread_pc list" where
  "together OwnNew = [ThrNone]"
| "together OwnWaiting = [ThrConstruct, ThrPublish, ThrLooping]"
| "together OwnStarted = [ThrLooping]"
| "together OwnSawLoop = [ThrLooping]"
| "together OwnJoining = [ThrLooping, ThrClear, ThrLeave, ThrDone]"
| "together OwnEndBody = [ThrNone, ThrDone]"
| "together OwnDone = [ThrNone, ThrDone]"

fun has_object :: "thread_pc \<Rightarrow> bool" where
  "has_object ThrPublish = True" | "has_object ThrLooping = True" | "has_object ThrClear = True" | "has_object ThrLeave = True"
| "has_object _ = False"

fun has_pointer :: "thread_pc \<Rightarrow> bool" where
  "has_pointer ThrLooping = True" | "has_pointer ThrClear = True" | "has_pointer _ = False"

fun may_join :: "owner_pc \<Rightarrow> bool" where
  "may_join OwnWaiting = True" | "may_join OwnStarted = True" | "may_join OwnSawLoop = True" | "may_join OwnJoining = True"
| "may_join _ = False"

definition el_inv :: "el_thread \<Rightarrow> bool" where
  "el_inv s \<longleftrightarrow> \<not> bad_call s \<and> \<not> terminated s \<and> el_thread_pc s \<in> set (together (el_owner s))
     \<and> loop_object s = has_object (el_thread_pc s) \<and> loop_ptr s = has_pointer (el_thread_pc s) \<and> joinable s = may_join (el_owner s)
     \<and> (quit_called s \<longrightarrow> el_owner s \<noteq> OwnStarted \<and> el_owner s \<noteq> OwnSawLoop \<and> el_owner s \<noteq> OwnWaiting \<and> el_owner s \<noteq> OwnNew)"

lemmas el_defs = start_thread_def start_loop_returns_def call_quit_def dtor_check_def dtor_quit_def dtor_join_def dtor_members_def
  thread_construct_def thread_publish_def thread_loop_returns_def thread_clear_def thread_leave_def

lemma el_inv_step:
  assumes "el_inv s" "el_step s t"
  shows "el_inv t"
proof -
  obtain ow th p ob q j ex bc te where s: "s = \<lparr>el_owner = ow, el_thread_pc = th, loop_ptr = p, loop_object = ob, quit_called = q,
     joinable = j, exiting = ex, bad_call = bc, terminated = te\<rparr>" by (cases s)
  show ?thesis using assms(2,1) unfolding s
    by (cases rule: el_step.cases; cases ow; cases th; auto simp: el_inv_def el_defs split: if_splits)
qed

interpretation el_sys: invariant_system "\<lambda>s. s = new_el_thread" el_step el_inv
  by unfold_locales (simp add: el_inv_def new_el_thread_def, rule el_inv_step)

section \<open>Properties\<close>



text \<open>
  If the loop was told to quit by somebody else, the thread clears \<open>loop_\<close> on its way out; the
  destructor then skips the join, and destroying the joinable thread object terminates the process.
\<close>

theorem el_thread_terminates:
  "\<exists>s. reach (\<lambda>s. s = new_el_thread) el_step_ext s \<and> terminated s"
proof -
  let ?r = "reach (\<lambda>s. s = new_el_thread) el_step_ext"
  let ?s = "\<lambda>ow th p ob q ex te. \<lparr>el_owner = ow, el_thread_pc = th, loop_ptr = p, loop_object = ob, quit_called = q,
     joinable = True, exiting = ex, bad_call = False, terminated = te\<rparr>"
  have ext: "?r s \<Longrightarrow> el_step s t \<Longrightarrow> ?r t" for s t
    by (erule reach_step) (simp add: el_step_ext_def)
  have "?r new_el_thread" by (rule reach_init) simp
  then have "?r (?s OwnWaiting ThrConstruct False False False False False)"
    by (rule ext) (use el_start [of new_el_thread] in \<open>simp add: el_defs new_el_thread_def\<close>)
  then have "?r (?s OwnWaiting ThrPublish False True False False False)"
    by (rule ext) (use el_construct [of "?s OwnWaiting ThrConstruct False False False False False"] in \<open>simp add: el_defs\<close>)
  then have "?r (?s OwnWaiting ThrLooping True True False False False)"
    by (rule ext) (use el_publish [of "?s OwnWaiting ThrPublish False True False False False"] in \<open>simp add: el_defs\<close>)
  then have "?r (?s OwnStarted ThrLooping True True False False False)"
    by (rule ext) (rule el_started, simp_all add: el_defs)
  then have "?r (?s OwnStarted ThrLooping True True True False False)"
    by (rule reach_step) (simp add: el_step_ext_def)
  then have "?r (?s OwnStarted ThrClear True True True False False)"
    by (rule ext) (rule el_loop, simp_all add: el_defs)
  then have "?r (?s OwnStarted ThrLeave False True True False False)"
    by (rule ext) (use el_clear [of "?s OwnStarted ThrClear True True True False False"] in \<open>simp add: el_defs\<close>)
  then have "?r (?s OwnEndBody ThrLeave False True True True False)"
    by (rule ext) (use el_check [of "?s OwnStarted ThrLeave False True True False False"] in \<open>simp add: el_defs\<close>)
  then have "?r (?s OwnDone ThrLeave False True True True True)"
    by (rule ext) (use el_members [of "?s OwnEndBody ThrLeave False True True True False"] in \<open>simp add: el_defs\<close>)
  then show ?thesis by (rule exI [of _ "?s OwnDone ThrLeave False True True True True", OF conjI]) simp
qed

end
