(* ===== verification/Log_File.thy ===== *)
theory Log_File
  imports Text
begin

text \<open>
  \<open>src/log_server/log_file.h\<close> and \<open>log_file.cpp\<close>: a log file that rolls by size and by date.

  The file system is the list of paths with what the kernel has of each file. A \<open>FILE*\<close> is the path
  it was opened with and the bytes still in the buffer of the C library. What can go wrong is scripted:
  whether the next \<open>fopen\<close> succeeds, and how many bytes the next \<open>fwrite\<close> accepts and how many bytes the
  library hands to the kernel on its own. The system clock is a script of readings, since it is read
  anew by each \<open>append\<close>; when the script is used up the clock stands still. Flushing and closing
  succeed, as the code does not look at their results.
\<close>

section \<open>State\<close>

record tm =
  tm_year :: nat
  tm_mon :: nat
  tm_mday :: nat
  tm_hour :: nat
  tm_min :: nat
  tm_sec :: nat
  tm_ms :: nat

datatype node = RegularFile bytes | OtherNode

record log_file =
  basedir :: string
  basename :: string
  roll_size :: nat
  fp :: "(string \<times> bytes) option"
  written_bytes :: nat
  current_date :: string
  current_seq :: nat

record log_world =
  lf :: log_file
  fs :: "(string \<times> node) list"
  dir_readable :: bool
  fopen_script :: "bool list"
  fwrite_script :: "(nat \<times> nat) list"
  now_tm :: tm
  clock_script :: "tm list"

definition on_lf :: "(log_file \<Rightarrow> log_file) \<Rightarrow> ('z log_world_scheme) \<Rightarrow> 'z log_world_scheme" where
  "on_lf f w = w\<lparr>lf := f (lf w)\<rparr>"

section \<open>The system\<close>

definition read_clock :: "'z log_world_scheme \<Rightarrow> tm \<times> 'z log_world_scheme" where
  "read_clock w = (case clock_script w of [] \<Rightarrow> (now_tm w, w) | t # ts \<Rightarrow> (t, w\<lparr>now_tm := t, clock_script := ts\<rparr>))"

definition kernel_append :: "string \<Rightarrow> bytes \<Rightarrow> 'z log_world_scheme \<Rightarrow> 'z log_world_scheme" where
  "kernel_append p bs w = w\<lparr>fs := map (\<lambda>(q, n). (q, if q = p then (case n of RegularFile cs \<Rightarrow> RegularFile (cs @ bs) | OtherNode \<Rightarrow> OtherNode) else n)) (fs w)\<rparr>"

definition file_size :: "string \<Rightarrow> 'z log_world_scheme \<Rightarrow> nat option" where
  "file_size p w = (case map_of (fs w) p of Some (RegularFile cs) \<Rightarrow> Some (length cs) | _ \<Rightarrow> None)"

text \<open>\<open>fopen(path, "ae")\<close>.\<close>

definition fopen_append :: "string \<Rightarrow> 'z log_world_scheme \<Rightarrow> bool \<times> 'z log_world_scheme" where
  "fopen_append p w =
     (let (ok, w1) = (case fopen_script w of [] \<Rightarrow> (True, w) | b # bs \<Rightarrow> (b, w\<lparr>fopen_script := bs\<rparr>))
      in if \<not> ok then (False, w1)
         else case map_of (fs w1) p of
                None \<Rightarrow> (True, w1\<lparr>fs := fs w1 @ [(p, RegularFile [])]\<rparr>)
              | Some (RegularFile _) \<Rightarrow> (True, w1)
              | Some OtherNode \<Rightarrow> (False, w1))"

definition fflush :: "'z log_world_scheme \<Rightarrow> 'z log_world_scheme" where
  "fflush w = (case fp (lf w) of None \<Rightarrow> w
               | Some (p, buf) \<Rightarrow> on_lf (\<lambda>f. f\<lparr>fp := Some (p, [])\<rparr>) (kernel_append p buf w))"

text \<open>\<open>fwrite_unlocked\<close>: accepts a prefix of the data and may hand a prefix of its buffer to the kernel.\<close>

definition fwrite :: "bytes \<Rightarrow> 'z log_world_scheme \<Rightarrow> nat \<times> 'z log_world_scheme" where
  "fwrite data w =
     (case fp (lf w) of
        None \<Rightarrow> (0, w)
      | Some (p, buf) \<Rightarrow>
          let ((acc, spill), w1) = (case fwrite_script w of [] \<Rightarrow> ((length data, 0), w) | r # rs \<Rightarrow> (r, w\<lparr>fwrite_script := rs\<rparr>));
              n = min acc (length data);
              buf1 = buf @ take n data
          in (n, on_lf (\<lambda>f. f\<lparr>fp := Some (p, drop spill buf1)\<rparr>) (kernel_append p (take spill buf1) w1)))"

section \<open>Names\<close>

definition pad :: "nat \<Rightarrow> nat \<Rightarrow> string" where
  "pad k n = (let s = to_string n in replicate (k - length s) CHR ''0'' @ s)"

definition today_str :: "tm \<Rightarrow> string" where
  "today_str t = to_string (tm_year t) @ pad 2 (tm_mon t) @ pad 2 (tm_mday t)"

definition make_filename :: "log_file \<Rightarrow> string \<Rightarrow> nat \<Rightarrow> string" where
  "make_filename f date_str seq = basedir f @ ''/'' @ basename f @ ''.'' @ date_str @ ''.log.'' @ to_string seq"

text \<open>The regular files \<open>directory_iterator(basedir)\<close> yields, by name.\<close>

definition dir_files :: "string \<Rightarrow> (string \<times> node) list \<Rightarrow> string list" where
  "dir_files dir es =
     (let pre = dir @ ''/''
      in map (\<lambda>(p, _). drop (length pre) p)
           (filter (\<lambda>(p, n). n \<noteq> OtherNode \<and> take (length pre) p = pre \<and> CHR ''/'' \<notin> set (drop (length pre) p)) es))"

definition scan_name :: "string \<Rightarrow> string \<Rightarrow> nat \<Rightarrow> nat" where
  "scan_name pre name max_seq =
     (if length name \<le> length pre then max_seq
      else if take (length pre) name \<noteq> pre then max_seq
      else let tail = drop (length pre) name; (v, rest) = strtol tail
           in if rest = tail \<or> rest \<noteq> [] then max_seq
              else if v \<le> 0 \<or> 1000000 < v then max_seq
              else if nat v > max_seq then nat v else max_seq)"

definition scan_today_max_seq :: "string \<Rightarrow> 'z log_world_scheme \<Rightarrow> nat" where
  "scan_today_max_seq date_str w =
     (if \<not> dir_readable w then 0
      else fold (scan_name (basename (lf w) @ ''.'' @ date_str @ ''.log.'')) (dir_files (basedir (lf w)) (fs w)) 0)"

section \<open>Operations\<close>

definition open_file :: "'z log_world_scheme \<Rightarrow> 'z log_world_scheme" where
  "open_file w =
     (let w1 = on_lf (\<lambda>f. f\<lparr>fp := None\<rparr>) (fflush w);
          path = make_filename (lf w1) (current_date (lf w1)) (current_seq (lf w1));
          (ok, w2) = fopen_append path w1
      in if \<not> ok then on_lf (\<lambda>f. f\<lparr>written_bytes := 0\<rparr>) w2
         else on_lf (\<lambda>f. f\<lparr>fp := Some (path, []), written_bytes := (case file_size path w2 of None \<Rightarrow> 0 | Some sz \<Rightarrow> sz)\<rparr>) w2)"

definition roll_if_needed :: "'z log_world_scheme \<Rightarrow> 'z log_world_scheme" where
  "roll_if_needed w =
     (let (t, w1) = read_clock w; today = today_str t
      in if current_date (lf w1) \<noteq> [] \<and> today \<noteq> current_date (lf w1)
         then open_file (on_lf (\<lambda>f. f\<lparr>current_date := today, current_seq := 1\<rparr>) w1)
         else if fp (lf w1) \<noteq> None \<and> written_bytes (lf w1) \<ge> roll_size (lf w1)
         then open_file (on_lf (\<lambda>f. f\<lparr>current_seq := current_seq f + 1\<rparr>) w1)
         else if fp (lf w1) = None
         then let max_seq = scan_today_max_seq today w1;
                  seq = (if max_seq = 0 then 1
                         else case file_size (make_filename (lf w1) today max_seq) w1 of
                                Some sz \<Rightarrow> if sz < roll_size (lf w1) then max_seq else max_seq + 1
                              | None \<Rightarrow> max_seq + 1)
              in open_file (on_lf (\<lambda>f. f\<lparr>current_date := today, current_seq := seq\<rparr>) w1)
         else w1)"

definition new_log_file :: "string \<Rightarrow> string \<Rightarrow> nat \<Rightarrow> 'z log_world_scheme \<Rightarrow> 'z log_world_scheme" where
  "new_log_file dir base rsize w =
     roll_if_needed (w\<lparr>lf := \<lparr>basedir = dir, basename = base, roll_size = rsize, fp = None, written_bytes = 0,
       current_date = [], current_seq = 0\<rparr>\<rparr>)"

definition log_append :: "bytes \<Rightarrow> 'z log_world_scheme \<Rightarrow> 'z log_world_scheme" where
  "log_append data w =
     (let w1 = roll_if_needed w
      in if fp (lf w1) = None then w1
         else let (n, w2) = fwrite data w1 in on_lf (\<lambda>f. f\<lparr>written_bytes := written_bytes f + n\<rparr>) w2)"

definition line_prefix :: "tm \<Rightarrow> string" where
  "line_prefix t = ''['' @ pad 4 (tm_year t) @ ''-'' @ pad 2 (tm_mon t) @ ''-'' @ pad 2 (tm_mday t) @ '' ''
     @ pad 2 (tm_hour t) @ '':'' @ pad 2 (tm_min t) @ '':'' @ pad 2 (tm_sec t) @ ''.'' @ pad 3 (tm_ms t) @ ''] ''"

definition append_line :: "bytes \<Rightarrow> 'z log_world_scheme \<Rightarrow> 'z log_world_scheme" where
  "append_line payload w =
     (let (t, w1) = read_clock w
      in log_append [CHR 0x0A] (log_append payload (log_append (line_prefix t) w1)))"

definition log_flush :: "'z log_world_scheme \<Rightarrow> 'z log_world_scheme" where
  "log_flush w = (if fp (lf w) \<noteq> None then fflush w else w)"

definition destroy_log_file :: "'z log_world_scheme \<Rightarrow> 'z log_world_scheme" where
  "destroy_log_file w = (if fp (lf w) \<noteq> None then on_lf (\<lambda>f. f\<lparr>fp := None\<rparr>) (fflush w) else w)"

end
