(* ===== verification/Log_File_Props.thy ===== *)
theory Log_File_Props
  imports Log_File
begin

text \<open>
  What the log file promises: every accepted byte is in exactly one file and in order, the file a write
  goes to, the size bound, and where a restarted server continues.
\<close>

section \<open>Contents\<close>

text \<open>The bytes of a file, with those the C library still holds.\<close>

definition stored :: "string \<Rightarrow> 'z log_world_scheme \<Rightarrow> bytes" where
  "stored p w = (case map_of (fs w) p of Some (RegularFile cs) \<Rightarrow> cs | _ \<Rightarrow> [])
     @ (case fp (lf w) of Some (q, buf) \<Rightarrow> if q = p then buf else [] | None \<Rightarrow> [])"

abbreviation current_path :: "'z log_world_scheme \<Rightarrow> string" where
  "current_path w \<equiv> make_filename (lf w) (current_date (lf w)) (current_seq (lf w))"

text \<open>An open file exists; between operations it is the one of the current date and number, and its size is known.\<close>

definition fp_ok :: "'z log_world_scheme \<Rightarrow> bool" where
  "fp_ok w \<longleftrightarrow> (\<forall>p buf. fp (lf w) = Some (p, buf) \<longrightarrow> (\<exists>cs. map_of (fs w) p = Some (RegularFile cs)))"

definition log_inv :: "'z log_world_scheme \<Rightarrow> bool" where
  "log_inv w \<longleftrightarrow> fp_ok w \<and> (\<forall>p buf. fp (lf w) = Some (p, buf) \<longrightarrow> p = current_path w \<and> written_bytes (lf w) = length (stored p w))"

lemma lf_on_lf [simp]: "lf (on_lf f w) = f (lf w)" "fs (on_lf f w) = fs w" "fopen_script (on_lf f w) = fopen_script w"
  "fwrite_script (on_lf f w) = fwrite_script w" "clock_script (on_lf f w) = clock_script w" "now_tm (on_lf f w) = now_tm w"
  "dir_readable (on_lf f w) = dir_readable w"
  by (simp_all add: on_lf_def)

lemma kernel_append_frame [simp]: "lf (kernel_append p bs w) = lf w" "fopen_script (kernel_append p bs w) = fopen_script w"
  "fwrite_script (kernel_append p bs w) = fwrite_script w" "clock_script (kernel_append p bs w) = clock_script w"
  "now_tm (kernel_append p bs w) = now_tm w" "dir_readable (kernel_append p bs w) = dir_readable w"
  by (simp_all add: kernel_append_def)

lemma map_of_kernel_append:
  "map_of (fs (kernel_append p bs w)) q = (if q = p then map_option (\<lambda>n. case n of RegularFile cs \<Rightarrow> RegularFile (cs @ bs) | OtherNode \<Rightarrow> OtherNode)
     (map_of (fs w) q) else map_of (fs w) q)"
proof -
  have "map_of (map (\<lambda>(q, n). (q, if q = p then g n else n)) es) q = (if q = p then map_option g (map_of es q) else map_of es q)"
    for es :: "(string \<times> node) list" and g by (induction es) auto
  then show ?thesis by (simp add: kernel_append_def)
qed

lemma make_filename_cong:
  "basedir f = basedir g \<Longrightarrow> basename f = basename g \<Longrightarrow> make_filename f d n = make_filename g d n"
  by (simp add: make_filename_def)

lemma make_filename_seq [simp]: "make_filename f d m = make_filename f d n \<longleftrightarrow> m = n"
  by (simp add: make_filename_def)

text \<open>What no operation changes.\<close>

definition log_same :: "'z log_world_scheme \<Rightarrow> 'z log_world_scheme \<Rightarrow> bool" where
  "log_same w w' \<longleftrightarrow> basedir (lf w') = basedir (lf w) \<and> basename (lf w') = basename (lf w) \<and> roll_size (lf w') = roll_size (lf w)
     \<and> (\<forall>p. stored p w' = stored p w)"

lemma log_same_refl [simp]: "log_same w w"
  by (simp add: log_same_def)

lemma log_same_trans: "log_same w w1 \<Longrightarrow> log_same w1 w2 \<Longrightarrow> log_same w w2"
  by (simp add: log_same_def)

lemma log_same_on_lf:
  "basedir (f (lf w)) = basedir (lf w) \<Longrightarrow> basename (f (lf w)) = basename (lf w) \<Longrightarrow> roll_size (f (lf w)) = roll_size (lf w)
     \<Longrightarrow> fp (f (lf w)) = fp (lf w) \<Longrightarrow> log_same w (on_lf f w)"
  by (simp add: log_same_def stored_def)

lemma log_same_make_filename: "log_same w w' \<Longrightarrow> make_filename (lf w') = make_filename (lf w)"
  by (simp add: log_same_def make_filename_def fun_eq_iff)

lemma read_clock_frame:
  assumes "read_clock w = (t, w1)"
  shows "lf w1 = lf w" "fs w1 = fs w" "fopen_script w1 = fopen_script w" "fwrite_script w1 = fwrite_script w" "log_same w w1"
    "dir_readable w1 = dir_readable w"
    "t \<in> insert (now_tm w) (set (clock_script w))" "insert (now_tm w1) (set (clock_script w1)) \<subseteq> insert (now_tm w) (set (clock_script w))"
  using assms by (auto simp: read_clock_def log_same_def stored_def split: list.splits)

lemma fflush_same: "fp_ok w \<Longrightarrow> log_same w (fflush w)"
  by (auto simp: fflush_def log_same_def stored_def fp_ok_def map_of_kernel_append split: option.splits)

lemma fflush_frame [simp]:
  "fopen_script (fflush w) = fopen_script w" "fwrite_script (fflush w) = fwrite_script w" "clock_script (fflush w) = clock_script w"
  "now_tm (fflush w) = now_tm w" "current_date (lf (fflush w)) = current_date (lf w)" "current_seq (lf (fflush w)) = current_seq (lf w)"
  by (simp_all add: fflush_def split: option.split)

lemma append_node_other: "(case n of RegularFile cs \<Rightarrow> RegularFile (cs @ bs) | OtherNode \<Rightarrow> OtherNode) = OtherNode \<longleftrightarrow> n = OtherNode"
  by (cases n) simp_all

lemma fflush_nodes:
  "map_of (fs (fflush w)) p = None \<longleftrightarrow> map_of (fs w) p = None" "map_of (fs (fflush w)) p = Some OtherNode \<longleftrightarrow> map_of (fs w) p = Some OtherNode"
  by (auto simp: fflush_def map_of_kernel_append append_node_other split: option.split)

text \<open>Flushing and closing leaves everything with the kernel.\<close>

definition close_fp :: "'z log_world_scheme \<Rightarrow> 'z log_world_scheme" where
  "close_fp w = on_lf (\<lambda>f. f\<lparr>fp := None\<rparr>) (fflush w)"

lemma close_fp_same:
  assumes "fp_ok w"
  shows "log_same w (close_fp w)" "stored p (close_fp w) = (case map_of (fs (close_fp w)) p of Some (RegularFile cs) \<Rightarrow> cs | _ \<Rightarrow> [])"
proof -
  have "stored q (close_fp w) = stored q (fflush w)" for q
    by (auto simp: close_fp_def stored_def fflush_def split: option.splits)
  with fflush_same [OF assms] show "log_same w (close_fp w)" by (simp add: log_same_def close_fp_def)
  show "stored p (close_fp w) = (case map_of (fs (close_fp w)) p of Some (RegularFile cs) \<Rightarrow> cs | _ \<Rightarrow> [])"
    by (simp add: close_fp_def stored_def)
qed

lemma fopen_append_effect:
  assumes "fopen_append p w = (ok, w1)"
  shows "lf w1 = lf w" "fwrite_script w1 = fwrite_script w" "now_tm w1 = now_tm w" "clock_script w1 = clock_script w"
    "\<And>q. stored q w1 = stored q w" "ok \<Longrightarrow> \<exists>cs. map_of (fs w1) p = Some (RegularFile cs)"
    "fopen_script w = [] \<Longrightarrow> fopen_script w1 = [] \<and> (ok \<longleftrightarrow> map_of (fs w) p \<noteq> Some OtherNode)"
    "\<And>q. q \<noteq> p \<Longrightarrow> map_of (fs w1) q = map_of (fs w) q" "map_of (fs w1) q = Some OtherNode \<longleftrightarrow> map_of (fs w) q = Some OtherNode"
proof -
  obtain ok0 v where v0: "(case fopen_script w of [] \<Rightarrow> (True, w) | b # bs \<Rightarrow> (b, w\<lparr>fopen_script := bs\<rparr>)) = (ok0, v)" by fastforce
  then have v: "lf v = lf w" "fs v = fs w" "fwrite_script v = fwrite_script w" "now_tm v = now_tm w" "clock_script v = clock_script w"
    "fopen_script w = [] \<Longrightarrow> fopen_script v = [] \<and> ok0"
    by (auto split: list.splits)
  have fresh: "([p \<mapsto> n] ++ m) q = (if q = p \<and> m p = None then Some n else m q)" for m :: "string \<rightharpoonup> node" and n q
    by (auto simp: map_add_def split: option.split)
  consider "w1 = v" "\<not> ok" "ok0 \<longrightarrow> map_of (fs v) p = Some OtherNode" | cs where "w1 = v" "ok" "map_of (fs v) p = Some (RegularFile cs)"
    | "w1 = v\<lparr>fs := fs v @ [(p, RegularFile [])]\<rparr>" "ok" "map_of (fs v) p = None"
    using assms unfolding fopen_append_def v0
    by (cases ok0; cases "map_of (fs v) p"; cases "the (map_of (fs v) p)") auto
  note cs = this
  from cs show "lf w1 = lf w" "fwrite_script w1 = fwrite_script w" "now_tm w1 = now_tm w" "clock_script w1 = clock_script w"
    by (cases, simp_all add: v)+
  from cs show "stored q w1 = stored q w" for q by cases (simp_all add: stored_def v fresh)
  from cs show "ok \<Longrightarrow> \<exists>cs. map_of (fs w1) p = Some (RegularFile cs)" by cases (simp_all add: fresh)
  from cs show "fopen_script w = [] \<Longrightarrow> fopen_script w1 = [] \<and> (ok \<longleftrightarrow> map_of (fs w) p \<noteq> Some OtherNode)"
    by cases (simp_all add: v)
  from cs show "map_of (fs w1) q = map_of (fs w) q" if "q \<noteq> p" for q using that by cases (simp_all add: v fresh)
  from cs show "map_of (fs w1) q = Some OtherNode \<longleftrightarrow> map_of (fs w) q = Some OtherNode" by cases (auto simp: v fresh)
qed

lemma open_file_effect:
  assumes "fp_ok w" "w' = open_file w"
  shows "log_inv w'" "log_same w w'" "current_date (lf w') = current_date (lf w)" "current_seq (lf w') = current_seq (lf w)"
    "fwrite_script w' = fwrite_script w" "now_tm w' = now_tm w" "clock_script w' = clock_script w"
    "fopen_script w = [] \<Longrightarrow> fopen_script w' = [] \<and> (fp (lf w') \<noteq> None \<longleftrightarrow> map_of (fs w) (current_path w) \<noteq> Some OtherNode)"
    "\<And>p. p \<noteq> current_path w \<Longrightarrow> map_of (fs w') p = None \<longleftrightarrow> map_of (fs w) p = None"
    "\<And>p. map_of (fs w') p = Some OtherNode \<longleftrightarrow> map_of (fs w) p = Some OtherNode"
proof -
  note c = close_fp_same [OF assms(1)]
  have cl: "current_date (lf (close_fp w)) = current_date (lf w)" "current_seq (lf (close_fp w)) = current_seq (lf w)"
    "fwrite_script (close_fp w) = fwrite_script w" "now_tm (close_fp w) = now_tm w" "clock_script (close_fp w) = clock_script w"
    "fopen_script (close_fp w) = fopen_script w" "fp (lf (close_fp w)) = None"
    "\<And>p. map_of (fs (close_fp w)) p = None \<longleftrightarrow> map_of (fs w) p = None"
    "\<And>p. map_of (fs (close_fp w)) p = Some OtherNode \<longleftrightarrow> map_of (fs w) p = Some OtherNode"
    by (simp_all add: close_fp_def fflush_nodes)
  have path: "make_filename (lf (close_fp w)) (current_date (lf w)) (current_seq (lf w)) = current_path w"
    using log_same_make_filename [OF c(1)] by simp
  obtain ok w2 where o: "fopen_append (current_path w) (close_fp w) = (ok, w2)" by fastforce
  note f = fopen_append_effect [OF o]
  have w': "w' = (if ok then on_lf (\<lambda>f. f\<lparr>fp := Some (current_path w, []), written_bytes := (case file_size (current_path w) w2 of None \<Rightarrow> 0 | Some sz \<Rightarrow> sz)\<rparr>) w2
      else on_lf (\<lambda>f. f\<lparr>written_bytes := 0\<rparr>) w2)"
    using o path by (simp add: assms(2) open_file_def close_fp_def [symmetric] cl Let_def)
  have st: "stored p w' = stored p w2" for p by (simp add: w' stored_def f(1) cl(7))
  show same: "log_same w w'" using c(1) f(5) st by (simp add: log_same_def) (simp add: w' f(1))
  show cd: "current_date (lf w') = current_date (lf w)" "current_seq (lf w') = current_seq (lf w)" "fwrite_script w' = fwrite_script w"
    "now_tm w' = now_tm w" "clock_script w' = clock_script w"
    using f(1-4) by (simp_all add: w' cl)
  show "fopen_script w = [] \<Longrightarrow> fopen_script w' = [] \<and> (fp (lf w') \<noteq> None \<longleftrightarrow> map_of (fs w) (current_path w) \<noteq> Some OtherNode)"
    using f(1,7) by (simp add: w' cl)
  show "\<And>p. p \<noteq> current_path w \<Longrightarrow> map_of (fs w') p = None \<longleftrightarrow> map_of (fs w) p = None"
    "\<And>p. map_of (fs w') p = Some OtherNode \<longleftrightarrow> map_of (fs w) p = Some OtherNode"
    using f(8,9) by (simp_all add: w' cl)
  have cp: "current_path w' = current_path w" using log_same_make_filename [OF same] cd by simp
  show "log_inv w'"
  proof (cases ok)
    case True
    then obtain cs where cs: "map_of (fs w2) (current_path w) = Some (RegularFile cs)" using f(6) by blast
    then have "lf w' = (lf w2)\<lparr>fp := Some (current_path w, []), written_bytes := length cs\<rparr>" "fs w' = fs w2"
      using True by (simp_all add: w' file_size_def)
    then show ?thesis unfolding log_inv_def cp using cs by (simp add: fp_ok_def stored_def)
  next
    case False
    then show ?thesis by (simp add: w' log_inv_def fp_ok_def f(1) cl(7))
  qed
qed

text \<open>The number \<open>roll_if_needed\<close> continues with when it has no open file.\<close>

definition resume_seq :: "string \<Rightarrow> 'z log_world_scheme \<Rightarrow> nat" where
  "resume_seq today w =
     (let max_seq = scan_today_max_seq today w
      in if max_seq = 0 then 1
         else case file_size (make_filename (lf w) today max_seq) w of
                Some sz \<Rightarrow> if sz < roll_size (lf w) then max_seq else max_seq + 1
              | None \<Rightarrow> max_seq + 1)"

text \<open>The date and number of the file the next write goes to.\<close>

definition next_file :: "string \<Rightarrow> 'z log_world_scheme \<Rightarrow> string \<times> nat" where
  "next_file today w =
     (if current_date (lf w) \<noteq> [] \<and> today \<noteq> current_date (lf w) then (today, 1)
      else if fp (lf w) = None then (today, resume_seq today w)
      else if written_bytes (lf w) \<ge> roll_size (lf w) then (current_date (lf w), current_seq (lf w) + 1)
      else (current_date (lf w), current_seq (lf w)))"

lemma roll_if_needed_alt:
  "roll_if_needed w =
     (let (t, w1) = read_clock w; today = today_str t
      in if current_date (lf w1) \<noteq> [] \<and> today \<noteq> current_date (lf w1)
         then open_file (on_lf (\<lambda>f. f\<lparr>current_date := today, current_seq := 1\<rparr>) w1)
         else if fp (lf w1) \<noteq> None \<and> written_bytes (lf w1) \<ge> roll_size (lf w1)
         then open_file (on_lf (\<lambda>f. f\<lparr>current_seq := current_seq f + 1\<rparr>) w1)
         else if fp (lf w1) = None then open_file (on_lf (\<lambda>f. f\<lparr>current_date := today, current_seq := resume_seq today w1\<rparr>) w1)
         else w1)"
  unfolding roll_if_needed_def resume_seq_def Let_def ..

lemma roll_if_needed_effect:
  assumes "log_inv w" "w' = roll_if_needed w" "read_clock w = (t, w1)" "next_file (today_str t) w = (d, n)"
  shows "log_inv w'" "log_same w w'" "current_date (lf w') = d" "current_seq (lf w') = n" "fwrite_script w' = fwrite_script w"
    "insert (now_tm w') (set (clock_script w')) \<subseteq> insert (now_tm w) (set (clock_script w))"
    "fopen_script w = [] \<Longrightarrow> fopen_script w' = [] \<and> (fp (lf w') \<noteq> None \<longleftrightarrow> map_of (fs w) (make_filename (lf w) d n) \<noteq> Some OtherNode)"
    "\<And>p. p \<noteq> make_filename (lf w) d n \<Longrightarrow> map_of (fs w') p = None \<longleftrightarrow> map_of (fs w) p = None"
    "\<And>p. map_of (fs w') p = Some OtherNode \<longleftrightarrow> map_of (fs w) p = Some OtherNode"
proof -
  note c = read_clock_frame [OF assms(3)]
  define v where "v = on_lf (\<lambda>f. f\<lparr>current_date := d, current_seq := n\<rparr>) w1"
  have ok: "fp_ok v" using assms(1) by (simp add: v_def log_inv_def fp_ok_def c)
  have same: "log_same w v" unfolding v_def by (rule log_same_trans [OF c(5) log_same_on_lf]) simp_all
  have path: "current_path v = make_filename (lf w) d n" using log_same_make_filename [OF same] by (simp add: v_def)
  note e = open_file_effect [OF ok refl]
  have rs: "resume_seq (today_str t) w1 = resume_seq (today_str t) w"
    unfolding resume_seq_def scan_today_max_seq_def file_size_def c ..
  let ?newday = "current_date (lf w) \<noteq> [] \<and> today_str t \<noteq> current_date (lf w)"
  let ?keep = "\<not> ?newday \<and> fp (lf w) \<noteq> None \<and> written_bytes (lf w) < roll_size (lf w)"
  have seq: "on_lf (\<lambda>f. f\<lparr>current_seq := current_seq f + 1\<rparr>) w1 = v"
    if "d = current_date (lf w)" "n = current_seq (lf w) + 1"
    using that by (cases "lf w") (simp add: v_def on_lf_def c)
  note alt = roll_if_needed_alt [of w, folded assms(2), unfolded assms(3) Let_def prod.case c(1) rs]
  note nxt = assms(4) [unfolded next_file_def]
  consider (day) "?newday" | (none) "\<not> ?newday" "fp (lf w) = None" | (full) "\<not> ?newday" "fp (lf w) \<noteq> None" "roll_size (lf w) \<le> written_bytes (lf w)"
    | (stay) "?keep" by fastforce
  then have w': "w' = (if ?keep then w1 else open_file v)"
  proof cases
    case day
    then have "d = today_str t" "n = 1" using nxt by simp_all
    then show ?thesis using alt day by (simp add: v_def)
  next
    case none
    then have "d = today_str t" "n = resume_seq (today_str t) w" using nxt by (auto split: if_splits)
    then show ?thesis using alt none by (auto simp: v_def)
  next
    case full
    then have "on_lf (\<lambda>f. f\<lparr>current_seq := current_seq f + 1\<rparr>) w1 = v" using nxt by (intro seq) (auto split: if_splits)
    then show ?thesis using alt full by (auto split: if_splits)
  next
    case stay
    then show ?thesis using alt by (auto split: if_splits)
  qed
  have keep: "d = current_date (lf w) \<and> n = current_seq (lf w)" if ?keep
    using assms(4) that by (auto simp: next_file_def)
  have inv1: "log_inv w1" using assms(1) c(5) by (simp add: log_inv_def fp_ok_def c(1,2) log_same_def)
  show "log_inv w'" "log_same w w'" using inv1 c(5) e(1) log_same_trans [OF same e(2)] by (simp_all add: w')
  show "current_date (lf w') = d" "current_seq (lf w') = n" using keep e(3,4) by (simp_all add: w' c(1)) (simp_all add: v_def)
  show "fwrite_script w' = fwrite_script w" using e(5) by (simp add: w' c) (simp add: v_def c)
  show "insert (now_tm w') (set (clock_script w')) \<subseteq> insert (now_tm w) (set (clock_script w))"
    using c(8) e(6,7) by (simp add: w' v_def)
  show "fopen_script w = [] \<Longrightarrow> fopen_script w' = [] \<and> (fp (lf w') \<noteq> None \<longleftrightarrow> map_of (fs w) (make_filename (lf w) d n) \<noteq> Some OtherNode)"
  proof (cases ?keep)
    case True
    then obtain p buf where p: "fp (lf w) = Some (p, buf)" by auto
    then have "p = make_filename (lf w) d n" "\<exists>cs. map_of (fs w) p = Some (RegularFile cs)"
      using assms(1) keep [OF True] by (auto simp: log_inv_def fp_ok_def)
    then show "fopen_script w = [] \<Longrightarrow> ?thesis" using True p by (auto simp: w' c)
  next
    case False
    have "fopen_script v = fopen_script w" "fs v = fs w" by (simp_all add: v_def c)
    then show "fopen_script w = [] \<Longrightarrow> ?thesis" using e(8) path False by (auto simp: w')
  qed
  have "fs v = fs w" by (simp add: v_def c)
  then show "\<And>p. p \<noteq> make_filename (lf w) d n \<Longrightarrow> map_of (fs w') p = None \<longleftrightarrow> map_of (fs w) p = None"
    "\<And>p. map_of (fs w') p = Some OtherNode \<longleftrightarrow> map_of (fs w) p = Some OtherNode"
    using e(9,10) path c(2) by (auto simp: w')
qed

section \<open>Appending\<close>

lemma fwrite_effect:
  assumes "fp_ok w" "fp (lf w) = Some (p, buf)" "fwrite data w = (n, w')"
  shows "n \<le> length data" "fwrite_script w = [] \<Longrightarrow> n = length data \<and> fwrite_script w' = []"
    "stored q w' = stored q w @ (if q = p then take n data else [])" "fp_ok w'"
    "\<exists>b. lf w' = (lf w)\<lparr>fp := Some (p, b)\<rparr>" "now_tm w' = now_tm w" "clock_script w' = clock_script w" "fopen_script w' = fopen_script w"
    "\<And>r. map_of (fs w') r = None \<longleftrightarrow> map_of (fs w) r = None" "\<And>r. map_of (fs w') r = Some OtherNode \<longleftrightarrow> map_of (fs w) r = Some OtherNode"
proof -
  obtain acc spill v where v0: "(case fwrite_script w of [] \<Rightarrow> ((length data, 0), w) | r # rs \<Rightarrow> (r, w\<lparr>fwrite_script := rs\<rparr>)) = ((acc, spill), v)"
    by (metis prod.collapse)
  then have v: "lf v = lf w" "fs v = fs w" "fopen_script v = fopen_script w" "now_tm v = now_tm w" "clock_script v = clock_script w"
    "fwrite_script w = [] \<Longrightarrow> fwrite_script v = [] \<and> acc = length data"
    by (auto split: list.splits)
  define b where "b = buf @ take (min acc (length data)) data"
  have w': "n = min acc (length data)" "w' = on_lf (\<lambda>f. f\<lparr>fp := Some (p, drop spill b)\<rparr>) (kernel_append p (take spill b) v)"
    using assms(2,3) unfolding fwrite_def v0 by (auto simp: b_def Let_def)
  obtain cs where cs: "map_of (fs w) p = Some (RegularFile cs)" using assms(1,2) by (auto simp: fp_ok_def)
  show "n \<le> length data" "fwrite_script w = [] \<Longrightarrow> n = length data \<and> fwrite_script w' = []"
    "\<exists>b. lf w' = (lf w)\<lparr>fp := Some (p, b)\<rparr>" "now_tm w' = now_tm w" "clock_script w' = clock_script w" "fopen_script w' = fopen_script w"
    using v by (auto simp: w')
  show "stored q w' = stored q w @ (if q = p then take n data else [])"
  proof (cases "q = p")
    case True
    have "stored p w' = cs @ b" using cs by (simp add: stored_def w'(2) map_of_kernel_append v)
    then show ?thesis using True assms(2) cs by (simp add: b_def stored_def w'(1))
  qed (use assms(2) in \<open>simp add: stored_def w' map_of_kernel_append v\<close>)
  show "fp_ok w'" using cs by (simp add: fp_ok_def w' map_of_kernel_append v)
  show "map_of (fs w') r = None \<longleftrightarrow> map_of (fs w) r = None" "map_of (fs w') r = Some OtherNode \<longleftrightarrow> map_of (fs w) r = Some OtherNode" for r
    using cs by (auto simp: w' map_of_kernel_append v append_node_other)
qed

text \<open>Everything \<open>append\<close> does.\<close>

lemma log_append_effect:
  assumes "log_inv w" "w' = log_append data w" "read_clock w = (t, w0)" "next_file (today_str t) w = (d, n)" "path = make_filename (lf w) d n"
  shows "log_inv w'" "current_date (lf w') = d" "current_seq (lf w') = n" "make_filename (lf w') = make_filename (lf w)"
    "roll_size (lf w') = roll_size (lf w)"
    "\<exists>k. k \<le> length data \<and> (\<forall>p. stored p w' = stored p w @ (if p = path then take k data else []))
       \<and> (fp (lf w') = None \<longrightarrow> k = 0) \<and> (fp (lf w') \<noteq> None \<and> fwrite_script w = [] \<longrightarrow> k = length data)"
    "fopen_script w = [] \<Longrightarrow> fopen_script w' = [] \<and> (fp (lf w') \<noteq> None \<longleftrightarrow> map_of (fs w) path \<noteq> Some OtherNode)"
    "fwrite_script w = [] \<Longrightarrow> fwrite_script w' = []"
    "insert (now_tm w') (set (clock_script w')) \<subseteq> insert (now_tm w) (set (clock_script w))"
    "\<And>p. p \<noteq> path \<Longrightarrow> map_of (fs w') p = None \<longleftrightarrow> map_of (fs w) p = None"
    "\<And>p. map_of (fs w') p = Some OtherNode \<longleftrightarrow> map_of (fs w) p = Some OtherNode"
proof -
  define w1 where "w1 = roll_if_needed w"
  note r = roll_if_needed_effect [OF assms(1) w1_def assms(3,4)]
  have path: "current_path w1 = path" using log_same_make_filename [OF r(2)] r(3,4) assms(5) by simp
  have st: "stored p w1 = stored p w" for p using r(2) by (simp add: log_same_def)
  have "(log_inv w' \<and> current_date (lf w') = d \<and> current_seq (lf w') = n \<and> make_filename (lf w') = make_filename (lf w)
      \<and> roll_size (lf w') = roll_size (lf w) \<and> (fwrite_script w = [] \<longrightarrow> fwrite_script w' = []))
    \<and> (\<exists>k. k \<le> length data \<and> (\<forall>p. stored p w' = stored p w @ (if p = path then take k data else []))
       \<and> (fp (lf w') = None \<longrightarrow> k = 0) \<and> (fp (lf w') \<noteq> None \<and> fwrite_script w = [] \<longrightarrow> k = length data))
    \<and> (fp (lf w') \<noteq> None \<longleftrightarrow> fp (lf w1) \<noteq> None) \<and> fopen_script w' = fopen_script w1
    \<and> insert (now_tm w') (set (clock_script w')) = insert (now_tm w1) (set (clock_script w1))
    \<and> (\<forall>p. (map_of (fs w') p = None \<longleftrightarrow> map_of (fs w1) p = None) \<and> (map_of (fs w') p = Some OtherNode \<longleftrightarrow> map_of (fs w1) p = Some OtherNode))"
  proof (cases "fp (lf w1)")
    case None
    then have "w' = w1" by (simp add: assms(2) log_append_def w1_def)
    then show ?thesis using r(1-5) None st log_same_make_filename [OF r(2)] by (auto simp: log_same_def intro: exI [of _ 0])
  next
    case (Some pb)
    then have "fst pb = path" using r(1) path by (cases pb) (simp add: log_inv_def)
    then obtain buf where fp: "fp (lf w1) = Some (path, buf)" using Some by (cases pb) simp
    obtain k w2 where f: "fwrite data w1 = (k, w2)" by fastforce
    have "fp_ok w1" using r(1) by (simp add: log_inv_def)
    note e = fwrite_effect [OF this fp f]
    have w': "w' = on_lf (\<lambda>f. f\<lparr>written_bytes := written_bytes f + k\<rparr>) w2"
      using fp f by (simp add: assms(2) log_append_def flip: w1_def)
    obtain b where b: "lf w2 = (lf w1)\<lparr>fp := Some (path, b)\<rparr>" using e(5) by blast
    have sw: "stored p w' = stored p w @ (if p = path then take k data else [])" for p
      using e(3) st by (simp add: w' stored_def)
    have "written_bytes (lf w1) = length (stored path w)" using r(1) fp st by (auto simp: log_inv_def)
    then have "log_inv w'"
      using e(1,4) path sw by (auto simp: log_inv_def fp_ok_def w' b make_filename_def)
    moreover have "make_filename (lf w') = make_filename (lf w)" "roll_size (lf w') = roll_size (lf w)"
      using r(2) by (simp_all add: w' b make_filename_def fun_eq_iff log_same_def)
    moreover have "fp (lf w') \<noteq> None" "fwrite_script w = [] \<longrightarrow> k = length data \<and> fwrite_script w' = []"
      using e(2) r(5) by (simp_all add: w' b)
    moreover have "current_date (lf w') = d" "current_seq (lf w') = n" using r(3,4) by (simp_all add: w' b)
    ultimately show ?thesis using sw e(1,6-10) fp by (auto simp: w' intro: exI [of _ k])
  qed
  note this [THEN conjunct1] this [THEN conjunct2, THEN conjunct1] this [THEN conjunct2, THEN conjunct2]
  then show "log_inv w'" "current_date (lf w') = d" "current_seq (lf w') = n" "make_filename (lf w') = make_filename (lf w)"
    "roll_size (lf w') = roll_size (lf w)"
    "\<exists>k. k \<le> length data \<and> (\<forall>p. stored p w' = stored p w @ (if p = path then take k data else []))
       \<and> (fp (lf w') = None \<longrightarrow> k = 0) \<and> (fp (lf w') \<noteq> None \<and> fwrite_script w = [] \<longrightarrow> k = length data)"
    "fopen_script w = [] \<Longrightarrow> fopen_script w' = [] \<and> (fp (lf w') \<noteq> None \<longleftrightarrow> map_of (fs w) path \<noteq> Some OtherNode)"
    "fwrite_script w = [] \<Longrightarrow> fwrite_script w' = []"
    "insert (now_tm w') (set (clock_script w')) \<subseteq> insert (now_tm w) (set (clock_script w))"
    "\<And>p. p \<noteq> path \<Longrightarrow> map_of (fs w') p = None \<longleftrightarrow> map_of (fs w) p = None"
    "\<And>p. map_of (fs w') p = Some OtherNode \<longleftrightarrow> map_of (fs w) p = Some OtherNode"
    using r(6-9) assms(5) by auto
qed

text \<open>
  \<open>append\<close>: whatever the clock says and whatever fails, the log keeps its invariant, no file but the
  one of the chosen date and number changes, and that one gets a prefix of the data at its end, all of it
  when no write is cut short. The file is the first one of a new day, the next number when the current
  file is full, or the current file. Nothing is written exactly if the file cannot be opened.
\<close>

theorem log_append_exact:
  assumes "log_inv w" "w' = log_append data w" "next_file (today_str (fst (read_clock w))) w = (d, n)"
    "path = make_filename (lf w) d n"
  shows "log_inv w' \<and> current_date (lf w') = d \<and> current_seq (lf w') = n
    \<and> (\<forall>p. p \<noteq> path \<longrightarrow> stored p w' = stored p w)
    \<and> (\<exists>k \<le> length data. stored path w' = stored path w @ take k data
         \<and> (fp (lf w') = None \<longrightarrow> k = 0) \<and> (fp (lf w') \<noteq> None \<and> fwrite_script w = [] \<longrightarrow> k = length data))
    \<and> (fopen_script w = [] \<longrightarrow> (fp (lf w') \<noteq> None \<longleftrightarrow> map_of (fs w) path \<noteq> Some OtherNode))"
proof -
  obtain t w0 where rc: "read_clock w = (t, w0)" by fastforce
  then have "next_file (today_str t) w = (d, n)" using assms(3) by simp
  note e = log_append_effect [OF assms(1,2) rc this assms(4)]
  then show ?thesis by auto
qed

text \<open>A log below \<open>d\<close>, rolled at 30 bytes, on the day of its file \<open>f.20260616.log.1\<close>, which has 20 bytes.\<close>

definition sample_tm :: tm where
  "sample_tm = \<lparr>tm_year = 2026, tm_mon = 6, tm_mday = 16, tm_hour = 9, tm_min = 5, tm_sec = 1, tm_ms = 7\<rparr>"

definition sample_log :: "nat \<Rightarrow> log_world" where
  "sample_log k = \<lparr>lf = \<lparr>basedir = ''d'', basename = ''f'', roll_size = 30, fp = Some (''d/f.20260616.log.1'', []), written_bytes = k,
     current_date = ''20260616'', current_seq = 1\<rparr>, fs = [(''d/f.20260616.log.1'', RegularFile (replicate k CHR ''x''))],
     dir_readable = True, fopen_script = [], fwrite_script = [], now_tm = sample_tm, clock_script = []\<rparr>"

lemma sample_tm_today [simp]: "today_str sample_tm = ''20260616''"
  by code_simp

lemma to_string_small [simp]: "to_string (Suc 0) = ''1''" "to_string 2 = ''2''"
  by code_simp+

lemma sample_name [simp]: "make_filename (lf (sample_log k)) ''20260616'' (Suc 0) = ''d/f.20260616.log.1''"
  "make_filename (lf (sample_log k)) ''20260616'' 2 = ''d/f.20260616.log.2''"
  by (simp_all add: make_filename_def sample_log_def)

lemma sample_log_inv: "log_inv (sample_log k)"
  by (simp add: log_inv_def fp_ok_def stored_def sample_log_def make_filename_def)

theorem log_append_exact_witness:
  "stored ''d/f.20260616.log.2'' (log_append ''abc'' (sample_log 30)) = ''abc''"
proof -
  let ?w = "sample_log 30"
  have n: "next_file (today_str (fst (read_clock ?w))) ?w = (''20260616'', 2)"
    by (simp add: next_file_def read_clock_def) (simp add: sample_log_def)
  have s: "stored ''d/f.20260616.log.2'' ?w = []" "map_of (fs ?w) ''d/f.20260616.log.2'' = None" "fopen_script ?w = []" "fwrite_script ?w = []"
    by (simp_all add: stored_def sample_log_def)
  from log_append_exact [OF sample_log_inv refl n refl, of "''abc''"] s show ?thesis by auto
qed

section \<open>The size of a file\<close>

text \<open>A run within one day: nothing but the log creates files of the day, and opening succeeds.\<close>

definition day_ok :: "nat \<Rightarrow> nat \<Rightarrow> 'z log_world_scheme \<Rightarrow> bool" where
  "day_ok s0 k w \<longleftrightarrow> log_inv w \<and> fp (lf w) \<noteq> None \<and> fopen_script w = [] \<and> 0 < roll_size (lf w) \<and> s0 \<le> current_seq (lf w)
     \<and> (\<forall>t\<in>insert (now_tm w) (set (clock_script w)). today_str t = current_date (lf w))
     \<and> (\<forall>n. map_of (fs w) (make_filename (lf w) (current_date (lf w)) n) \<noteq> Some OtherNode)
     \<and> (\<forall>n > current_seq (lf w). map_of (fs w) (make_filename (lf w) (current_date (lf w)) n) = None)
     \<and> (\<forall>n \<ge> s0. length (stored (make_filename (lf w) (current_date (lf w)) n) w) < roll_size (lf w) + k)"

lemma stored_None: "map_of (fs w) p = None \<Longrightarrow> log_inv w \<Longrightarrow> stored p w = []"
  by (auto simp: stored_def log_inv_def fp_ok_def split: option.split)

lemma day_ok_append:
  assumes "day_ok s0 k w" "length data \<le> k" "w' = log_append data w"
  shows "day_ok s0 k w'" "current_date (lf w') = current_date (lf w)" "roll_size (lf w') = roll_size (lf w)"
    "make_filename (lf w') = make_filename (lf w)"
proof -
  let ?d = "current_date (lf w)" and ?s = "current_seq (lf w)"
  have a: "log_inv w" "fp (lf w) \<noteq> None" "fopen_script w = []" "0 < roll_size (lf w)" "s0 \<le> ?s"
    "\<And>t. t \<in> insert (now_tm w) (set (clock_script w)) \<Longrightarrow> today_str t = ?d"
    "\<And>n. map_of (fs w) (make_filename (lf w) ?d n) \<noteq> Some OtherNode"
    "\<And>n. ?s < n \<Longrightarrow> map_of (fs w) (make_filename (lf w) ?d n) = None"
    "\<And>n. s0 \<le> n \<Longrightarrow> length (stored (make_filename (lf w) ?d n) w) < roll_size (lf w) + k"
    using assms(1) unfolding day_ok_def by blast+
  obtain t w0 where rc: "read_clock w = (t, w0)" by fastforce
  then have "today_str t = ?d" using read_clock_frame(7) a(6) by blast
  then have nf: "next_file (today_str t) w = (?d, if written_bytes (lf w) \<ge> roll_size (lf w) then ?s + 1 else ?s)" (is "_ = (_, ?n)")
    using a(2) by (auto simp: next_file_def)
  note e = log_append_effect [OF a(1) assms(3) rc nf refl]
  obtain j where j: "j \<le> length data" "\<And>p. stored p w' = stored p w @ (if p = make_filename (lf w) ?d ?n then take j data else [])"
    using e(6) by blast
  have "length (stored (make_filename (lf w) ?d ?n) w) < roll_size (lf w)"
  proof (cases "written_bytes (lf w) \<ge> roll_size (lf w)")
    case True
    then show ?thesis using stored_None [OF a(8) a(1), of "?s + 1"] a(4) by simp
  next
    case False
    then show ?thesis using a(1,2) by (auto simp: log_inv_def)
  qed
  then have "length (stored (make_filename (lf w) ?d n) w') < roll_size (lf w) + k" if "s0 \<le> n" for n
    using a(9) [OF that] j assms(2) by (simp only: j(2) make_filename_seq) auto
  moreover have "fp (lf w') \<noteq> None" using e(7) a(3,7) by blast
  moreover have "?s \<le> ?n" by simp
  ultimately show "day_ok s0 k w'"
    unfolding day_ok_def e(2-5) using e(1,7,9-11) a by (auto simp del: split_paired_All)
  show "current_date (lf w') = ?d" "roll_size (lf w') = roll_size (lf w)" "make_filename (lf w') = make_filename (lf w)"
    by (rule e)+
qed

text \<open>
  C34. Rolling bounds the files: over any number of appends within a day, each of at most \<open>k\<close> bytes, no
  file the log writes to reaches the roll size by \<open>k\<close> bytes or more.
\<close>

theorem log_file_size_bound:
  assumes "day_ok s0 k w" "\<forall>data\<in>set ds. length data \<le> k" "s0 \<le> n"
  shows "length (stored (make_filename (lf w) (current_date (lf w)) n) (fold log_append ds w)) < roll_size (lf w) + k"
  using assms
proof (induction ds arbitrary: w)
  case Nil
  then show ?case by (simp add: day_ok_def)
next
  case (Cons data ds)
  note d = day_ok_append [OF Cons.prems(1) _ refl, of data]
  show ?case using Cons.IH [OF d(1)] Cons.prems(2,3) d(2-4) by simp
qed

theorem log_file_size_bound_witness:
  "length (stored ''d/f.20260616.log.1'' (fold log_append [''abcd'', ''efgh'', ''ij'', ''klmn''] (sample_log 20))) < 30 + 4"
proof -
  have "make_filename (lf (sample_log 20)) ''20260616'' n \<noteq> ''d/f.20260616.log.1''" if "n \<noteq> Suc 0" for n
    using that sample_name(1) [of 20] make_filename_seq by metis
  then have "day_ok 1 4 (sample_log 20)"
    using sample_log_inv [of 20] sample_name [of 20]
    by (simp add: day_ok_def) (auto simp: sample_log_def stored_def)
  from log_file_size_bound [OF this, of "[''abcd'', ''efgh'', ''ij'', ''klmn'']" 1] show ?thesis
    using sample_name [of 20] by (simp add: sample_log_def)
qed

section \<open>Restart\<close>

text \<open>
  C33. The scan at start-up finds the largest number in use: if the files of the day in the directory have
  the names the log gives them, the result is the maximum of their numbers up to a million, or 0 if there
  is none.
\<close>

theorem scan_finds_maximum:
  assumes "dir_readable w" "pre = basename (lf w) @ ''.'' @ date @ ''.log.''"
    "\<forall>name\<in>set (dir_files (basedir (lf w)) (fs w)). take (length pre) name = pre \<longrightarrow> (\<exists>n. name = pre @ to_string n)"
  shows "scan_today_max_seq date w = Max (insert 0 {n. n \<le> 1000000 \<and> pre @ to_string n \<in> set (dir_files (basedir (lf w)) (fs w))})"
proof -
  have one: "scan_name pre name m = max m (if name = pre @ to_string n \<and> n \<le> 1000000 then n else 0)"
    if "take (length pre) name = pre \<longrightarrow> name = pre @ to_string n" for name m n
  proof (cases "take (length pre) name = pre")
    case True
    then have "name = pre @ to_string n" using that by blast
    then show ?thesis by (simp add: scan_name_def Let_def max_def to_string_not_Nil [symmetric])
  next
    case False
    then have "name \<noteq> pre @ to_string n" by auto
    then show ?thesis using False by (simp add: scan_name_def)
  qed
  let ?S = "\<lambda>names. {n. n \<le> 1000000 \<and> pre @ to_string n \<in> set names}"
  have "fold (scan_name pre) names m = max m (Max (insert 0 (?S names)))"
    if "\<forall>name\<in>set names. take (length pre) name = pre \<longrightarrow> (\<exists>n. name = pre @ to_string n)" for names m
    using that
  proof (induction names arbitrary: m)
    case (Cons name names)
    have fin: "finite (insert 0 (?S names))" by (rule finite_subset [of _ "{..1000000}"]) auto
    obtain n where n: "take (length pre) name = pre \<longrightarrow> name = pre @ to_string n" using Cons.prems by auto
    have fold: "fold (scan_name pre) (name # names) m =
        max (max m (if name = pre @ to_string n \<and> n \<le> 1000000 then n else 0)) (Max (insert 0 (?S names)))"
      using Cons.IH [of "scan_name pre name m"] Cons.prems one [OF n] by simp
    show ?case
    proof (cases "name = pre @ to_string n \<and> n \<le> 1000000")
      case True
      then have "insert 0 (?S (name # names)) = insert n (insert 0 (?S names))" by auto
      then have "Max (insert 0 (?S (name # names))) = max n (Max (insert 0 (?S names)))" using Max_insert [OF fin] by simp
      then show ?thesis using True fold by (simp add: max.assoc)
    next
      case False
      then have "?S (name # names) = ?S names" using n by auto
      then show ?thesis unfolding fold if_not_P [OF False] by simp
    qed
  qed simp
  from this [OF assms(3), of 0] show ?thesis using assms(1,2) by (simp add: scan_today_max_seq_def)
qed

lemma dir_files_sample: "dir_files ''d'' [(''d/f.20260616.log.1'', RegularFile []), (''d/x'', OtherNode), (''d/f.20260616.log.2'', RegularFile [])]
    = [''f.20260616.log.1'', ''f.20260616.log.2'']"
  by code_simp

theorem scan_finds_maximum_witness:
  "scan_today_max_seq ''20260616'' ((sample_log 0)\<lparr>fs := [(''d/f.20260616.log.1'', RegularFile []), (''d/x'', OtherNode), (''d/f.20260616.log.2'', RegularFile [])]\<rparr>) = 2"
proof -
  let ?w = "(sample_log 0)\<lparr>fs := [(''d/f.20260616.log.1'', RegularFile []), (''d/x'', OtherNode), (''d/f.20260616.log.2'', RegularFile [])]\<rparr>"
  let ?pre = "''f.20260616.log.''"
  have b: "basedir (lf ?w) = ''d''" "dir_readable ?w" "?pre = basename (lf ?w) @ ''.'' @ ''20260616'' @ ''.log.''" by (simp_all add: sample_log_def)
  have names: "set (dir_files (basedir (lf ?w)) (fs ?w)) = {?pre @ to_string 1, ?pre @ to_string 2}"
    unfolding b(1) using dir_files_sample by simp
  then have "\<forall>name\<in>set (dir_files (basedir (lf ?w)) (fs ?w)). take (length ?pre) name = ?pre \<longrightarrow> (\<exists>n. name = ?pre @ to_string n)" by blast
  note m = scan_finds_maximum [OF b(2,3) this, unfolded names]
  have "{n. n \<le> (1000000 :: nat) \<and> ?pre @ to_string n \<in> {?pre @ to_string 1, ?pre @ to_string 2}} = {1, 2}"
    by (auto simp del: to_string_small append.simps)
  then show ?thesis unfolding m by simp
qed

section \<open>Lines\<close>

text \<open>One \<open>append\<close> while time stands still at \<open>t\<close> and nothing fails.\<close>

definition calm :: "tm \<Rightarrow> 'z log_world_scheme \<Rightarrow> bool" where
  "calm t w \<longleftrightarrow> log_inv w \<and> fp (lf w) \<noteq> None \<and> fopen_script w = [] \<and> fwrite_script w = []
     \<and> insert (now_tm w) (set (clock_script w)) \<subseteq> {t} \<and> today_str t = current_date (lf w)"

definition write_seq :: "'z log_world_scheme \<Rightarrow> nat" where
  "write_seq w = (if written_bytes (lf w) \<ge> roll_size (lf w) then current_seq (lf w) + 1 else current_seq (lf w))"

lemma calm_append:
  assumes "calm t w" "path = make_filename (lf w) (current_date (lf w)) (write_seq w)" "map_of (fs w) path \<noteq> Some OtherNode"
    "w' = log_append data w"
  shows "calm t w'" "current_date (lf w') = current_date (lf w)" "current_seq (lf w') = write_seq w" "roll_size (lf w') = roll_size (lf w)"
    "make_filename (lf w') = make_filename (lf w)" "\<And>p. map_of (fs w') p = Some OtherNode \<longleftrightarrow> map_of (fs w) p = Some OtherNode"
    "\<And>p. stored p w' = stored p w @ (if p = path then data else [])" "written_bytes (lf w') = length (stored path w) + length data"
proof -
  have a: "log_inv w" "fp (lf w) \<noteq> None" "fopen_script w = []" "fwrite_script w = []" "insert (now_tm w) (set (clock_script w)) \<subseteq> {t}"
    "today_str t = current_date (lf w)"
    using assms(1) by (simp_all add: calm_def)
  obtain t' w0 where rc: "read_clock w = (t', w0)" by fastforce
  then have "t' = t" using read_clock_frame(7) a(5) by blast
  then have nf: "next_file (today_str t') w = (current_date (lf w), write_seq w)"
    using a(2,6) by (auto simp: next_file_def write_seq_def)
  note e = log_append_effect [OF a(1) assms(4) rc nf assms(2)]
  have o: "fopen_script w' = []" "fp (lf w') \<noteq> None" using e(7) a(3) assms(3) by blast+
  show st: "\<And>p. stored p w' = stored p w @ (if p = path then data else [])" using e(6) o(2) a(4) by auto
  show "calm t w'" unfolding calm_def using e(1,2,8,9) o a(4-6) by auto
  show "current_date (lf w') = current_date (lf w)" "current_seq (lf w') = write_seq w" "roll_size (lf w') = roll_size (lf w)"
    "make_filename (lf w') = make_filename (lf w)" "\<And>p. map_of (fs w') p = Some OtherNode \<longleftrightarrow> map_of (fs w) p = Some OtherNode"
    using e by blast+
  have "written_bytes (lf w') = length (stored (current_path w') w')" using e(1) o(2) by (auto simp: log_inv_def)
  then show "written_bytes (lf w') = length (stored path w) + length data" using st e(2-4) assms(2) by simp
qed

text \<open>
  \<open>append_line\<close> writes a line in three steps, each of which may roll. If the time stamp and the
  payload fit, the whole line is in the current file. If the time stamp alone reaches the roll size, the
  stamp ends the current file and the payload starts the next one without a stamp: the line is torn.
\<close>

theorem append_line_whole_or_torn:
  assumes "calm t w" "written_bytes (lf w) < roll_size (lf w)" "w' = append_line payload w"
    "p1 = current_path w" "p2 = make_filename (lf w) (current_date (lf w)) (current_seq (lf w) + 1)" "map_of (fs w) p2 \<noteq> Some OtherNode"
  shows "(written_bytes (lf w) + length (line_prefix t) + length payload < roll_size (lf w) \<longrightarrow>
          stored p1 w' = stored p1 w @ line_prefix t @ payload @ [CHR 0x0A] \<and> stored p2 w' = stored p2 w)
    \<and> (roll_size (lf w) \<le> written_bytes (lf w) + length (line_prefix t) \<and> length (stored p2 w) + length payload < roll_size (lf w) \<longrightarrow>
          stored p1 w' = stored p1 w @ line_prefix t \<and> stored p2 w' = stored p2 w @ payload @ [CHR 0x0A])"
proof -
  obtain t' w0 where rc: "read_clock w = (t', w0)" by fastforce
  note c = read_clock_frame [OF rc]
  have t': "t' = t" using c(7) assms(1) unfolding calm_def by blast
  have st0: "stored p w0 = stored p w" for p using c(5) by (simp add: log_same_def)
  have "log_inv w0" using assms(1) by (simp add: calm_def log_inv_def fp_ok_def c(1,2) st0)
  moreover have "insert (now_tm w0) (set (clock_script w0)) \<subseteq> {t}"
    by (rule order.trans [OF c(8)]) (use assms(1) in \<open>simp add: calm_def\<close>)
  ultimately have k0: "calm t w0" using assms(1) by (simp add: calm_def c(1,3,4))
  define w1 where "w1 = log_append (line_prefix t) w0"
  define w2 where "w2 = log_append payload w1"
  have w': "w' = log_append [CHR 0x0A] w2" by (simp add: assms(3) append_line_def rc t' w1_def w2_def)
  have ne: "p1 \<noteq> p2" by (simp add: assms(4,5))
  obtain buf where fp: "fp (lf w) = Some (p1, buf)" using assms(1,4) by (auto simp: calm_def log_inv_def)
  then have p1: "map_of (fs w) p1 \<noteq> Some OtherNode" "written_bytes (lf w) = length (stored p1 w)"
    using assms(1) by (auto simp: calm_def log_inv_def fp_ok_def)
  have "write_seq w0 = current_seq (lf w)" using assms(2) by (simp add: write_seq_def c(1))
  then have pa0: "p1 = make_filename (lf w0) (current_date (lf w0)) (write_seq w0)" by (simp add: c(1) assms(4))
  note s1 = calm_append [OF k0 pa0 _ w1_def] 
  have n0: "map_of (fs w0) p1 \<noteq> Some OtherNode" using p1(1) by (simp add: c(2))
  note s1 = s1 [OF n0]
  have wb1: "written_bytes (lf w1) = written_bytes (lf w) + length (line_prefix t)" using s1(8) p1(2) st0 by simp
  have sq1: "current_seq (lf w1) = current_seq (lf w)" "roll_size (lf w1) = roll_size (lf w)" "current_date (lf w1) = current_date (lf w)"
    "make_filename (lf w1) = make_filename (lf w)"
    using s1(2-5) \<open>write_seq w0 = current_seq (lf w)\<close> by (simp_all add: c(1))
  have nodes: "map_of (fs w1) p1 \<noteq> Some OtherNode" "map_of (fs w1) p2 \<noteq> Some OtherNode" using s1(6) p1(1) assms(6) by (simp_all add: c(2))
  have "stored p1 w' = stored p1 w @ line_prefix t @ payload @ [CHR 0x0A] \<and> stored p2 w' = stored p2 w"
    if fits: "written_bytes (lf w) + length (line_prefix t) + length payload < roll_size (lf w)"
  proof -
    have ws: "write_seq w1 = current_seq (lf w)" using fits wb1 sq1 by (simp add: write_seq_def)
    then have "p1 = make_filename (lf w1) (current_date (lf w1)) (write_seq w1)" by (simp add: sq1 assms(4))
    note s2 = calm_append [OF s1(1) this nodes(1) w2_def]
    have "write_seq w2 = current_seq (lf w)" using s2(3,4,8) s1(7) fits ws p1(2) sq1 st0 by (simp add: write_seq_def)
    then have "p1 = make_filename (lf w2) (current_date (lf w2)) (write_seq w2)" using s2(2,5) by (simp add: sq1 assms(4))
    from calm_append(7) [OF s2(1) this _ w'] s2(6,7) s1(7) nodes(1) ne st0 show ?thesis by simp
  qed
  moreover have "stored p1 w' = stored p1 w @ line_prefix t \<and> stored p2 w' = stored p2 w @ payload @ [CHR 0x0A]"
    if torn: "roll_size (lf w) \<le> written_bytes (lf w) + length (line_prefix t)" "length (stored p2 w) + length payload < roll_size (lf w)"
  proof -
    have ws: "write_seq w1 = current_seq (lf w) + 1" using torn(1) wb1 sq1 by (simp add: write_seq_def)
    then have "p2 = make_filename (lf w1) (current_date (lf w1)) (write_seq w1)" by (simp add: sq1 assms(5))
    note s2 = calm_append [OF s1(1) this nodes(2) w2_def]
    have "write_seq w2 = current_seq (lf w) + 1" using s2(3,4,8) s1(7) torn(2) ws sq1 st0 ne by (simp add: write_seq_def)
    then have "p2 = make_filename (lf w2) (current_date (lf w2)) (write_seq w2)" using s2(2,5) by (simp add: sq1 assms(5))
    from calm_append(7) [OF s2(1) this _ w'] s2(6,7) s1(7) nodes(2) ne st0 show ?thesis by simp
  qed
  ultimately show ?thesis by blast
qed

theorem append_line_whole_or_torn_witness:
  "stored ''d/f.20260616.log.1'' (append_line ''hello'' (sample_log 20)) = replicate 20 CHR ''x'' @ ''[2026-06-16 09:05:01.007] ''
   \<and> stored ''d/f.20260616.log.2'' (append_line ''hello'' (sample_log 20)) = ''hello'' @ [CHR 0x0A]"
proof -
  have c: "calm sample_tm (sample_log 20)" using sample_log_inv [of 20] by (simp add: calm_def) (simp add: sample_log_def)
  have pf: "line_prefix sample_tm = ''[2026-06-16 09:05:01.007] ''" by code_simp
  have n: "map_of (fs (sample_log 20)) (make_filename (lf (sample_log 20)) (current_date (lf (sample_log 20))) (current_seq (lf (sample_log 20)) + 1)) \<noteq> Some OtherNode"
    by (simp add: sample_log_def)
  have f: "written_bytes (lf (sample_log 20)) = 20" "roll_size (lf (sample_log 20)) = 30" "current_date (lf (sample_log 20)) = ''20260616''"
    "current_seq (lf (sample_log 20)) = 1" "stored ''d/f.20260616.log.1'' (sample_log 20) = replicate 20 CHR ''x''"
    "stored ''d/f.20260616.log.2'' (sample_log 20) = []"
    by (simp_all add: sample_log_def stored_def)
  from append_line_whole_or_torn [OF c _ refl refl refl n, of "''hello''"] show ?thesis
    unfolding f pf using sample_name [of 20] f(5,6) by (simp add: numeral_2_eq_2 [symmetric])
qed

end
