(* ===== verification/Log_Stream.thy ===== *)
theory Log_Stream
  imports Log_File_Props
begin

text \<open>
  The abstract view of the log file: however it is cut into files, within a day it is one stream that
  only grows at its end. \<open>log_append\<close> and \<open>append_line\<close> refine appending to that stream.
\<close>

section \<open>The stream of a day\<close>

text \<open>A day on which nothing fails and nobody else creates files with the names of the log.\<close>

definition one_day :: "'z log_world_scheme \<Rightarrow> bool" where
  "one_day w \<longleftrightarrow> log_inv w \<and> fp (lf w) \<noteq> None \<and> fopen_script w = [] \<and> fwrite_script w = [] \<and> 1 \<le> current_seq (lf w)
     \<and> (\<forall>t\<in>insert (now_tm w) (set (clock_script w)). today_str t = current_date (lf w))
     \<and> (\<forall>n. map_of (fs w) (make_filename (lf w) (current_date (lf w)) n) \<noteq> Some OtherNode)
     \<and> (\<forall>n > current_seq (lf w). map_of (fs w) (make_filename (lf w) (current_date (lf w)) n) = None)"

definition day_log :: "'z log_world_scheme \<Rightarrow> bytes" where
  "day_log w = concat (map (\<lambda>n. stored (make_filename (lf w) (current_date (lf w)) n) w) [1..<Suc (current_seq (lf w))])"

definition log_line :: "tm \<Rightarrow> bytes \<Rightarrow> bytes" where
  "log_line t payload = line_prefix t @ payload @ [CHR 0x0A]"

lemma one_day_append:
  assumes "one_day w" "w' = log_append data w"
  shows "one_day w'" "day_log w' = day_log w @ data"
    "insert (now_tm w') (set (clock_script w')) \<subseteq> insert (now_tm w) (set (clock_script w))"
proof -
  let ?d = "current_date (lf w)" and ?s = "current_seq (lf w)" and ?f = "make_filename (lf w) (current_date (lf w))"
  have a: "log_inv w" "fp (lf w) \<noteq> None" "fopen_script w = []" "fwrite_script w = []" "1 \<le> ?s"
    "\<And>t. t \<in> insert (now_tm w) (set (clock_script w)) \<Longrightarrow> today_str t = ?d"
    "\<And>n. map_of (fs w) (?f n) \<noteq> Some OtherNode" "\<And>n. ?s < n \<Longrightarrow> map_of (fs w) (?f n) = None"
    using assms(1) unfolding one_day_def by blast+
  obtain t w0 where rc: "read_clock w = (t, w0)" by fastforce
  then have "today_str t = ?d" using read_clock_frame(7) a(6) by blast
  then have nf: "next_file (today_str t) w = (?d, write_seq w)"
    using a(2) by (auto simp: next_file_def write_seq_def)
  have s: "write_seq w = ?s \<or> write_seq w = Suc ?s" by (auto simp: write_seq_def)
  note e = log_append_effect [OF a(1) assms(2) rc nf refl]
  have op: "fp (lf w') \<noteq> None" "fopen_script w' = []" using e(7) a(3,7) by blast+
  then have st: "stored p w' = stored p w @ (if p = ?f (write_seq w) then data else [])" for p using e(6) a(4) by auto
  show "insert (now_tm w') (set (clock_script w')) \<subseteq> insert (now_tm w) (set (clock_script w))" by (rule e(9))
  show "one_day w'"
    unfolding one_day_def e(2-4) using e(1,8,9-11) op a(4-8) s by (auto simp del: split_paired_All)
  have old: "concat (map (\<lambda>n. stored (?f n) w') [1..<k]) = concat (map (\<lambda>n. stored (?f n) w) [1..<k])" if "k \<le> write_seq w" for k
    by (rule arg_cong [of _ _ concat], rule map_cong) (use that in \<open>auto simp: st\<close>)
  have "1 \<le> write_seq w" using a(5) s by auto
  then have day: "day_log w' = concat (map (\<lambda>n. stored (?f n) w) [1..<write_seq w]) @ stored (?f (write_seq w)) w @ data"
    using old [of "write_seq w"] st [of "?f (write_seq w)"] by (simp add: day_log_def e(2-4))
  show "day_log w' = day_log w @ data"
    using s
  proof
    assume "write_seq w = Suc ?s"
    moreover have "stored (?f (Suc ?s)) w = []" by (rule stored_None [OF a(8) a(1)]) simp
    ultimately show ?thesis unfolding day by (simp add: day_log_def)
  next
    assume "write_seq w = ?s"
    then show ?thesis unfolding day using a(5) by (simp add: day_log_def)
  qed
qed

lemma one_day_clock:
  assumes "one_day w" "read_clock w = (t, w0)"
  shows "one_day w0" "day_log w0 = day_log w" "t \<in> insert (now_tm w) (set (clock_script w))"
    "insert (now_tm w0) (set (clock_script w0)) \<subseteq> insert (now_tm w) (set (clock_script w))"
proof -
  note c = read_clock_frame [OF assms(2)]
  have st: "stored p w0 = stored p w" for p using c(5) by (simp add: log_same_def)
  show sub: "insert (now_tm w0) (set (clock_script w0)) \<subseteq> insert (now_tm w) (set (clock_script w))" by (rule c(8))
  show "t \<in> insert (now_tm w) (set (clock_script w))" by (rule c(7))
  show "day_log w0 = day_log w" by (simp add: day_log_def st c(1))
  have inv: "log_inv w0" using assms(1) by (simp add: one_day_def log_inv_def fp_ok_def c(1,2) st)
  have d: "\<forall>t\<in>insert (now_tm w0) (set (clock_script w0)). today_str t = current_date (lf w0)"
    using assms(1) sub unfolding one_day_def c(1) by blast
  from assms(1) inv d show "one_day w0" unfolding one_day_def c(1-4) by simp
qed

lemma one_day_line:
  assumes "one_day w" "w' = append_line payload w"
  shows "one_day w'" "\<exists>t\<in>insert (now_tm w) (set (clock_script w)). day_log w' = day_log w @ log_line t payload"
    "insert (now_tm w') (set (clock_script w')) \<subseteq> insert (now_tm w) (set (clock_script w))"
proof -
  obtain t w0 where rc: "read_clock w = (t, w0)" by fastforce
  note c = one_day_clock [OF assms(1) rc]
  define w1 where "w1 = log_append (line_prefix t) w0"
  define w2 where "w2 = log_append payload w1"
  have w': "w' = log_append [CHR 0x0A] w2" by (simp add: assms(2) append_line_def rc w1_def w2_def)
  note s1 = one_day_append [OF c(1) w1_def]
  note s2 = one_day_append [OF s1(1) w2_def]
  note s3 = one_day_append [OF s2(1) w']
  show "one_day w'" by (rule s3(1))
  show "\<exists>t\<in>insert (now_tm w) (set (clock_script w)). day_log w' = day_log w @ log_line t payload"
    by (rule bexI [OF _ c(3)]) (simp add: s1(2) s2(2) s3(2) c(2) log_line_def)
  show "insert (now_tm w') (set (clock_script w')) \<subseteq> insert (now_tm w) (set (clock_script w))"
    using c(4) s1(3) s2(3) s3(3) by (meson subset_trans)
qed

text \<open>Several lines: each gets a reading of the clock.\<close>

definition stamped :: "tm set \<Rightarrow> bytes list \<Rightarrow> bytes \<Rightarrow> bool" where
  "stamped T ps out \<longleftrightarrow> (\<exists>ts. length ts = length ps \<and> set ts \<subseteq> T \<and> out = concat (map2 log_line ts ps))"

lemma stamped_Nil [simp]: "stamped T [] []"
  by (simp add: stamped_def)

lemma stamped_append: "stamped T ps out \<Longrightarrow> stamped T qs out' \<Longrightarrow> stamped T (ps @ qs) (out @ out')"
  unfolding stamped_def
proof (elim exE conjE)
  fix ts us assume "length ts = length ps" "set ts \<subseteq> T" "out = concat (map2 log_line ts ps)"
    "length us = length qs" "set us \<subseteq> T" "out' = concat (map2 log_line us qs)"
  then show "\<exists>vs. length vs = length (ps @ qs) \<and> set vs \<subseteq> T \<and> out @ out' = concat (map2 log_line vs (ps @ qs))"
    by (intro exI [of _ "ts @ us"]) simp
qed

lemma stamped_mono: "stamped T ps out \<Longrightarrow> T \<subseteq> T' \<Longrightarrow> stamped T' ps out"
  unfolding stamped_def by blast

lemma one_day_lines:
  assumes "one_day w" "w' = fold append_line ps w"
  shows "one_day w' \<and> (\<exists>out. stamped (insert (now_tm w) (set (clock_script w))) ps out \<and> day_log w' = day_log w @ out)
    \<and> insert (now_tm w') (set (clock_script w')) \<subseteq> insert (now_tm w) (set (clock_script w))"
  using assms
proof (induction ps arbitrary: w)
  case (Cons p ps)
  define w1 where "w1 = append_line p w"
  note l = one_day_line [OF Cons.prems(1) w1_def]
  obtain out where out: "stamped (insert (now_tm w1) (set (clock_script w1))) ps out" "day_log w' = day_log w1 @ out"
    and ih: "one_day w'" "insert (now_tm w') (set (clock_script w')) \<subseteq> insert (now_tm w1) (set (clock_script w1))"
    using Cons.IH [OF l(1)] Cons.prems(2) by (auto simp: w1_def)
  obtain t where t: "t \<in> insert (now_tm w) (set (clock_script w))" "day_log w1 = day_log w @ log_line t p" using l(2) by blast
  have "stamped (insert (now_tm w) (set (clock_script w))) [p] (log_line t p)"
    unfolding stamped_def using t(1) by (intro exI [of _ "[t]"]) simp
  from stamped_append [OF this stamped_mono [OF out(1) l(3)]] out(2) t(2) ih l(3) show ?case
    by auto
qed auto

text \<open>
  C24. The log file implements an append-only stream: on a day on which nothing fails, writing lines adds,
  to the concatenation of the numbered files of the day, exactly these lines in order, each with a time
  stamp read from the clock and a newline, and the log is ready for more. Where a roll cuts the stream
  into files does not matter.
\<close>

theorem log_refines_stream:
  assumes "one_day w" "w' = fold append_line ps w"
  shows "one_day w' \<and> (\<exists>ts. length ts = length ps \<and> set ts \<subseteq> insert (now_tm w) (set (clock_script w))
    \<and> day_log w' = day_log w @ concat (map2 (\<lambda>t p. line_prefix t @ p @ [CHR 0x0A]) ts ps))"
  using one_day_lines [OF assms] by (auto simp: stamped_def log_line_def cong: map_cong)

lemma sample_one_day: "one_day (sample_log 20)"
proof -
  have "make_filename (lf (sample_log 20)) ''20260616'' n \<noteq> ''d/f.20260616.log.1''" if "n \<noteq> Suc 0" for n
    using that sample_name(1) [of 20] make_filename_seq by metis
  then show ?thesis
    using sample_log_inv [of 20] sample_name [of 20] by (simp add: one_day_def) (auto simp: sample_log_def)
qed

theorem log_refines_stream_witness:
  "day_log (fold append_line [''a'', ''b''] (sample_log 20))
     = replicate 20 CHR ''x'' @ line_prefix sample_tm @ ''a'' @ [CHR 0x0A] @ line_prefix sample_tm @ ''b'' @ [CHR 0x0A]"
proof -
  let ?w = "sample_log 20"
  have T: "insert (now_tm ?w) (set (clock_script ?w)) = {sample_tm}" by (simp add: sample_log_def)
  have d: "day_log ?w = replicate 20 CHR ''x''"
    by (simp add: day_log_def) (simp add: sample_log_def stored_def make_filename_def)
  from log_refines_stream [OF sample_one_day refl, of "[''a'', ''b'']", THEN conjunct2] obtain ts where
    "length ts = length [''a'', ''b'']" "set ts \<subseteq> {sample_tm}"
    "day_log (fold append_line [''a'', ''b''] ?w) = day_log ?w @ concat (map2 (\<lambda>t p. line_prefix t @ p @ [CHR 0x0A]) ts [''a'', ''b''])"
    unfolding T by blast
  moreover from this(1,2) have "ts = [sample_tm, sample_tm]"
    by (cases ts; cases "tl ts") auto
  ultimately show ?thesis using d by simp
qed

end
