(* ===== verification/Log_Server.thy ===== *)
theory Log_Server
  imports Http_Server Length_Codec Log_Stream
begin

text \<open>
  \<open>src/log_server/main.cpp\<close>: the log server, a TCP server with one reactor that splits what it receives
  into frames and writes each payload as a line.

  The world is that of a server together with the world of the log file, which \<open>main\<close> owns; \<open>log_alive\<close>
  says whether the shared pointer still holds it, which is what the weak pointer of the flush timer asks.
\<close>

section \<open>State\<close>

datatype flush_task = FlushLog

record 'x logsrv_world = "(flush_task, 'x) server_world" +
  store :: log_world
  log_alive :: bool

record log_config =
  cfg_port :: u16
  cfg_basedir :: string
  cfg_basename :: string
  cfg_roll_size :: nat

definition kMaxFrameSize :: u32 where
  "kMaxFrameSize = 1 * 1024 * 1024"

definition kFlushIntervalMs :: int where
  "kFlushIntervalMs = 1000"

text \<open>The arguments after the program name. \<open>size_t\<close> holds every \<open>int\<close> times \<open>2 ^ 20\<close>.\<close>

definition log_server_args :: "string list \<Rightarrow> log_config" where
  "log_server_args args =
     (let c0 = \<lparr>cfg_port = 9099, cfg_basedir = ''./res/log'', cfg_basename = ''epoll_proj'', cfg_roll_size = 10 * 1024 * 1024\<rparr>;
          c1 = (if length args \<ge> 1 then c0\<lparr>cfg_port := of_int (atoi (args ! 0))\<rparr> else c0);
          c2 = (if length args \<ge> 2 then c1\<lparr>cfg_basedir := args ! 1\<rparr> else c1)
      in if length args \<ge> 3
         then let mb = atoi (args ! 2) in if mb > 0 then c2\<lparr>cfg_roll_size := nat mb * 1024 * 1024\<rparr> else c2
         else c2)"

section \<open>Operations\<close>

definition schedule_flush :: "('x, 'z) logsrv_world_scheme \<Rightarrow> ('x, 'z) logsrv_world_scheme" where
  "schedule_flush w = snd (run_after main_loop kFlushIntervalMs (Some (Task (App (SrvApp FlushLog)))) w)"

definition flush_fired :: "('x, 'z) logsrv_world_scheme \<Rightarrow> ('x, 'z) logsrv_world_scheme" where
  "flush_fired w = (if \<not> log_alive w then w else schedule_flush (w\<lparr>store := log_flush (store w)\<rparr>))"

definition log_on_connection :: "nat \<Rightarrow> ('x, 'z) logsrv_world_scheme \<Rightarrow> ('x, 'z) logsrv_world_scheme" where
  "log_on_connection c w = w"

definition log_on_message :: "nat \<Rightarrow> ('x, 'z) logsrv_world_scheme \<Rightarrow> ('x, 'z) logsrv_world_scheme" where
  "log_on_message c w =
     (let (ok, b, msgs) = frame_decode kMaxFrameSize (input_buffer (conns w c)) [];
          w1 = on_conn c (\<lambda>cn. cn\<lparr>input_buffer := b\<rparr>) w
      in if \<not> ok then conn_close (server_close_cb log_on_connection) c w1
         else w1\<lparr>store := fold append_line msgs (store w1)\<rparr>)"

fun run_log_task :: "flush_task \<Rightarrow> ('x, 'z) logsrv_world_scheme \<Rightarrow> ('x, 'z) logsrv_world_scheme" where
  "run_log_task FlushLog w = flush_fired w"

text \<open>\<open>main\<close> up to \<open>server.run()\<close>, and after the loop has quit.\<close>

definition log_server_start :: "string list \<Rightarrow> int \<Rightarrow> ('x, 'z) logsrv_world_scheme \<Rightarrow> ('x, 'z) logsrv_world_scheme" where
  "log_server_start args listen_fd w =
     (let cfg = log_server_args args;
          w1 = w\<lparr>store := new_log_file (cfg_basedir cfg) (cfg_basename cfg) (cfg_roll_size cfg) (store w), log_alive := True\<rparr>;
          w2 = schedule_flush (server_listen listen_fd (w1\<lparr>thread_pool := new_pool 0\<rparr>))
      in w2\<lparr>srv_has_connection_cb := True, srv_has_message_cb := True, thread_pool := pool_start (thread_pool w2)\<rparr>)"

definition handle_signal :: "('x, 'z) logsrv_world_scheme \<Rightarrow> ('x, 'z) logsrv_world_scheme" where
  "handle_signal w = on_loop main_loop (quit (this_thread w)) w"

text \<open>
  At the end of \<open>main\<close> the server is destroyed first: \<open>nodes\<close> are the entries of its table in the order of
  the iteration, and the flag says whether the loop over them was defined. Then the log is closed.
\<close>

definition log_server_exit :: "(int \<times> nat) list \<Rightarrow> ('x, 'z) logsrv_world_scheme \<Rightarrow> bool \<times> ('x, 'z) logsrv_world_scheme" where
  "log_server_exit nodes w =
     (let (ok, w1) = destroy_loop log_on_connection nodes w; w2 = server_teardown w1
      in (ok, w2\<lparr>store := destroy_log_file (store w2), log_alive := False\<rparr>))"

section \<open>The log server is a server application\<close>

lemma kMaxFrameSize_nat [simp]: "unat kMaxFrameSize = 2 ^ 20" "unat kMaxFrameSize < 2 ^ 32 - 4"
  by (simp_all add: kMaxFrameSize_def)

lemma frame_decode_inv:
  assumes "buffer_inv b" "frame_decode kMaxFrameSize b [] = (ok, b', ms)"
  shows "buffer_inv b'" "split_frames (2 ^ 20) (readable_view b) = (ok, readable_view b', ms)"
proof -
  obtain ok1 rest ms1 where s: "split_frames (unat kMaxFrameSize) (readable_view b) = (ok1, rest, ms1)" by (metis prod_cases3)
  from frame_decode_refines [OF assms(1) _ this, of "[]"] assms(2) s
  show "buffer_inv b'" "split_frames (2 ^ 20) (readable_view b) = (ok, readable_view b', ms)" by auto
qed

interpretation log_ccb: server_ccb log_on_connection
  by unfold_locales (simp_all add: log_on_connection_def conn_adv_refl)

lemma conn_adv_consume:
  assumes "conn_ok c w" "buffer_inv b"
  shows "conn_adv c w (on_conn c (\<lambda>cn. cn\<lparr>input_buffer := b\<rparr>) w)"
  using assms by (auto simp: conn_adv_def conn_ok_def Let_def is_open_def stream_def)

lemma log_on_message_adv:
  assumes "conn_ok c w"
  shows "conn_adv c w (log_on_message c w)"
proof -
  obtain ok b ms where d: "frame_decode kMaxFrameSize (input_buffer (conns w c)) [] = (ok, b, ms)" by (metis prod_cases3)
  have "buffer_inv (input_buffer (conns w c))" using assms by (simp add: conn_ok_def Let_def)
  note a1 = conn_adv_consume [OF assms frame_decode_inv(1) [OF this d]]
  note cl = conn_adv_trans [OF a1 log_ccb.close_adv [OF conn_adv_ok [OF a1]]]
  let ?v = "on_conn c (\<lambda>cn. cn\<lparr>input_buffer := b\<rparr>) w"
  have "conn_adv c w (?v\<lparr>store := s\<rparr>)" for s
    using a1 by (subst conn_adv_cong(4) [where ?w1.0 = ?v]) simp_all
  then show ?thesis using cl by (simp add: log_on_message_def d Let_def)
qed

interpretation log_app: server_app log_on_connection log_on_message
  by unfold_locales (rule log_on_message_adv)

section \<open>Receiving\<close>

text \<open>The kernel makes the reads \<open>rs\<close> possible and reports the connection readable.\<close>

definition log_serve :: "nat \<Rightarrow> rd_result list \<Rightarrow> ('x, 'z) logsrv_world_scheme \<Rightarrow> ('x, 'z) logsrv_world_scheme" where
  "log_serve c rs w = conn_handle_read (server_cbs log_on_message log_on_connection) c
     (on_conn c (\<lambda>cn. cn\<lparr>sk := (sk cn)\<lparr>rd_script := rs\<rparr>\<rparr>) w)"

text \<open>A round of reads without end of stream or error.\<close>

definition plain_reads :: "rd_result list \<Rightarrow> bool" where
  "plain_reads rs \<longleftrightarrow> (\<forall>r\<in>set rs. r \<noteq> RErr \<and> r \<noteq> RBytes [])"

lemma read_loop_plain:
  assumes "buffer_inv b" "plain_reads (rd_script s)" "\<not> sk_closed s" "read_loop b s = (r, b', s')"
  shows "r = Drained"
  using assms
proof (induction b s rule: read_loop.induct)
  case (1 b s)
  let ?b1 = "ensure_writable b 4096"
  note e = ensure_writable_inv [OF "1.prems"(1), of 4096] writable_ensure_writable [OF "1.prems"(1), of 4096]
  then have room: "writable_bytes ?b1 > 0" by simp
  show ?case
  proof (cases "rd_script s")
    case Nil
    then show ?thesis using 1 by (simp add: read_loop.simps [of b s] sys_read_def Let_def)
  next
    case (Cons x rs)
    show ?thesis
    proof (cases x)
      case (RBytes bs)
      define bs1 where "bs1 = take (writable_bytes ?b1) bs"
      define s1 where "s1 = s\<lparr>rd_script := (if length bs \<le> writable_bytes ?b1 then rs else RBytes (drop (writable_bytes ?b1) bs) # rs)\<rparr>"
      have ne: "bs1 \<noteq> []" "plain_reads (rd_script s1)" "\<not> sk_closed s1" "length bs1 \<le> writable_bytes ?b1"
        using "1.prems"(2,3) Cons RBytes room by (auto simp: plain_reads_def s1_def bs1_def)
      have sr: "sys_read (writable_bytes ?b1) s = (Some (RBytes bs1), s1)"
        using "1.prems"(3) Cons RBytes by (simp add: sys_read_def s1_def bs1_def)
      have "read_loop (has_written (store_at_writer ?b1 bs1) (length bs1)) s1 = (r, b', s')"
        using "1.prems"(4) sr ne(1) by (simp add: read_loop.simps [of b s] Let_def)
      then show ?thesis by (rule "1.IH"(1) [OF refl sr [symmetric] refl refl ne(1) fill_inv [OF e(1) ne(4)] ne(2,3)])
    next
      case RIntr
      have sr: "sys_read (writable_bytes ?b1) s = (Some RIntr, s\<lparr>rd_script := rs\<rparr>)"
        using "1.prems"(3) Cons RIntr by (simp add: sys_read_def)
      have "read_loop ?b1 (s\<lparr>rd_script := rs\<rparr>) = (r, b', s')" using "1.prems"(4) sr by (simp add: read_loop.simps [of b s] Let_def)
      from "1.IH"(2) [OF refl sr [symmetric] refl refl e(1) _ _ this] "1.prems"(2,3) Cons show ?thesis by (simp add: plain_reads_def)
    next
      case RErr
      then show ?thesis using "1.prems"(2) Cons by (simp add: plain_reads_def)
    qed
  qed
qed

lemma store_frame [simp]: "store (on_loop i f w) = store w" "store (on_conn c g w) = store w"
  by (simp_all add: on_loop_def on_conn_def)

lemma store_close [simp]: "store (conn_close (server_close_cb log_on_connection) c w) = store w"
  by (simp add: conn_close_def conn_release_def with_channel_def server_close_cb_def run_in_loop_def remove_connection_in_loop_def
      log_on_connection_def loop_abort_def Let_def split: prod.split option.split)

lemma log_on_message_split:
  assumes "conn_ok c w" "is_open c w" "split_frames (2 ^ 20) (readable_view (input_buffer (conns w c))) = (ok, rest, ms)"
    "w' = log_on_message c w"
  shows "ok \<Longrightarrow> conn_ok c w' \<and> is_open c w' \<and> has_message_cb (conns w' c) = has_message_cb (conns w c)
      \<and> readable_view (input_buffer (conns w' c)) = rest \<and> store w' = fold append_line ms (store w)"
    "\<not> ok \<Longrightarrow> conn_ok c w' \<and> \<not> is_open c w' \<and> store w' = store w"
proof -
  obtain ok1 b ms1 where d: "frame_decode kMaxFrameSize (input_buffer (conns w c)) [] = (ok1, b, ms1)" by (metis prod_cases3)
  have "buffer_inv (input_buffer (conns w c))" using assms(1) by (simp add: conn_ok_def Let_def)
  note i = frame_decode_inv [OF this d]
  then have eq: "ok1 = ok" "ms1 = ms" "readable_view b = rest" using assms(3) by simp_all
  note a1 = conn_adv_ok [OF conn_adv_consume [OF assms(1) i(1)]]
  show "\<not> ok \<Longrightarrow> conn_ok c w' \<and> \<not> is_open c w' \<and> store w' = store w"
    using log_ccb.close_closes [OF a1] conn_adv_ok [OF log_ccb.close_adv [OF a1]] by (simp add: assms(4) log_on_message_def d eq Let_def)
  show "ok \<Longrightarrow> conn_ok c w' \<and> is_open c w' \<and> has_message_cb (conns w' c) = has_message_cb (conns w c)
      \<and> readable_view (input_buffer (conns w' c)) = rest \<and> store w' = fold append_line ms (store w)"
    using conn_adv_ok [OF log_on_message_adv [OF assms(1)]] assms(2) by (simp add: assms(4) log_on_message_def d eq Let_def is_open_def)
qed

text \<open>What one round does: the frames that have become complete are written, the rest waits.\<close>

lemma log_serve_step:
  assumes "conn_ok c w" "is_open c w" "has_message_cb (conns w c)" "plain_reads rs"
    "split_frames (2 ^ 20) (readable_view (input_buffer (conns w c)) @ arriving rs) = (ok, rest, ms)" "w' = log_serve c rs w"
  shows "ok \<Longrightarrow> conn_ok c w' \<and> is_open c w' \<and> has_message_cb (conns w' c) \<and> readable_view (input_buffer (conns w' c)) = rest
      \<and> store w' = fold append_line ms (store w)"
    "\<not> ok \<Longrightarrow> conn_ok c w' \<and> \<not> is_open c w' \<and> store w' = store w"
proof -
  define w0 where "w0 = on_conn c (\<lambda>cn. cn\<lparr>sk := (sk cn)\<lparr>rd_script := rs\<rparr>\<rparr>) w"
  have ok0: "conn_ok c w0" using assms(1) by (auto simp: conn_ok_def Let_def w0_def)
  have inv: "buffer_inv (input_buffer (conns w0 c))" "\<not> sk_closed (sk (conns w0 c))"
    using assms(1,2) by (auto simp: conn_ok_def Let_def w0_def is_open_def)
  obtain r b s where l: "read_loop (input_buffer (conns w0 c)) (sk (conns w0 c)) = (r, b, s)" by (metis prod_cases3)
  note rl = read_loop_spec [OF inv(1) l]
  have r: "r = Drained" by (rule read_loop_plain [OF inv(1) _ inv(2) l]) (simp add: w0_def assms(4))
  define w1 where "w1 = on_conn c (\<lambda>cn. cn\<lparr>input_buffer := b, sk := s\<rparr>) w0"
  have ok1: "conn_ok c w1"
  proof -
    have "w1 = on_conn c (\<lambda>cn. cn\<lparr>input_buffer := b, output_buffer := output_buffer (conns w0 c), sk := s\<rparr>) w0"
      by (simp add: w1_def on_conn_def)
    then show ?thesis using rl ok0 conn_adv_ok [OF conn_adv_same_output [OF ok0]] by (simp add: conn_ok_def Let_def stream_def)
  qed
  have f1: "is_open c w1" "has_message_cb (conns w1 c)" "input_buffer (conns w1 c) = b" "store w1 = store w"
    using assms(2,3) by (simp_all add: w1_def w0_def is_open_def on_conn_def)
  have "rd_script s = []" using rl r by simp
  then have view: "readable_view b = readable_view (input_buffer (conns w c)) @ arriving rs" using rl by (simp add: w0_def)
  have len: "has_message_cb (conns w0 c)" "0 < readable_bytes b \<longleftrightarrow> readable_view b \<noteq> []"
    using rl assms(3) by (simp_all add: w0_def flip: length_readable_view)
  have w': "w' = (if readable_view b = [] then w1 else log_on_message c w1)"
    using len f1 by (simp add: assms(6) log_serve_def conn_handle_read_def l r deliver_def server_cbs_def flip: w0_def w1_def)
  have "incomplete (2 ^ 20) []" by (simp add: incomplete_def)
  note nil = split_frames_incomplete [OF this]
  have step: "(ok \<longrightarrow> conn_ok c w' \<and> is_open c w' \<and> has_message_cb (conns w' c) \<and> readable_view (input_buffer (conns w' c)) = rest
      \<and> store w' = fold append_line ms (store w)) \<and> (\<not> ok \<longrightarrow> conn_ok c w' \<and> \<not> is_open c w' \<and> store w' = store w)"
  proof (cases "readable_view b = []")
    case True
    then show ?thesis using assms(5) nil f1 ok1 by (simp add: w' flip: view)
  next
    case False
    then have "w' = log_on_message c w1" by (simp add: w')
    from log_on_message_split [OF ok1 f1(1) _ this, of ok rest ms] assms(5) f1(2-4) show ?thesis by (simp flip: view)
  qed
  show "ok \<Longrightarrow> conn_ok c w' \<and> is_open c w' \<and> has_message_cb (conns w' c) \<and> readable_view (input_buffer (conns w' c)) = rest
      \<and> store w' = fold append_line ms (store w)"
    "\<not> ok \<Longrightarrow> conn_ok c w' \<and> \<not> is_open c w' \<and> store w' = store w"
    using step by blast+
qed

text \<open>Any number of rounds: the frames are written in order, whatever the cuts.\<close>

lemma log_serve_rounds:
  assumes "conn_ok c w" "is_open c w" "has_message_cb (conns w c)" "incomplete (2 ^ 20) (readable_view (input_buffer (conns w c)))"
    "\<forall>rs\<in>set rounds. plain_reads rs"
    "readable_view (input_buffer (conns w c)) @ concat (map arriving rounds) = concat (map frame_encode ps) @ part"
    "\<forall>p\<in>set ps. valid_payload (2 ^ 20) p" "incomplete (2 ^ 20) part" "w' = fold (log_serve c) rounds w"
  shows "is_open c w' \<and> readable_view (input_buffer (conns w' c)) = part \<and> store w' = fold append_line ps (store w)"
proof -
  have lim: "(2::nat) ^ 20 < 2 ^ 32" by simp
  have all: "split_frames (2 ^ 20) (readable_view (input_buffer (conns w c)) @ concat (map arriving rounds)) = (True, part, ps)"
    using split_frames_concat [OF assms(7) lim split_frames_incomplete [OF assms(8)]] assms(6) by simp
  show ?thesis
    using assms(1-5,9) all
  proof (induction rounds arbitrary: w ps)
    case Nil
    then show ?case using split_frames_incomplete [OF Nil.prems(4)] by simp
  next
    case (Cons rs rounds)
    let ?v = "readable_view (input_buffer (conns w c))"
    obtain ok rest ms where f: "split_frames (2 ^ 20) (?v @ arriving rs) = (ok, rest, ms)" by (metis prod_cases3)
    have ok: "ok" using split_frames_append_bad [OF lim, of "?v @ arriving rs" rest ms "concat (map arriving rounds)"] f Cons.prems(7) by auto
    obtain ok2 rest2 ms2 where g: "split_frames (2 ^ 20) (rest @ concat (map arriving rounds)) = (ok2, rest2, ms2)" by (metis prod_cases3)
    have e: "ok2 = True" "rest2 = part" "ps = ms @ ms2"
      using split_frames_append [OF lim _ g, of "?v @ arriving rs" ms] f ok Cons.prems(7) by simp_all
    have "plain_reads rs" using Cons.prems(5) by simp
    note st = log_serve_step(1) [OF Cons.prems(1-3) this f refl ok]
    show ?case using Cons.IH [of "log_serve c rs w" ms2] st split_frames_rest [OF f] ok Cons.prems(5,6) g e by simp
  qed
qed

text \<open>
  C26. From the wire to the log: however the bytes of a stream of frames are cut into rounds of reads, the
  log gets exactly one line for each complete frame, in order, stamped from the clock, the connection
  stays open and the beginning of the next frame waits in the input buffer.
\<close>

theorem log_server_stream:
  assumes "conn_ok c w" "is_open c w" "has_message_cb (conns w c)" "incomplete (2 ^ 20) (readable_view (input_buffer (conns w c)))"
    "one_day (store w)" "\<forall>rs\<in>set rounds. plain_reads rs"
    "readable_view (input_buffer (conns w c)) @ concat (map arriving rounds) = concat (map frame_encode ps) @ part"
    "\<forall>p\<in>set ps. valid_payload (2 ^ 20) p" "incomplete (2 ^ 20) part" "w' = fold (log_serve c) rounds w"
  shows "is_open c w' \<and> readable_view (input_buffer (conns w' c)) = part \<and> one_day (store w')
    \<and> (\<exists>ts. length ts = length ps \<and> set ts \<subseteq> insert (now_tm (store w)) (set (clock_script (store w)))
         \<and> day_log (store w') = day_log (store w) @ concat (map2 log_line ts ps))"
  using log_serve_rounds [OF assms(1-4,6-10)] one_day_lines [OF assms(5) refl, of ps] by (auto simp: stamped_def)

text \<open>
  A bad frame ends the connection. The frames that were complete in front of it in the same round are
  decoded and then dropped: the log is not written at all in that round.
\<close>

theorem log_server_bad_frame:
  assumes "conn_ok c w" "is_open c w" "has_message_cb (conns w c)" "plain_reads rs"
    "readable_view (input_buffer (conns w c)) @ arriving rs = concat (map frame_encode ps) @ bad"
    "\<forall>p\<in>set ps. valid_payload (2 ^ 20) p" "bad_header (2 ^ 20) bad" "w' = log_serve c rs w"
  shows "\<not> is_open c w' \<and> store w' = store w"
proof -
  have "split_frames (2 ^ 20) (readable_view (input_buffer (conns w c)) @ arriving rs) = (False, bad, ps)"
    using split_frames_concat [OF assms(6) _ split_frames_bad [OF assms(7), of "[]"]] assms(5) by simp
  from log_serve_step(2) [OF assms(1-4) this assms(8)] show ?thesis by simp
qed

section \<open>Flushing\<close>

text \<open>What the kernel has of a file.\<close>

definition on_disk :: "string \<Rightarrow> 'z log_world_scheme \<Rightarrow> bytes" where
  "on_disk p w = (case map_of (fs w) p of Some (RegularFile cs) \<Rightarrow> cs | _ \<Rightarrow> [])"

lemma log_flush_disk:
  assumes "log_inv w"
  shows "stored p (log_flush w) = stored p w" "on_disk p (log_flush w) = stored p w" "log_inv (log_flush w)"
proof -
  have ok: "fp_ok w" using assms by (simp add: log_inv_def)
  show st: "stored p (log_flush w) = stored p w" for p
    using fflush_same [OF ok] by (simp add: log_flush_def log_same_def)
  have "stored p (log_flush w) = on_disk p (log_flush w)"
    by (auto simp: stored_def on_disk_def log_flush_def fflush_def split: option.splits)
  with st show "on_disk p (log_flush w) = stored p w" by simp
  show "log_inv (log_flush w)"
    using assms st unfolding log_inv_def fp_ok_def
    by (auto simp: log_flush_def fflush_def map_of_kernel_append make_filename_def split: option.splits)
qed

text \<open>
  The periodic flush: when the timer fires, every byte the log has accepted is handed to the kernel,
  nothing else changes in the log, and the next flush is due one second later.
\<close>

theorem flush_makes_durable:
  assumes "log_inv (store w)" "log_alive w" "in_loop_thread main_loop w" "w' = flush_fired w"
  shows "on_disk p (store w') = stored p (store w) \<and> stored p (store w') = stored p (store w) \<and> log_inv (store w') \<and> log_alive w'
    \<and> timers (timer_queue (loops w' main_loop))
      = set_insert \<lparr>expiration = steady_now w + 1000000000, timer_id = next_id (timer_queue (loops w main_loop)),
                    timer_cb = Some (Task (App (SrvApp FlushLog)))\<rparr> (timers (timer_queue (loops w main_loop)))"
proof -
  let ?w = "w\<lparr>store := log_flush (store w)\<rparr>"
  have "in_loop_thread main_loop ?w" using assms(3) by (simp add: in_loop_thread_def)
  then have "w' = on_loop main_loop (\<lambda>l. l\<lparr>timer_queue := add_timer_in_loop (steady_now w)
      \<lparr>expiration = steady_now w + 1000000000, timer_id = next_id (timer_queue (loops w main_loop)), timer_cb = Some (Task (App (SrvApp FlushLog)))\<rparr>
      ((timer_queue (loops w main_loop))\<lparr>next_id := next_id (timer_queue (loops w main_loop)) + 1\<rparr>)\<rparr>) ?w"
    using assms(2,4) by (simp add: flush_fired_def schedule_flush_def run_after_def run_at_eq [OF alloc_timer_id_def] kFlushIntervalMs_def)
  with log_flush_disk [OF assms(1)] assms(2) show ?thesis by (simp add: on_loop_def)
qed

text \<open>A log server with the log of the samples and an accepted connection.\<close>

definition sample_logsrv :: "unit logsrv_world" where
  "sample_logsrv = \<lparr>loops = (\<lambda>i. new_event_loop i 5 6 []), this_thread = 0, steady_now = 100,
     conns = (\<lambda>_. (new_connection 0 9 [] [] [])\<lparr>has_message_cb := True, has_close_cb := True\<rparr>),
     connections = Map.empty, thread_pool = pool_start (new_pool 0), next_cid = 4, accept_script = [], accept_channel = new_channel 4,
     srv_has_message_cb = True, srv_has_connection_cb = True, store = sample_log 20, log_alive = True\<rparr>"

lemma sample_logsrv_ok: "conn_ok 3 sample_logsrv" "is_open 3 sample_logsrv" "has_message_cb (conns sample_logsrv 3)"
  "readable_view (input_buffer (conns sample_logsrv 3)) = []" "store sample_logsrv = sample_log 20" "in_loop_thread main_loop sample_logsrv"
  by (simp_all add: conn_ok_def sample_logsrv_def new_connection_def registered_def new_event_loop_def channel_ops is_open_def main_loop_def
      update_channel_def epoll_add_def ctl_fault_def new_channel_def is_writing_def connected_def in_loop_thread_def)

theorem log_server_stream_witness:
  "day_log (store (fold (log_serve 3) [[RBytes [CHR 0x00, CHR 0x00]], [RIntr, RBytes [CHR 0x00, CHR 0x01, CHR ''a'', CHR 0x00]]] sample_logsrv))
     = replicate 20 CHR ''x'' @ line_prefix sample_tm @ ''a'' @ [CHR 0x0A]"
proof -
  let ?rs = "[[RBytes [CHR 0x00, CHR 0x00]], [RIntr, RBytes [CHR 0x00, CHR 0x01, CHR ''a'', CHR 0x00]]]"
  have T: "insert (now_tm (sample_log 20)) (set (clock_script (sample_log 20))) = {sample_tm}" by (simp add: sample_log_def)
  have d: "day_log (sample_log 20) = replicate 20 CHR ''x''"
    by (simp add: day_log_def) (simp add: sample_log_def stored_def make_filename_def)
  have bytes: "readable_view (input_buffer (conns sample_logsrv 3)) @ concat (map arriving ?rs) = concat (map frame_encode [''a'']) @ [CHR 0x00]"
    unfolding sample_logsrv_ok(4) by code_simp
  have inc: "incomplete (2 ^ 20) (readable_view (input_buffer (conns sample_logsrv 3)))" "incomplete (2 ^ 20) [CHR 0x00]"
    by (simp_all add: incomplete_def sample_logsrv_ok)
  have pl: "\<forall>rs\<in>set ?rs. plain_reads rs" "\<forall>p\<in>set [''a'']. valid_payload (2 ^ 20) p" by (simp_all add: plain_reads_def valid_payload_def)
  have "one_day (store sample_logsrv)" by (simp add: sample_logsrv_ok sample_one_day)
  from log_server_stream [OF sample_logsrv_ok(1-3) inc(1) this pl(1) bytes pl(2) inc(2) refl]
  obtain ts where ts: "length ts = length [''a'']" "set ts \<subseteq> {sample_tm}"
    "day_log (store (fold (log_serve 3) ?rs sample_logsrv)) = day_log (sample_log 20) @ concat (map2 log_line ts [''a''])"
    unfolding sample_logsrv_ok(5) T by blast
  moreover from ts(1,2) have "ts = [sample_tm]" by (cases ts) auto
  ultimately show ?thesis using d by (simp add: log_line_def)
qed

theorem log_server_bad_frame_witness:
  "store (log_serve 3 [RBytes (frame_encode ''a'' @ [CHR 0x00, CHR 0x00, CHR 0x00, CHR 0x00])] sample_logsrv) = sample_log 20"
proof -
  let ?bad = "[CHR 0x00, CHR 0x00, CHR 0x00, CHR 0x00]"
  have "plain_reads [RBytes (frame_encode ''a'' @ ?bad)]" by (simp add: plain_reads_def)
  moreover have "readable_view (input_buffer (conns sample_logsrv 3)) @ arriving [RBytes (frame_encode ''a'' @ ?bad)]
      = concat (map frame_encode [''a'']) @ ?bad" by (simp add: sample_logsrv_ok)
  moreover have "\<forall>p\<in>set [''a'']. valid_payload (2 ^ 20) p" by (simp add: valid_payload_def)
  moreover have "bad_header (2 ^ 20) ?bad" by (simp add: bad_header_def be_nat_def)
  ultimately show ?thesis using log_server_bad_frame [OF sample_logsrv_ok(1-3) _ _ _ _ refl] sample_logsrv_ok(5) by metis
qed

theorem flush_makes_durable_witness:
  "on_disk ''d/f.20260616.log.1'' (store (flush_fired (sample_logsrv\<lparr>store := log_append ''abc'' (sample_log 20)\<rparr>))) = replicate 20 CHR ''x'' @ ''abc''"
proof -
  let ?w = "sample_logsrv\<lparr>store := log_append ''abc'' (sample_log 20)\<rparr>"
  note a = one_day_append [OF sample_one_day refl, of "''abc''"]
  have inv: "log_inv (store ?w)" using a(1) by (simp add: one_day_def)
  have "log_alive ?w" "in_loop_thread main_loop ?w" using sample_logsrv_ok(6) by (simp_all add: sample_logsrv_def in_loop_thread_def)
  note f = flush_makes_durable [OF inv this refl, of "''d/f.20260616.log.1''"]
  have "stored ''d/f.20260616.log.1'' (log_append ''abc'' (sample_log 20)) = replicate 20 CHR ''x'' @ ''abc''" by code_simp
  with f show ?thesis by simp
qed

end
