(* ===== verification/Server_Setup.thy ===== *)
theory Server_Setup
  imports Tcp_Server Text
begin

text \<open>
  How a server comes to listen: \<open>set_nonblocking\<close>, \<open>create_listen_socket\<close>, the constructor and \<open>run\<close> of
  \<open>TcpServer\<close> (\<open>src/src/server.cpp\<close>), the callbacks of the listening channel, and the text a connection keeps
  about its peer (\<open>format_peer\<close> of \<open>src/src/connection.cpp\<close>).

  The answers of the kernel to the calls that set the socket up are a record; a failing call ends the
  process, which is the value \<open>Inl\<close> with the text \<open>die\<close> prints.
\<close>

section \<open>The listening socket\<close>

record setup_answers =
  ans_socket :: int
  ans_setsockopt :: int
  ans_bind :: int
  ans_listen :: int
  ans_getfl :: int
  ans_setfl :: int

record listen_socket =
  ls_fd :: int
  ls_reuse_addr :: bool
  ls_sin_addr :: u32
  ls_sin_port :: u16
  ls_backlog :: nat
  ls_flags :: int

definition kBacklog :: nat where
  "kBacklog = 128"

definition O_NONBLOCK :: int where
  "O_NONBLOCK = 0x800"

text \<open>
  The results of the two \<open>fcntl\<close> calls are given. The first component is the return value; the second are
  the file status flags the kernel then holds, if they were changed.
\<close>

definition set_nonblocking :: "int \<Rightarrow> int \<Rightarrow> bool \<times> int option" where
  "set_nonblocking getfl setfl =
     (if getfl < 0 then (False, None)
      else (setfl = 0, if setfl < 0 then None else Some (getfl OR O_NONBLOCK)))"

text \<open>The copy of it in \<open>TcpClient\<close> accepts every result that is not negative.\<close>

definition client_set_nonblocking :: "int \<Rightarrow> int \<Rightarrow> bool \<times> int option" where
  "client_set_nonblocking getfl setfl =
     (if getfl < 0 then (False, None)
      else (setfl \<ge> 0, if setfl < 0 then None else Some (getfl OR O_NONBLOCK)))"

text \<open>\<open>htons\<close> on a little-endian machine.\<close>

definition htons :: "u16 \<Rightarrow> u16" where
  "htons p = push_bit 8 p OR drop_bit 8 p"

definition create_listen_socket :: "u16 \<Rightarrow> setup_answers \<Rightarrow> string + listen_socket" where
  "create_listen_socket port a =
     (if ans_socket a < 0 then Inl ''socket''
      else if ans_setsockopt a < 0 then Inl ''setsockopt(SO_REUSEADDR)''
      else if ans_bind a < 0 then Inl ''bind''
      else if ans_listen a < 0 then Inl ''listen''
      else let (ok, flags) = set_nonblocking (ans_getfl a) (ans_setfl a)
           in if \<not> ok then Inl ''fcntl(listen_fd, O_NONBLOCK)''
              else Inr \<lparr>ls_fd = ans_socket a, ls_reuse_addr = True, ls_sin_addr = 0, ls_sin_port = htons port,
                        ls_backlog = kBacklog, ls_flags = (case flags of Some f \<Rightarrow> f | None \<Rightarrow> ans_getfl a)\<rparr>)"

section \<open>Construction and \<open>run\<close>\<close>

text \<open>The main loop of \<open>w\<close> has been constructed: it is a member declared before the others.\<close>

definition new_tcp_server :: "u16 \<Rightarrow> nat \<Rightarrow> setup_answers \<Rightarrow> ('a, 'x, 'z) server_world_scheme
    \<Rightarrow> string + ('a, 'x, 'z) server_world_scheme" where
  "new_tcp_server port n a w =
     (case create_listen_socket port a of
        Inl msg \<Rightarrow> Inl msg
      | Inr s \<Rightarrow>
          Inr (server_listen (ls_fd s)
                 (on_loop main_loop (fd_open (ls_fd s))
                    (w\<lparr>thread_pool := new_pool n, connections := Map.empty,
                       srv_has_message_cb := False, srv_has_connection_cb := False\<rparr>))))"

text \<open>
  The callbacks of the listening channel. \<open>None\<close> in the state is the process having exited; no write
  callback is set.
\<close>

fun accept_cbs :: "(nat \<Rightarrow> ('a, 'x, 'z) server_world_scheme \<Rightarrow> ('a, 'x, 'z) server_world_scheme) \<Rightarrow> cb_kind
    \<Rightarrow> (('a, 'x, 'z) server_world_scheme option \<Rightarrow> ('a, 'x, 'z) server_world_scheme option) option" where
  "accept_cbs ccb ReadCb = Some (map_option (handle_accept ccb))"
| "accept_cbs ccb ErrorCb = Some (\<lambda>_. None)"
| "accept_cbs ccb CloseCb = Some (\<lambda>_. None)"
| "accept_cbs ccb WriteCb = None"

definition accept_event :: "(nat \<Rightarrow> ('a, 'x, 'z) server_world_scheme \<Rightarrow> ('a, 'x, 'z) server_world_scheme) \<Rightarrow> u32
    \<Rightarrow> ('a, 'x, 'z) server_world_scheme \<Rightarrow> ('a, 'x, 'z) server_world_scheme option" where
  "accept_event ccb revents w = handle_event (accept_channel w) True (accept_cbs ccb) revents (Some w)"

text \<open>
  \<open>EventLoopThreadPool::start\<close> with the loops it makes: \<open>mk i\<close> is the loop the \<open>i\<close>-th thread constructs. Then
  \<open>TcpServer::run\<close>, for the results \<open>epoll_wait\<close> will give.
\<close>

definition start_pool :: "(nat \<Rightarrow> 'a server_task conn_task task event_loop)
    \<Rightarrow> ('a, 'x, 'z) server_world_scheme \<Rightarrow> ('a, 'x, 'z) server_world_scheme" where
  "start_pool mk w =
     w\<lparr>thread_pool := pool_start (thread_pool w),
       loops := (\<lambda>i. if i \<in> Suc ` {0..<num_threads (thread_pool w)} then mk i else loops w i)\<rparr>"

definition tcp_server_run :: "(nat \<Rightarrow> 'a server_task conn_task task event_loop)
    \<Rightarrow> ('e \<Rightarrow> ('a, 'x, 'z) server_world_scheme \<Rightarrow> ('a, 'x, 'z) server_world_scheme)
    \<Rightarrow> ('a server_task conn_task \<Rightarrow> ('a, 'x, 'z) server_world_scheme \<Rightarrow> ('a, 'x, 'z) server_world_scheme)
    \<Rightarrow> 'e list option list \<Rightarrow> ('a, 'x, 'z) server_world_scheme \<Rightarrow> bool \<times> ('a, 'x, 'z) server_world_scheme" where
  "tcp_server_run mk ev run batches w = loop_run ev run main_loop batches (start_pool mk w)"

section \<open>The peer\<close>

text \<open>\<open>sin_addr\<close> as the four bytes in memory, \<open>sin_port\<close> in network order.\<close>

record sockaddr_in =
  sin_a :: "8 word"
  sin_b :: "8 word"
  sin_c :: "8 word"
  sin_d :: "8 word"
  sin_port :: u16

definition inet_ntop :: "sockaddr_in \<Rightarrow> string" where
  "inet_ntop a = to_string (unat (sin_a a)) @ ''.'' @ to_string (unat (sin_b a)) @ ''.'' @ to_string (unat (sin_c a)) @ ''.''
     @ to_string (unat (sin_d a))"

definition format_peer :: "sockaddr_in \<Rightarrow> string" where
  "format_peer addr = inet_ntop addr @ '':'' @ to_string (unat (htons (sin_port addr)))"

section \<open>Properties\<close>

subsection \<open>Peers\<close>

lemma htons_htons [simp]: "htons (htons p) = p"
  by (rule bit_word_eqI) (auto simp: htons_def bit_simps)

lemma htons_inject [simp]: "htons p = htons q \<longleftrightarrow> p = q"
  by (metis htons_htons)

lemma length_to_string_byte: "length (to_string (unat (b :: 8 word))) \<le> 3"
  using unsigned_less [of b, where ?'a = nat] length_to_string [of "unat b" 2] by simp

lemma length_to_string_u16: "length (to_string (unat (p :: u16))) \<le> 5"
  using unsigned_less [of p, where ?'a = nat] length_to_string [of "unat p" 4] by simp

lemma format_peer_length: "length (format_peer a) \<le> 21"
  using length_to_string_byte [of "sin_a a"] length_to_string_byte [of "sin_b a"] length_to_string_byte [of "sin_c a"]
    length_to_string_byte [of "sin_d a"] length_to_string_u16 [of "htons (sin_port a)"]
  by (simp add: format_peer_def inet_ntop_def)

lemma format_peer_chars: "set (format_peer a) \<subseteq> {c. is_digit c \<or> c = CHR ''.'' \<or> c = CHR '':''}"
  using to_string_digits by (auto simp: format_peer_def inet_ntop_def)

text \<open>A number and what follows it can be told apart if what follows does not begin with a digit.\<close>

lemma to_string_split:
  assumes "to_string m @ c # xs = to_string n @ d # ys" "\<not> is_digit c" "\<not> is_digit d"
  shows "m = n \<and> c = d \<and> xs = ys"
proof -
  have "takeWhile is_digit (to_string k @ e # zs) = to_string k" "dropWhile is_digit (to_string k @ e # zs) = e # zs"
    if "\<not> is_digit e" for k e zs
    using that to_string_digits [of k] by (simp_all add: takeWhile_append2 dropWhile_append2)
  from this [OF assms(2), of m xs] this [OF assms(3), of n ys] assms(1) show ?thesis
    by (metis list.inject to_string_inject)
qed

text \<open>Two peers have the same text only if they are the same.\<close>

lemma format_peer_inject: "format_peer a = format_peer b \<longleftrightarrow> a = b"
proof
  assume e: "format_peer a = format_peer b"
  note e1 = e [unfolded format_peer_def inet_ntop_def append_assoc append_Cons append_Nil]
  note e2 = to_string_split [OF e1] note e3 = to_string_split [OF e2 [THEN conjunct2, THEN conjunct2]]
  note e4 = to_string_split [OF e3 [THEN conjunct2, THEN conjunct2]]
  note e5 = to_string_split [OF e4 [THEN conjunct2, THEN conjunct2]]
  from e2 e3 e4 e5 show "a = b" by (intro sockaddr_in.equality) (auto dest!: unsigned_word_eqI)
qed simp

subsection \<open>Setting up\<close>

text \<open>The socket is ready exactly if no call failed; otherwise the first failing call is reported.\<close>

lemma create_listen_socket_ok:
  "create_listen_socket port a = Inr s \<longleftrightarrow>
     (\<forall>r\<in>{ans_socket a, ans_setsockopt a, ans_bind a, ans_listen a, ans_getfl a}. r \<ge> 0) \<and> ans_setfl a = 0
     \<and> s = \<lparr>ls_fd = ans_socket a, ls_reuse_addr = True, ls_sin_addr = 0, ls_sin_port = htons port, ls_backlog = 128,
            ls_flags = ans_getfl a OR O_NONBLOCK\<rparr>"
  by (auto simp: create_listen_socket_def set_nonblocking_def kBacklog_def split: if_splits)

lemma accept_event_eq:
  "accept_event ccb revents w =
     (if bit revents 3 \<or> (bit revents 4 \<and> \<not> bit revents 0) then None
      else if bit revents 0 \<or> bit revents 13 then Some (handle_accept ccb w) else Some w)"
  using event_bits [of revents]
  by (auto simp: accept_event_def handle_event_def handle_event_with_guard_def dispatch_def simp flip: kReadEvent_def)

subsection \<open>Starting\<close>

text \<open>The acceptor of a new server: registered for reading, edge-triggered, with nothing else changed.\<close>

definition acceptor_ready :: "int \<Rightarrow> ('a, 'x, 'z) server_world_scheme \<Rightarrow> bool" where
  "acceptor_ready fd w \<longleftrightarrow> accept_channel w = \<lparr>ch_fd = fd, ch_events = kReadEvent, ch_state = kAdded, ch_tied = False\<rparr>
     \<and> interest (ep (loops w main_loop)) fd = Some (kReadEvent OR EPOLLET) \<and> fd \<notin> closed_fds (ep (loops w main_loop))"

lemma new_tcp_server_effect:
  assumes "new_tcp_server port n a w = Inr v" "in_loop_thread main_loop w"
    "interest (ep (loops w main_loop)) (ans_socket a) = None" "ctl_faults (ep (loops w main_loop)) = []"
  shows "acceptor_ready (ans_socket a) v" "thread_pool v = new_pool n" "connections v = Map.empty" "conns v = conns w"
    "accept_script v = accept_script w" "next_cid v = next_cid w" "this_thread v = this_thread w"
    "ans_socket a \<ge> 0 \<and> ans_bind a \<ge> 0 \<and> ans_listen a \<ge> 0" "in_loop_thread main_loop v"
proof -
  obtain s where s: "create_listen_socket port a = Inr s" using assms(1) by (auto simp: new_tcp_server_def split: sum.splits)
  note k = create_listen_socket_ok [THEN iffD1, OF s]
  show "ans_socket a \<ge> 0 \<and> ans_bind a \<ge> 0 \<and> ans_listen a \<ge> 0" using k by simp
  have v: "v = server_listen (ans_socket a) (on_loop main_loop (fd_open (ans_socket a))
      (w\<lparr>thread_pool := new_pool n, connections := Map.empty, srv_has_message_cb := False, srv_has_connection_cb := False\<rparr>))"
    using assms(1) k by (simp add: new_tcp_server_def s)
  show "acceptor_ready (ans_socket a) v" "thread_pool v = new_pool n" "connections v = Map.empty" "conns v = conns w"
    "accept_script v = accept_script w" "next_cid v = next_cid w" "this_thread v = this_thread w" "in_loop_thread main_loop v"
    using assms(2-4)
    by (simp_all add: v server_listen_def in_loop_thread_def fd_open_def enable_reading_def update_channel_def new_channel_def
        epoll_add_def ctl_fault_def acceptor_ready_def on_loop_def Let_def)
qed

lemma start_pool_effect:
  assumes "w' = start_pool mk w" "thread_pool w = new_pool n" "\<forall>i>0. owner_tid (mk i) \<noteq> this_thread w"
  shows "pool_loops (thread_pool w') = map Suc [0..<n]" "pool_next (thread_pool w') = 0" "n > 0 \<Longrightarrow> pool_ready w'"
    "n > 0 \<Longrightarrow> served_by (thread_pool w') k = Suc (k mod n)" "acceptor_ready fd w' = acceptor_ready fd w"
    "accept_script w' = accept_script w" "next_cid w' = next_cid w" "in_loop_thread main_loop w' = in_loop_thread main_loop w"
  using assms(3)
  by (auto simp: assms(1,2) start_pool_def pool_start_def new_pool_def pool_ready_def served_by_def acceptor_ready_def main_loop_def in_loop_thread_def)

text \<open>
  C22. Starting a server. If the constructor survives, then every system call on the way succeeded, the
  listening descriptor is registered for reading on the main loop, and once \<open>run\<close> has started the \<open>n\<close> IO
  threads the \<open>k\<close>-th of the clients that wait at the first event is given an open connection on the loop of
  thread \<open>k mod n\<close>, found in the table under its descriptor. An error or a hang-up of the listening
  descriptor ends the process instead.
\<close>

theorem server_startup:
  assumes "new_tcp_server port n a w = Inr v" "in_loop_thread main_loop w"
    "interest (ep (loops w main_loop)) (ans_socket a) = None" "ctl_faults (ep (loops w main_loop)) = []"
    "\<forall>i>0. owner_tid (mk i) \<noteq> this_thread w" "accept_script w = accepts xs" "n > 0"
    "v1 = start_pool mk (v\<lparr>srv_has_message_cb := True, srv_has_connection_cb := True\<rparr>)"
  shows "acceptor_ready (ans_socket a) v1 \<and> ans_bind a \<ge> 0 \<and> ans_listen a \<ge> 0
    \<and> accept_event ccb (EPOLLIN OR EPOLLERR) v1 = None \<and> accept_event ccb EPOLLHUP v1 = None
    \<and> (\<exists>v2. accept_event ccb EPOLLIN v1 = Some v2
         \<and> (\<forall>k < length xs. cn_loop (conns v2 (next_cid w + k)) = Suc (k mod n) \<and> connected (next_cid w + k) v2
              \<and> cn_fd (conns v2 (next_cid w + k)) = fst (xs ! k)
              \<and> (fst (xs ! k) \<notin> fst ` set (drop (Suc k) xs) \<longrightarrow> connections v2 (fst (xs ! k)) = Some (next_cid w + k))))"
proof -
  note e = new_tcp_server_effect [OF assms(1-4)]
  let ?v = "v\<lparr>srv_has_message_cb := True, srv_has_connection_cb := True\<rparr>"
  have t: "thread_pool ?v = new_pool n" "\<forall>i>0. owner_tid (mk i) \<noteq> this_thread ?v" using e assms(5) by simp_all
  note p = start_pool_effect [OF assms(8) t]
  define v2 where "v2 = handle_accept ccb v1"
  have ev: "accept_event ccb (EPOLLIN OR EPOLLERR) v1 = None" "accept_event ccb EPOLLHUP v1 = None" "accept_event ccb EPOLLIN v1 = Some v2"
    by (simp_all add: accept_event_eq v2_def EPOLLIN_def EPOLLERR_def EPOLLHUP_def bit_simps)
  have ar: "acceptor_ready (ans_socket a) v1" using e(1) p(5) by (simp add: acceptor_ready_def)
  let ?u = "v1\<lparr>accept_script := []\<rparr>"
  have r: "pool_ready ?u" using p(3) assms(7) by (simp add: pool_ready_def)
  have u: "v2 = accept_loop ccb (accepts xs) ?u" "next_cid ?u = next_cid w"
    using p e assms(6) by (simp_all add: v2_def handle_accept_def)
  note ac = accept_loop_conns [OF r, of ccb xs, folded u(1)] and an = accept_loop_connections [OF r, of ccb xs, folded u(1)]
  have "cn_loop (conns v2 (next_cid w + k)) = Suc (k mod n) \<and> connected (next_cid w + k) v2 \<and> cn_fd (conns v2 (next_cid w + k)) = fst (xs ! k)"
    if "k < length xs" for k
    using conjunct2 [OF ac, rule_format, OF that] p(4) [OF assms(7)] u(2)
    by (cases "xs ! k") (simp add: connected_def new_connection_def)
  moreover have "connections v2 (fst (xs ! k)) = Some (next_cid w + k)" if "k < length xs" "fst (xs ! k) \<notin> fst ` set (drop (Suc k) xs)" for k
    using that u(2) by (simp add: an map_of_rev_last_index)
  ultimately show ?thesis using ev ar e(8) by blast
qed

definition good_answers :: setup_answers where
  "good_answers = \<lparr>ans_socket = 4, ans_setsockopt = 0, ans_bind = 0, ans_listen = 0, ans_getfl = 2, ans_setfl = 0\<rparr>"

lemma good_answers_ok [simp]: "create_listen_socket p good_answers = Inr \<lparr>ls_fd = 4, ls_reuse_addr = True, ls_sin_addr = 0,
    ls_sin_port = htons p, ls_backlog = 128, ls_flags = 2 OR O_NONBLOCK\<rparr>" "ans_socket good_answers = 4"
  by (simp_all add: create_listen_socket_ok good_answers_def)

abbreviation three_clients :: "(int \<times> string \<times> rd_result list \<times> wr_result list) list" where
  "three_clients \<equiv> [(7, ''a'', [], []), (8, ''b'', [], []), (9, ''c'', [], [])]"

theorem server_startup_witness:
  "\<exists>v v2. new_tcp_server 8888 2 good_answers (sample_server (accepts three_clients)) = Inr v
    \<and> accept_event (\<lambda>_ w. w) EPOLLIN
        (start_pool (\<lambda>i. new_event_loop i 5 6 []) (v\<lparr>srv_has_message_cb := True, srv_has_connection_cb := True\<rparr>)) = Some v2
    \<and> map (\<lambda>c. cn_loop (conns v2 c)) [0, 1, 2] = [1, 2, 1]"
proof -
  let ?w = "sample_server (accepts three_clients)"
  obtain v where v: "new_tcp_server 8888 2 good_answers ?w = Inr v" by (simp add: new_tcp_server_def)
  have "in_loop_thread main_loop ?w" "interest (ep (loops ?w main_loop)) (ans_socket good_answers) = None"
    "ctl_faults (ep (loops ?w main_loop)) = []" "\<forall>i>0. owner_tid (new_event_loop i 5 6 [] :: nat server_task conn_task task event_loop) \<noteq> this_thread ?w"
    "accept_script ?w = accepts three_clients" "next_cid ?w = 0"
    by (simp_all add: in_loop_thread_def main_loop_def sample_server_of_def new_event_loop_def channel_ops update_channel_def
        epoll_add_def ctl_fault_def new_channel_def Let_def)
  from server_startup [OF v this(1-5) _ refl, of "\<lambda>_ w. w"] this(6)
  obtain v2 where "accept_event (\<lambda>_ w. w) EPOLLIN
        (start_pool (\<lambda>i. new_event_loop i 5 6 []) (v\<lparr>srv_has_message_cb := True, srv_has_connection_cb := True\<rparr>)) = Some v2"
      and "\<forall>k<3. cn_loop (conns v2 k) = Suc (k mod 2)" by auto
  with v show ?thesis by (intro exI [of _ v] exI [of _ v2]) simp
qed

end
