(* ===== verification/Tcp_Client.thy ===== *)
theory Tcp_Client
  imports Connection_Props
begin

text \<open>
  \<open>src/src/tcp_client.h\<close> and \<open>tcp_client.cpp\<close>: a client that dials with a non-blocking \<open>connect\<close> and
  reconnects with exponential backoff.

  The client object is one field of the world. What the kernel answers to the next calls of \<open>socket\<close>,
  \<open>fcntl\<close> and \<open>connect\<close> is a script of \<open>dial\<close> values; once a handshake is under way, \<open>handshake\<close> holds
  what \<open>SO_ERROR\<close> will be and the scripts of the socket. The connection callback and the message
  callback of the user are parameters. The lambdas handed to the loop are the constructors of
  \<open>client_task\<close>.
\<close>

section \<open>State\<close>

datatype client_state = CliDisconnected | CliConnecting | CliConnected | CliRetrying

datatype dial =
  SocketErr
| NonblockErr int
| ConnectErr int
| ConnectNow int int "rd_result list" "wr_result list"
| InProgress int int "rd_result list" "wr_result list"

datatype 'a client_task = RetryTimer | ConnectTask | DisconnectTask | CliApp 'a

record client =
  cl_loop :: nat
  cl_peer :: string
  cl_state :: client_state
  retry_enabled :: bool
  connecting_fd :: int
  connect_channel :: "channel option"
  connection :: "nat option"
  backoff_ms :: int
  cl_has_connection_cb :: bool
  cl_has_message_cb :: bool

record ('a, 'x) client_world = "('a client_task, 'x) conn_world" +
  cl :: client
  dial_script :: "dial list"
  handshake :: "int \<times> rd_result list \<times> wr_result list"
  cl_next_cid :: nat

definition kInitialBackoffMs :: int where
  "kInitialBackoffMs = 500"

definition kMaxBackoffMs :: int where
  "kMaxBackoffMs = 30 * 1000"

definition new_client :: "nat \<Rightarrow> string \<Rightarrow> client" where
  "new_client i peer = \<lparr>cl_loop = i, cl_peer = peer, cl_state = CliDisconnected, retry_enabled = False,
     connecting_fd = -1, connect_channel = None, connection = None, backoff_ms = 0,
     cl_has_connection_cb = False, cl_has_message_cb = False\<rparr>"

definition on_cl :: "(client \<Rightarrow> client) \<Rightarrow> ('a, 'x, 'z) client_world_scheme \<Rightarrow> ('a, 'x, 'z) client_world_scheme" where
  "on_cl f w = w\<lparr>cl := f (cl w)\<rparr>"

abbreviation the_loop :: "('a, 'x, 'z) client_world_scheme \<Rightarrow> nat" where
  "the_loop w \<equiv> cl_loop (cl w)"

section \<open>Operations\<close>

definition schedule_retry :: "('a, 'x, 'z) client_world_scheme \<Rightarrow> ('a, 'x, 'z) client_world_scheme" where
  "schedule_retry w =
     (if \<not> in_loop_thread (the_loop w) w then loop_abort (the_loop w) w
      else if \<not> retry_enabled (cl w) then on_cl (\<lambda>k. k\<lparr>cl_state := CliDisconnected\<rparr>) w
      else let w1 = (if backoff_ms (cl w) = 0 then on_cl (\<lambda>k. k\<lparr>backoff_ms := kInitialBackoffMs\<rparr>) w else w);
               w2 = on_cl (\<lambda>k. k\<lparr>cl_state := CliRetrying\<rparr>) w1;
               this_wait = backoff_ms (cl w2);
               w3 = snd (run_after (the_loop w2) this_wait (Some (Task (App RetryTimer))) w2)
           in on_cl (\<lambda>k. k\<lparr>backoff_ms := min (backoff_ms k * 2) kMaxBackoffMs\<rparr>) w3)"

definition on_connection_closed :: "(nat \<Rightarrow> ('a, 'x, 'z) client_world_scheme \<Rightarrow> ('a, 'x, 'z) client_world_scheme)
    \<Rightarrow> nat \<Rightarrow> ('a, 'x, 'z) client_world_scheme \<Rightarrow> ('a, 'x, 'z) client_world_scheme" where
  "on_connection_closed ccb c w =
     (if \<not> in_loop_thread (the_loop w) w then loop_abort (the_loop w) w
      else let w1 = (if cl_has_connection_cb (cl w) then ccb c w else w)
           in schedule_retry (on_cl (\<lambda>k. k\<lparr>connection := None\<rparr>) w1))"

text \<open>The block that takes the temporary channel off the loop, if there is one.\<close>

definition drop_connect_channel :: "('a, 'x, 'z) client_world_scheme \<Rightarrow> ('a, 'x, 'z) client_world_scheme" where
  "drop_connect_channel w =
     (case connect_channel (cl w) of
        None \<Rightarrow> w
      | Some ch \<Rightarrow>
          let (_, l) = detach_channel (this_thread w) ch (loops w (the_loop w))
          in on_cl (\<lambda>k. k\<lparr>connect_channel := None\<rparr>) (on_loop (the_loop w) (\<lambda>_. l) w))"

definition close_connecting_fd :: "('a, 'x, 'z) client_world_scheme \<Rightarrow> ('a, 'x, 'z) client_world_scheme" where
  "close_connecting_fd w =
     (if connecting_fd (cl w) \<ge> 0
      then on_cl (\<lambda>k. k\<lparr>connecting_fd := -1\<rparr>) (on_loop (the_loop w) (fd_close (connecting_fd (cl w))) w)
      else w)"

text \<open>The end of a successful handshake: the connection takes over the descriptor.\<close>

definition adopt_connection :: "(nat \<Rightarrow> ('a, 'x, 'z) client_world_scheme \<Rightarrow> ('a, 'x, 'z) client_world_scheme)
    \<Rightarrow> int \<Rightarrow> rd_result list \<Rightarrow> wr_result list \<Rightarrow> ('a, 'x, 'z) client_world_scheme \<Rightarrow> ('a, 'x, 'z) client_world_scheme" where
  "adopt_connection ccb fd rs ws w =
     (let c = cl_next_cid w;
          cn = (new_connection (the_loop w) fd (cl_peer (cl w)) rs ws)\<lparr>has_message_cb := cl_has_message_cb (cl w), has_close_cb := True\<rparr>;
          w1 = on_conn c (\<lambda>_. cn) (w\<lparr>cl_next_cid := c + 1\<rparr>);
          w2 = on_cl (\<lambda>k. k\<lparr>cl_state := CliConnected, backoff_ms := kInitialBackoffMs, connection := Some c\<rparr>) w1;
          w3 = (if cl_has_connection_cb (cl w2) then ccb c w2 else w2)
      in conn_start c w3)"

definition handle_connect_writable :: "(nat \<Rightarrow> ('a, 'x, 'z) client_world_scheme \<Rightarrow> ('a, 'x, 'z) client_world_scheme)
    \<Rightarrow> ('a, 'x, 'z) client_world_scheme \<Rightarrow> ('a, 'x, 'z) client_world_scheme" where
  "handle_connect_writable ccb w =
     (if \<not> in_loop_thread (the_loop w) w then loop_abort (the_loop w) w
      else let fd = connecting_fd (cl w);
               w1 = drop_connect_channel (on_cl (\<lambda>k. k\<lparr>connecting_fd := -1\<rparr>) w)
           in if fd < 0 then schedule_retry w1
              else let (err, rs, ws) = handshake w1
                   in if err \<noteq> 0 then schedule_retry (on_loop (the_loop w1) (fd_close fd) w1)
                      else adopt_connection ccb fd rs ws w1)"

text \<open>The kernel gives out a descriptor: the number is open again.\<close>

definition take_fd :: "int \<Rightarrow> ('a, 'x, 'z) client_world_scheme \<Rightarrow> ('a, 'x, 'z) client_world_scheme" where
  "take_fd fd w = on_loop (the_loop w) (fd_open fd) w"

definition start_connect :: "(nat \<Rightarrow> ('a, 'x, 'z) client_world_scheme \<Rightarrow> ('a, 'x, 'z) client_world_scheme)
    \<Rightarrow> ('a, 'x, 'z) client_world_scheme \<Rightarrow> ('a, 'x, 'z) client_world_scheme" where
  "start_connect ccb w =
     (if \<not> in_loop_thread (the_loop w) w then loop_abort (the_loop w) w
      else if \<not> retry_enabled (cl w) then on_cl (\<lambda>k. k\<lparr>cl_state := CliDisconnected\<rparr>) w
      else let w0 = w\<lparr>dial_script := tl (dial_script w)\<rparr>
           in case (case dial_script w of [] \<Rightarrow> SocketErr | d # _ \<Rightarrow> d) of
                SocketErr \<Rightarrow> schedule_retry w0
              | NonblockErr fd \<Rightarrow> schedule_retry (on_loop (the_loop w0) (fd_close fd) (take_fd fd w0))
              | ConnectErr fd \<Rightarrow> schedule_retry (on_loop (the_loop w0) (fd_close fd) (take_fd fd w0))
              | ConnectNow fd err rs ws \<Rightarrow>
                  handle_connect_writable ccb
                    (on_cl (\<lambda>k. k\<lparr>connecting_fd := fd, cl_state := CliConnecting\<rparr>) ((take_fd fd w0)\<lparr>handshake := (err, rs, ws)\<rparr>))
              | InProgress fd err rs ws \<Rightarrow>
                  let w1 = on_cl (\<lambda>k. k\<lparr>connecting_fd := fd, cl_state := CliConnecting\<rparr>) ((take_fd fd w0)\<lparr>handshake := (err, rs, ws)\<rparr>);
                      (ch, l) = enable_writing (this_thread w1) (new_channel fd) (loops w1 (the_loop w1))
                  in on_cl (\<lambda>k. k\<lparr>connect_channel := Some ch\<rparr>) (on_loop (the_loop w1) (\<lambda>_. l) w1))"

definition connect_in_loop :: "(nat \<Rightarrow> ('a, 'x, 'z) client_world_scheme \<Rightarrow> ('a, 'x, 'z) client_world_scheme)
    \<Rightarrow> ('a, 'x, 'z) client_world_scheme \<Rightarrow> ('a, 'x, 'z) client_world_scheme" where
  "connect_in_loop ccb w =
     (if \<not> in_loop_thread (the_loop w) w then loop_abort (the_loop w) w
      else if cl_state (cl w) = CliConnecting \<or> cl_state (cl w) = CliConnected then w
      else start_connect ccb (on_cl (\<lambda>k. k\<lparr>retry_enabled := True, backoff_ms := kInitialBackoffMs\<rparr>) w))"

definition disconnect_in_loop :: "(nat \<Rightarrow> ('a, 'x, 'z) client_world_scheme \<Rightarrow> ('a, 'x, 'z) client_world_scheme)
    \<Rightarrow> ('a, 'x, 'z) client_world_scheme \<Rightarrow> ('a, 'x, 'z) client_world_scheme" where
  "disconnect_in_loop ccb w =
     (if \<not> in_loop_thread (the_loop w) w then loop_abort (the_loop w) w
      else let w1 = on_cl (\<lambda>k. k\<lparr>retry_enabled := False\<rparr>) w
           in case (cl_state (cl w1), connection (cl w1)) of
                (CliConnected, Some c) \<Rightarrow> conn_close (on_connection_closed ccb) c w1
              | (CliConnecting, _) \<Rightarrow>
                  on_cl (\<lambda>k. k\<lparr>cl_state := CliDisconnected\<rparr>) (close_connecting_fd (drop_connect_channel w1))
              | (CliRetrying, _) \<Rightarrow> on_cl (\<lambda>k. k\<lparr>cl_state := CliDisconnected\<rparr>) w1
              | _ \<Rightarrow> w1)"

definition client_connect :: "(nat \<Rightarrow> ('a, 'x, 'z) client_world_scheme \<Rightarrow> ('a, 'x, 'z) client_world_scheme)
    \<Rightarrow> ('a, 'x, 'z) client_world_scheme \<Rightarrow> ('a, 'x, 'z) client_world_scheme" where
  "client_connect ccb w = run_in_loop (the_loop w) (Task (App ConnectTask)) (connect_in_loop ccb) w"

definition client_disconnect :: "(nat \<Rightarrow> ('a, 'x, 'z) client_world_scheme \<Rightarrow> ('a, 'x, 'z) client_world_scheme)
    \<Rightarrow> ('a, 'x, 'z) client_world_scheme \<Rightarrow> ('a, 'x, 'z) client_world_scheme" where
  "client_disconnect ccb w = run_in_loop (the_loop w) (Task (App DisconnectTask)) (disconnect_in_loop ccb) w"

text \<open>The lambda of the retry timer.\<close>

definition retry_fired :: "(nat \<Rightarrow> ('a, 'x, 'z) client_world_scheme \<Rightarrow> ('a, 'x, 'z) client_world_scheme)
    \<Rightarrow> ('a, 'x, 'z) client_world_scheme \<Rightarrow> ('a, 'x, 'z) client_world_scheme" where
  "retry_fired ccb w = (if cl_state (cl w) \<noteq> CliRetrying then w else start_connect ccb w)"

definition client_destroy :: "(nat \<Rightarrow> ('a, 'x, 'z) client_world_scheme \<Rightarrow> ('a, 'x, 'z) client_world_scheme)
    \<Rightarrow> ('a, 'x, 'z) client_world_scheme \<Rightarrow> ('a, 'x, 'z) client_world_scheme" where
  "client_destroy ccb w =
     (if \<not> in_loop_thread (the_loop w) w then loop_abort (the_loop w) w
      else let w1 = on_cl (\<lambda>k. k\<lparr>retry_enabled := False\<rparr>) w;
               w2 = (case connection (cl w1) of
                       None \<Rightarrow> w1
                     | Some c \<Rightarrow> on_cl (\<lambda>k. k\<lparr>connection := None\<rparr>) (conn_close (on_connection_closed ccb) c w1))
           in close_connecting_fd (drop_connect_channel w2))"

fun run_client_task :: "(nat \<Rightarrow> ('a, 'x, 'z) client_world_scheme \<Rightarrow> ('a, 'x, 'z) client_world_scheme)
    \<Rightarrow> ('a \<Rightarrow> ('a, 'x, 'z) client_world_scheme \<Rightarrow> ('a, 'x, 'z) client_world_scheme)
    \<Rightarrow> 'a client_task \<Rightarrow> ('a, 'x, 'z) client_world_scheme \<Rightarrow> ('a, 'x, 'z) client_world_scheme" where
  "run_client_task ccb app RetryTimer w = retry_fired ccb w"
| "run_client_task ccb app ConnectTask w = connect_in_loop ccb w"
| "run_client_task ccb app DisconnectTask w = disconnect_in_loop ccb w"
| "run_client_task ccb app (CliApp a) w = app a w"

text \<open>The callbacks of the temporary channel, and those of the connection.\<close>

fun connect_channel_cbs :: "(nat \<Rightarrow> ('a, 'x, 'z) client_world_scheme \<Rightarrow> ('a, 'x, 'z) client_world_scheme) \<Rightarrow> cb_kind
    \<Rightarrow> (('a, 'x, 'z) client_world_scheme \<Rightarrow> ('a, 'x, 'z) client_world_scheme) option" where
  "connect_channel_cbs ccb ReadCb = None"
| "connect_channel_cbs ccb _ = Some (handle_connect_writable ccb)"

definition client_cbs :: "(nat \<Rightarrow> ('a, 'x, 'z) client_world_scheme \<Rightarrow> ('a, 'x, 'z) client_world_scheme)
    \<Rightarrow> (nat \<Rightarrow> ('a, 'x, 'z) client_world_scheme \<Rightarrow> ('a, 'x, 'z) client_world_scheme)
    \<Rightarrow> (nat \<Rightarrow> ('a, 'x, 'z) client_world_scheme \<Rightarrow> ('a, 'x, 'z) client_world_scheme)
    \<Rightarrow> (nat \<Rightarrow> ('a, 'x, 'z) client_world_scheme \<Rightarrow> ('a, 'x, 'z) client_world_scheme)
    \<Rightarrow> ('a, 'x, 'z) client_world_scheme conn_cbs" where
  "client_cbs mcb ccb hwcb wccb =
     \<lparr>message_cb = mcb, close_cb = on_connection_closed ccb, high_water_cb = hwcb, write_complete_cb = wccb\<rparr>"

section \<open>Frames\<close>

lemma client_frame [simp]:
  "cl (on_loop i f w) = cl w" "cl (on_conn c g w) = cl w" "cl (on_cl h w) = h (cl w)"
  "dial_script (on_loop i f w) = dial_script w" "dial_script (on_conn c g w) = dial_script w" "dial_script (on_cl h w) = dial_script w"
  "cl_next_cid (on_loop i f w) = cl_next_cid w" "cl_next_cid (on_conn c g w) = cl_next_cid w" "cl_next_cid (on_cl h w) = cl_next_cid w"
  "handshake (on_loop i f w) = handshake w" "handshake (on_cl h w) = handshake w"
  by (simp_all add: on_loop_def on_conn_def on_cl_def)

lemma on_cl_simps [simp]:
  "loops (on_cl h w) = loops w" "conns (on_cl h w) = conns w" "this_thread (on_cl h w) = this_thread w"
  "steady_now (on_cl h w) = steady_now w" "in_loop_thread i (on_cl h w) = in_loop_thread i w"
  "is_open c (on_cl h w) = is_open c w"
  by (simp_all add: on_cl_def in_loop_thread_def is_open_def)

text \<open>The timers whose lambda dials again.\<close>

definition is_retry :: "'a client_task conn_task task entry \<Rightarrow> bool" where
  "is_retry e \<longleftrightarrow> timer_cb e = Some (Task (App RetryTimer))"

definition retry_timers :: "('a, 'x, 'z) client_world_scheme \<Rightarrow> 'a client_task conn_task task entry list" where
  "retry_timers w = filter is_retry (timers (timer_queue (loops w (the_loop w))))"

text \<open>
  A step that leaves the client and its timers as they are and opens or closes no connection. Other
  timers of the loop may come and go.
\<close>

definition quiet :: "('a, 'x, 'z) client_world_scheme \<Rightarrow> ('a, 'x, 'z) client_world_scheme \<Rightarrow> bool" where
  "quiet w w' \<longleftrightarrow> cl w' = cl w \<and> dial_script w' = dial_script w \<and> cl_next_cid w' = cl_next_cid w
     \<and> this_thread w' = this_thread w
     \<and> (\<forall>i. owner_tid (loops w' i) = owner_tid (loops w i)
          \<and> (tq_inv (timer_queue (loops w i)) \<longrightarrow> tq_inv (timer_queue (loops w' i))
               \<and> filter is_retry (timers (timer_queue (loops w' i))) = filter is_retry (timers (timer_queue (loops w i)))))
     \<and> (\<forall>c. is_open c w' = is_open c w \<and> has_close_cb (conns w' c) = has_close_cb (conns w c))"

lemma quiet_refl [simp]: "quiet w w"
  by (simp add: quiet_def)

lemma quiet_trans [trans]: "quiet w w1 \<Longrightarrow> quiet w1 w2 \<Longrightarrow> quiet w w2"
  by (simp add: quiet_def)

lemma quiet_on_conn:
  "(cn_state (f (conns w c)) = kDisconnected \<longleftrightarrow> cn_state (conns w c) = kDisconnected)
     \<Longrightarrow> has_close_cb (f (conns w c)) = has_close_cb (conns w c) \<Longrightarrow> quiet w (on_conn c f w)"
  by (simp add: quiet_def is_open_def)

lemma quiet_on_loop:
  "owner_tid (f (loops w i)) = owner_tid (loops w i) \<Longrightarrow> timer_queue (f (loops w i)) = timer_queue (loops w i)
     \<Longrightarrow> quiet w (on_loop i f w)"
  by (simp add: quiet_def is_open_def)

lemma channel_op_timers:
  "owner_tid (snd (update_channel t ch l)) = owner_tid l \<and> timer_queue (snd (update_channel t ch l)) = timer_queue l"
  "owner_tid (snd (remove_channel t ch l)) = owner_tid l \<and> timer_queue (snd (remove_channel t ch l)) = timer_queue l"
  by (simp_all add: update_channel_def remove_channel_def Let_def split: prod.split)

lemma detach_channel_timers:
  "owner_tid (snd (detach_channel t ch l)) = owner_tid l \<and> timer_queue (snd (detach_channel t ch l)) = timer_queue l"
  by (simp add: detach_channel_def disable_all_def split_beta channel_op_timers)

lemma quiet_with_channel:
  assumes "\<And>t ch l. owner_tid (snd (op t ch l)) = owner_tid l \<and> timer_queue (snd (op t ch l)) = timer_queue l"
  shows "quiet w (with_channel c op w)"
  using assms by (auto simp: quiet_def with_channel_def split_beta Let_def is_open_def)

lemma quiet_channel [simp]:
  "quiet w (with_channel c enable_reading w)" "quiet w (with_channel c enable_writing w)"
  "quiet w (with_channel c disable_writing w)" "quiet w (with_channel c disable_all w)"
  "quiet w (with_channel c remove_channel w)"
  by (rule quiet_with_channel, simp add: channel_ops channel_op_timers)+

lemma quiet_drop_fd [simp]:
  "quiet w (on_loop i (fd_close fd) w)" "quiet w (on_loop i (fd_open fd) w)" "quiet w (on_loop i (queue_in_loop t f) w)"
  by (rule quiet_on_loop, simp add: fd_close_def, simp add: fd_close_def)
    (rule quiet_on_loop, simp_all add: fd_open_def)+

lemma quiet_conn_release: "quiet w (conn_release c w)"
proof -
  let ?w1 = "with_channel c remove_channel (with_channel c disable_all w)"
  have "quiet w ?w1" by (rule quiet_trans) (rule quiet_channel)+
  also have "quiet ?w1 (on_conn c (\<lambda>cn. cn\<lparr>sk := (sk cn)\<lparr>sk_closed := True\<rparr>\<rparr>) ?w1)" by (simp add: quiet_on_conn)
  also have "quiet \<dots> (on_loop (loop_of c ?w1) (fd_close (cn_fd (conns ?w1 c))) \<dots>)" by simp
  finally show ?thesis using \<open>quiet w ?w1\<close> by (simp add: conn_release_def Let_def)
qed

section \<open>Invariant\<close>

definition dial_fd_ok :: "dial \<Rightarrow> bool" where
  "dial_fd_ok d \<longleftrightarrow> (case d of SocketErr \<Rightarrow> True | NonblockErr fd \<Rightarrow> 0 \<le> fd | ConnectErr fd \<Rightarrow> 0 \<le> fd
     | ConnectNow fd _ _ _ \<Rightarrow> 0 \<le> fd | InProgress fd _ _ _ \<Rightarrow> 0 \<le> fd)"

definition backoff_ok :: "int \<Rightarrow> bool" where
  "backoff_ok b \<longleftrightarrow> b \<in> {0, 500, 1000, 2000, 4000, 8000, 16000, 30000}"

text \<open>What holds in every state, also inside an operation.\<close>

definition client_base :: "('a, 'x, 'z) client_world_scheme \<Rightarrow> bool" where
  "client_base w \<longleftrightarrow> in_loop_thread (the_loop w) w \<and> tq_inv (timer_queue (loops w (the_loop w)))
     \<and> list_all dial_fd_ok (dial_script w) \<and> backoff_ok (backoff_ms (cl w))"

text \<open>No attempt is under way and no connection is open.\<close>

definition idle :: "('a, 'x, 'z) client_world_scheme \<Rightarrow> bool" where
  "idle w \<longleftrightarrow> client_base w \<and> connecting_fd (cl w) < 0 \<and> connect_channel (cl w) = None \<and> connection (cl w) = None
     \<and> (\<forall>c < cl_next_cid w. \<not> is_open c w)"

text \<open>
  Between two events: what each state of the client means. \<open>n\<close> is the number of retry timers that have
  expired in the current batch and are still to be run.
\<close>

definition client_inv :: "nat \<Rightarrow> ('a, 'x, 'z) client_world_scheme \<Rightarrow> bool" where
  "client_inv n w \<longleftrightarrow> client_base w
     \<and> (0 \<le> connecting_fd (cl w) \<longleftrightarrow> cl_state (cl w) = CliConnecting)
     \<and> (connect_channel (cl w) \<noteq> None \<longleftrightarrow> cl_state (cl w) = CliConnecting)
     \<and> (connection (cl w) \<noteq> None \<longleftrightarrow> cl_state (cl w) = CliConnected)
     \<and> (\<forall>c. connection (cl w) = Some c \<longrightarrow> c < cl_next_cid w \<and> is_open c w \<and> has_close_cb (conns w c))
     \<and> (\<forall>c < cl_next_cid w. is_open c w \<longrightarrow> connection (cl w) = Some c)
     \<and> (retry_enabled (cl w) \<longleftrightarrow> cl_state (cl w) \<noteq> CliDisconnected)
     \<and> (cl_state (cl w) = CliRetrying \<longrightarrow> 0 < n \<or> retry_timers w \<noteq> [])"

lemma quiet_base: "quiet w w' \<Longrightarrow> client_base w \<Longrightarrow> client_base w'"
  by (simp add: quiet_def client_base_def in_loop_thread_def)

lemma client_inv_frame:
  assumes "client_inv n w" "client_base w'" "cl w' = cl w" "cl_next_cid w' = cl_next_cid w" "\<And>c. is_open c w' = is_open c w"
    "\<And>c. has_close_cb (conns w' c) = has_close_cb (conns w c)"
    "cl_state (cl w) = CliRetrying \<Longrightarrow> 0 < n \<or> retry_timers w \<noteq> [] \<Longrightarrow> 0 < m \<or> retry_timers w' \<noteq> []"
  shows "client_inv m w'"
proof -
  have "cl_state (cl w) = CliRetrying \<longrightarrow> 0 < m \<or> retry_timers w' \<noteq> []"
    using assms(1,7) unfolding client_inv_def by blast
  then show ?thesis
    using assms(1) unfolding client_inv_def assms(3-6) by (elim conjE, intro conjI) (assumption | rule assms(2))+
qed

lemma quiet_inv:
  assumes "quiet w w'" "client_inv n w"
  shows "client_inv n w'"
proof -
  have b: "client_base w" using assms(2) by (simp add: client_inv_def)
  show ?thesis
    by (rule client_inv_frame [OF assms(2) quiet_base [OF assms(1) b]])
      (use assms(1) b in \<open>simp_all add: quiet_def retry_timers_def client_base_def\<close>)
qed

lemma quiet_idle: "quiet w w' \<Longrightarrow> idle w \<Longrightarrow> idle w'"
  using quiet_base [of w w'] by (simp add: quiet_def idle_def)

lemma client_invD:
  assumes "client_inv n w"
  shows "client_base w" "in_loop_thread (the_loop w) w"
    "0 \<le> connecting_fd (cl w) \<longleftrightarrow> cl_state (cl w) = CliConnecting" "connect_channel (cl w) \<noteq> None \<longleftrightarrow> cl_state (cl w) = CliConnecting"
    "connection (cl w) \<noteq> None \<longleftrightarrow> cl_state (cl w) = CliConnected"
    "connection (cl w) = Some c \<Longrightarrow> c < cl_next_cid w" "connection (cl w) = Some c \<Longrightarrow> is_open c w"
    "connection (cl w) = Some c \<Longrightarrow> has_close_cb (conns w c)"
    "c < cl_next_cid w \<Longrightarrow> is_open c w \<Longrightarrow> connection (cl w) = Some c"
    "retry_enabled (cl w) \<longleftrightarrow> cl_state (cl w) \<noteq> CliDisconnected"
    "cl_state (cl w) = CliRetrying \<Longrightarrow> 0 < n \<or> retry_timers w \<noteq> []"
  using assms unfolding client_inv_def client_base_def by (elim conjE, blast)+

lemma inv_idle:
  assumes "client_inv n w" "cl_state (cl w) = CliDisconnected \<or> cl_state (cl w) = CliRetrying"
  shows "idle w"
  using client_invD(1,3-5) [OF assms(1)] client_invD(9) [OF assms(1)] assms(2) unfolding idle_def by force

lemma idle_on_cl:
  "idle w \<Longrightarrow> connecting_fd (h (cl w)) < 0 \<Longrightarrow> connect_channel (h (cl w)) = None \<Longrightarrow> connection (h (cl w)) = None
     \<Longrightarrow> cl_loop (h (cl w)) = the_loop w \<Longrightarrow> backoff_ok (backoff_ms (h (cl w))) \<Longrightarrow> idle (on_cl h w)"
  by (simp add: idle_def client_base_def)

subsection \<open>Scheduling a retry\<close>

lemma set_insert_count:
  "entry_key e \<notin> entry_key ` set es \<Longrightarrow> length (filter P (set_insert e es)) = length (filter P es) + (if P e then 1 else 0)"
proof (induction es)
  case (Cons x xs)
  then show ?case using entry_less_linear [of e x] by auto
qed simp

text \<open>What \<open>schedule_retry\<close> does while retrying is enabled.\<close>

lemma schedule_retry_effect:
  assumes "client_base w" "retry_enabled (cl w)" "b = (if backoff_ms (cl w) = 0 then kInitialBackoffMs else backoff_ms (cl w))"
    "e = \<lparr>expiration = steady_now w + b * 1000000, timer_id = next_id (timer_queue (loops w (the_loop w))),
          timer_cb = Some (Task (App RetryTimer))\<rparr>"
  shows "\<exists>q. schedule_retry w = on_cl (\<lambda>k. k\<lparr>cl_state := CliRetrying, backoff_ms := min (b * 2) kMaxBackoffMs\<rparr>)
            (on_loop (the_loop w) (\<lambda>l. l\<lparr>timer_queue := q\<rparr>) w)
     \<and> tq_inv q \<and> timers q = set_insert e (timers (timer_queue (loops w (the_loop w))))"
proof -
  let ?q = "timer_queue (loops w (the_loop w))"
  let ?q1 = "?q\<lparr>next_id := next_id ?q + 1\<rparr>"
  have base: "in_loop_thread (the_loop w) w" "tq_inv ?q" using assms(1) by (simp_all add: client_base_def)
  have q1: "tq_inv ?q1" "timer_id e \<notin> timer_id ` live ?q1" "timer_id e < next_id ?q1"
    using base(2) by (auto simp: tq_inv_def live_def assms(4))
  define w2 where "w2 = on_cl (\<lambda>k. k\<lparr>cl_state := CliRetrying, backoff_ms := b\<rparr>) w"
  have al: "alloc_timer_id (timer_queue (loops w2 (the_loop w2))) = (next_id ?q, ?q1)"
    by (simp add: alloc_timer_id_def w2_def)
  have il: "in_loop_thread (the_loop w2) w2" using base(1) by (simp add: w2_def)
  have "on_cl (\<lambda>k. k\<lparr>cl_state := CliRetrying\<rparr>)
      (if backoff_ms (cl w) = 0 then on_cl (\<lambda>k. k\<lparr>backoff_ms := kInitialBackoffMs\<rparr>) w else w) = w2"
    by (cases "cl w") (simp add: w2_def assms(3) on_cl_def)
  then have "schedule_retry w = on_cl (\<lambda>k. k\<lparr>backoff_ms := min (backoff_ms k * 2) kMaxBackoffMs\<rparr>)
      (snd (run_after (the_loop w2) (backoff_ms (cl w2)) (Some (Task (App RetryTimer))) w2))"
    using base(1) assms(2) by (simp only: schedule_retry_def Let_def) simp
  also have "\<dots> = on_cl (\<lambda>k. k\<lparr>cl_state := CliRetrying, backoff_ms := min (b * 2) kMaxBackoffMs\<rparr>)
      (on_loop (the_loop w) (\<lambda>l. l\<lparr>timer_queue := add_timer_in_loop (steady_now w) e ?q1\<rparr>) w)"
    by (simp add: run_after_def run_at_eq [OF al] il) (simp add: w2_def assms(4) on_cl_def on_loop_def)
  finally show ?thesis
    using add_timer_inv [OF q1] by (intro exI [of _ "add_timer_in_loop (steady_now w) e ?q1"]) simp
qed

lemma backoff_ok_double: "backoff_ok b \<Longrightarrow> backoff_ok (min ((if b = 0 then kInitialBackoffMs else b) * 2) kMaxBackoffMs)"
  by (auto simp: backoff_ok_def kInitialBackoffMs_def kMaxBackoffMs_def)

lemma schedule_retry_inv:
  assumes "idle w"
  shows "client_inv n (schedule_retry w)" "dial_script (schedule_retry w) = dial_script w"
    "cl_next_cid (schedule_retry w) = cl_next_cid w" "retry_enabled (cl (schedule_retry w)) = retry_enabled (cl w)"
proof -
  let ?w = "schedule_retry w"
  have base: "client_base w" using assms by (simp add: idle_def)
  have "client_inv n ?w \<and> dial_script ?w = dial_script w \<and> cl_next_cid ?w = cl_next_cid w \<and> retry_enabled (cl ?w) = retry_enabled (cl w)"
  proof (cases "retry_enabled (cl w)")
    case True
    obtain q e where q: "?w = on_cl (\<lambda>k. k\<lparr>cl_state := CliRetrying,
        backoff_ms := min ((if backoff_ms (cl w) = 0 then kInitialBackoffMs else backoff_ms (cl w)) * 2) kMaxBackoffMs\<rparr>)
            (on_loop (the_loop w) (\<lambda>l. l\<lparr>timer_queue := q\<rparr>) w)"
      "tq_inv q" "timers q = set_insert e (timers (timer_queue (loops w (the_loop w))))" "is_retry e"
      "timer_id e = next_id (timer_queue (loops w (the_loop w)))"
      using schedule_retry_effect [OF base True refl refl] by (force simp: is_retry_def)
    have "entry_key e \<notin> entry_key ` set (timers (timer_queue (loops w (the_loop w))))"
      using base q(5) by (force simp: client_base_def tq_inv_def)
    then have "filter is_retry (timers q) \<noteq> []" using set_insert_count [of e _ is_retry] q(3,4) by force
    then show ?thesis
      using assms True q(2) by (auto simp: q(1) client_inv_def idle_def client_base_def retry_timers_def is_open_def
          in_loop_thread_def backoff_ok_double)
  next
    case False
    then have "?w = on_cl (\<lambda>k. k\<lparr>cl_state := CliDisconnected\<rparr>) w" using base by (simp add: schedule_retry_def client_base_def)
    then show ?thesis using assms False by (auto simp: client_inv_def idle_def client_base_def)
  qed
  then show "client_inv n ?w" "dial_script ?w = dial_script w" "cl_next_cid ?w = cl_next_cid w" "retry_enabled (cl ?w) = retry_enabled (cl w)"
    by simp_all
qed

subsection \<open>Steps of the client\<close>

text \<open>
  A step keeps the invariant, and a client that does not want to reconnect neither starts to nor dials.
\<close>

definition client_adv :: "nat \<Rightarrow> ('a, 'x, 'z) client_world_scheme \<Rightarrow> ('a, 'x, 'z) client_world_scheme \<Rightarrow> bool" where
  "client_adv n w w' \<longleftrightarrow> client_inv n w' \<and> cl_next_cid w \<le> cl_next_cid w'
     \<and> (\<not> retry_enabled (cl w) \<longrightarrow> \<not> retry_enabled (cl w') \<and> dial_script w' = dial_script w)"

lemma client_adv_refl: "client_inv n w \<Longrightarrow> client_adv n w w"
  by (simp add: client_adv_def)

lemma client_adv_trans: "client_adv n w w1 \<Longrightarrow> client_adv n w1 w2 \<Longrightarrow> client_adv n w w2"
  by (auto simp: client_adv_def)

lemma client_adv_quiet: "quiet w w' \<Longrightarrow> client_inv n w \<Longrightarrow> client_adv n w w'"
  using quiet_inv [of w w' n] by (simp add: client_adv_def quiet_def)

lemma client_adv_retry:
  "idle v \<Longrightarrow> dial_script v = dial_script w \<Longrightarrow> cl_next_cid v = cl_next_cid w \<Longrightarrow> (retry_enabled (cl v) \<longrightarrow> retry_enabled (cl w))
     \<Longrightarrow> client_adv n w (schedule_retry v)"
  by (auto simp: client_adv_def schedule_retry_inv)

lemma conn_adv_on_cl: "conn_ok c w \<Longrightarrow> conn_adv c w (on_cl h w)"
  by (simp add: conn_adv_def conn_ok_def stream_def Let_def)

lemma conn_adv_schedule_retry:
  assumes "conn_ok c w"
  shows "conn_adv c w (schedule_retry w)"
proof -
  define w1 where "w1 = (if backoff_ms (cl w) = 0 then on_cl (\<lambda>k. k\<lparr>backoff_ms := kInitialBackoffMs\<rparr>) w else w)"
  define w2 where "w2 = on_cl (\<lambda>k. k\<lparr>cl_state := CliRetrying\<rparr>) w1"
  have a1: "conn_adv c w w1" using conn_adv_on_cl [OF assms] conn_adv_refl [OF assms] by (simp add: w1_def)
  have a2: "conn_adv c w w2" unfolding w2_def using a1 conn_adv_on_cl [OF conn_adv_ok [OF a1]] by (rule conn_adv_trans)
  note a3 = conn_adv_trans [OF a2 conn_adv_run_after [OF conn_adv_ok [OF a2]]]
  have ab: "conn_adv c w (loop_abort i w)" for i
    unfolding loop_abort_def by (rule conn_adv_on_loop [OF assms]) simp_all
  show ?thesis
    using ab conn_adv_on_cl [OF assms] conn_adv_trans [OF a3 conn_adv_on_cl [OF conn_adv_ok [OF a3]]]
    unfolding schedule_retry_def Let_def w1_def [symmetric] w2_def [symmetric] by simp
qed

lemma idle_take_fd: "idle w \<Longrightarrow> idle (on_loop i (fd_close fd) (take_fd fd w))"
  using quiet_idle [OF quiet_drop_fd(2)] quiet_idle [OF quiet_drop_fd(1)] unfolding take_fd_def by blast

lemma take_fd_next_cid [simp]: "cl_next_cid (take_fd fd w) = cl_next_cid w"
  by (simp add: take_fd_def)

lemma client_idle_frame [simp]: "idle (w\<lparr>handshake := h\<rparr>) = idle w"
  by (simp add: idle_def client_base_def in_loop_thread_def is_open_def)

lemma idle_dial_tl: "idle w \<Longrightarrow> idle (w\<lparr>dial_script := tl (dial_script w)\<rparr>)"
  by (cases "dial_script w") (simp_all add: idle_def client_base_def in_loop_thread_def is_open_def)

text \<open>
  The connection callback of a user may set up the connection it is called with; it leaves the client
  and the connection states alone.
\<close>

locale client_ccb =
  fixes ccb :: "nat \<Rightarrow> ('a, 'x, 'z) client_world_scheme \<Rightarrow> ('a, 'x, 'z) client_world_scheme"
  assumes ccb_quiet: "quiet w (ccb c w)"
begin

lemma close_schedules:
  assumes "client_base w" "is_open c w" "has_close_cb (conns w c)" "connecting_fd (cl w) < 0" "connect_channel (cl w) = None"
    "\<And>d. d < cl_next_cid w \<Longrightarrow> is_open d w \<Longrightarrow> d = c"
  shows "\<exists>v. conn_close (on_connection_closed ccb) c w = schedule_retry v \<and> idle v \<and> dial_script v = dial_script w
    \<and> cl_next_cid v = cl_next_cid w \<and> retry_enabled (cl v) = retry_enabled (cl w) \<and> cl v = (cl w)\<lparr>connection := None\<rparr>"
proof -
  define w1 where "w1 = on_conn c (\<lambda>cn. cn\<lparr>cn_state := kDisconnected\<rparr>) w"
  define w2 where "w2 = conn_release c w1"
  define w3 where "w3 = (if cl_has_connection_cb (cl w2) then ccb c w2 else w2)"
  have q: "quiet w1 w2" "quiet w2 w3" by (simp_all add: w2_def quiet_conn_release w3_def ccb_quiet)
  have "client_base w1" using assms(1) by (simp add: w1_def client_base_def)
  with quiet_base [OF q(1)] quiet_base [OF q(2)] have b: "client_base w2" "client_base w3" by blast+
  have "has_close_cb (conns w2 c)" using q(1) assms(3) by (simp add: quiet_def w1_def)
  then have "conn_close (on_connection_closed ccb) c w = schedule_retry (on_cl (\<lambda>k. k\<lparr>connection := None\<rparr>) w3)"
    using assms(2) b(1)
    by (simp add: conn_close_def is_open_def on_connection_closed_def client_base_def w3_def Let_def flip: w1_def w2_def)
  moreover have "idle (on_cl (\<lambda>k. k\<lparr>connection := None\<rparr>) w3)"
    using assms(4-6) b(2) q by (auto simp: idle_def client_base_def quiet_def w1_def is_open_def)
  ultimately show ?thesis
    using q by (intro exI [of _ "on_cl (\<lambda>k. k\<lparr>connection := None\<rparr>) w3"]) (simp add: quiet_def w1_def)
qed

lemma client_close_adv:
  assumes "client_inv n w" "c < cl_next_cid w"
  shows "client_adv n w (conn_close (on_connection_closed ccb) c w)"
proof (cases "is_open c w")
  case True
  note D = client_invD [OF assms(1)]
  have conn: "connection (cl w) = Some c" using D(9) assms(2) True by blast
  then have "cl_state (cl w) = CliConnected" using D(5) by blast
  then have "connecting_fd (cl w) < 0" "connect_channel (cl w) = None" using D(3,4) by auto
  moreover have "\<And>d. d < cl_next_cid w \<Longrightarrow> is_open d w \<Longrightarrow> d = c" using D(9) conn by force
  ultimately show ?thesis
    using close_schedules [OF D(1) True D(8) [OF conn]] client_adv_retry by metis
qed (simp add: conn_close_def is_open_def client_adv_refl [OF assms(1)])

lemma client_send_adv:
  assumes "client_inv n w" "c < cl_next_cid w"
  shows "client_adv n w (conn_send (on_connection_closed ccb) c data w)"
proof -
  have sr: "quiet v (send_rest c rest v)" for rest and v :: "('a, 'x, 'z) client_world_scheme"
  proof (cases "rest = []")
    case False
    define w1 where "w1 = on_conn c (\<lambda>cn. cn\<lparr>output_buffer := buf_append (output_buffer cn) rest\<rparr>) v"
    define w2 where "w2 = (if high_water_mark (conns w1 c) > 0 \<and> has_high_water_cb (conns w1 c)
        \<and> readable_bytes (output_buffer (conns v c)) < high_water_mark (conns w1 c)
        \<and> readable_bytes (output_buffer (conns w1 c)) \<ge> high_water_mark (conns w1 c)
      then on_loop (loop_of c w1) (queue_in_loop (this_thread w1) (Task (HighWater c))) w1 else w1)"
    have "quiet v w1" "quiet w1 w2" by (simp_all add: w1_def w2_def quiet_on_conn)
    then have "quiet v w2" by (rule quiet_trans)
    from this quiet_trans [OF this quiet_channel(2), of c] show ?thesis
      using False unfolding send_rest_def Let_def w1_def [symmetric] w2_def [symmetric] by simp
  qed (simp add: send_rest_def)
  obtain r rest s where l: "send_loop data (sk (conns w c)) = (r, rest, s)" by (metis prod_cases3)
  let ?w1 = "on_conn c (\<lambda>cn. cn\<lparr>sk := s\<rparr>) w"
  have q: "quiet w ?w1" by (simp add: quiet_on_conn)
  then have "client_inv n ?w1" "c < cl_next_cid ?w1" using quiet_inv [OF q assms(1)] assms(2) by simp_all
  then have "client_adv n w (conn_close (on_connection_closed ccb) c ?w1)"
    using client_close_adv client_adv_trans [OF client_adv_quiet [OF q assms(1)]] by blast
  moreover have "client_adv n w (send_rest c rest ?w1)" "client_adv n w (send_rest c data w)"
    using client_adv_quiet [OF quiet_trans [OF q sr] assms(1)] client_adv_quiet [OF sr assms(1)] by blast+
  ultimately show ?thesis using client_adv_refl [OF assms(1)] by (simp add: conn_send_def l Let_def)
qed

lemma client_shutdown_adv:
  assumes "client_inv n w"
  shows "client_adv n w (shutdown_in_loop c w)"
  by (rule client_adv_quiet [OF _ assms])
    (auto simp: shutdown_in_loop_def loop_abort_def intro: quiet_on_conn quiet_on_loop)

subsection \<open>Dialling\<close>

lemma adopt_connection_inv:
  assumes "idle w" "retry_enabled (cl w)"
  shows "client_inv n (adopt_connection ccb fd rs ws w)" "cl_next_cid w \<le> cl_next_cid (adopt_connection ccb fd rs ws w)"
proof -
  let ?c = "cl_next_cid w"
  define w1 where "w1 = on_conn ?c (\<lambda>_. (new_connection (the_loop w) fd (cl_peer (cl w)) rs ws)
      \<lparr>has_message_cb := cl_has_message_cb (cl w), has_close_cb := True\<rparr>) (w\<lparr>cl_next_cid := ?c + 1\<rparr>)"
  define w2 where "w2 = on_cl (\<lambda>k. k\<lparr>cl_state := CliConnected, backoff_ms := kInitialBackoffMs, connection := Some ?c\<rparr>) w1"
  define w3 where "w3 = (if cl_has_connection_cb (cl w2) then ccb ?c w2 else w2)"
  have "client_inv n w2"
    using assms by (auto simp: w2_def w1_def idle_def client_inv_def client_base_def is_open_def in_loop_thread_def
        new_connection_def backoff_ok_def kInitialBackoffMs_def less_Suc_eq)
  moreover have q: "quiet w2 w3" by (simp add: w3_def ccb_quiet)
  have "quiet w3 (conn_start ?c w3)"
    by (auto simp: conn_start_def loop_abort_def tie_def intro: quiet_on_loop quiet_trans [OF quiet_on_conn quiet_channel(1)])
  with q have "quiet w2 (conn_start ?c w3)" by (rule quiet_trans)
  note quiet_inv [OF this] this
  moreover have "adopt_connection ccb fd rs ws w = conn_start ?c w3"
    unfolding adopt_connection_def Let_def w1_def [symmetric] w2_def [symmetric] w3_def [symmetric] by simp
  moreover have "cl_next_cid w2 = Suc (cl_next_cid w)" by (simp add: w2_def w1_def)
  ultimately show "client_inv n (adopt_connection ccb fd rs ws w)" "cl_next_cid w \<le> cl_next_cid (adopt_connection ccb fd rs ws w)"
    by (simp_all add: quiet_def)
qed

text \<open>\<open>handle_connect_writable\<close> from any state in which an attempt is under way.\<close>

lemma handle_connect_writable_inv:
  assumes "client_base w" "0 \<le> connecting_fd (cl w)" "connection (cl w) = None" "\<And>d. d < cl_next_cid w \<Longrightarrow> \<not> is_open d w"
    "retry_enabled (cl w)"
  shows "client_inv n (handle_connect_writable ccb w)" "cl_next_cid w \<le> cl_next_cid (handle_connect_writable ccb w)"
proof -
  let ?fd = "connecting_fd (cl w)"
  define w1 where "w1 = drop_connect_channel (on_cl (\<lambda>k. k\<lparr>connecting_fd := -1\<rparr>) w)"
  have "idle w1 \<and> retry_enabled (cl w1) \<and> cl_next_cid w1 = cl_next_cid w"
  proof (cases "connect_channel (cl w)")
    case None
    then show ?thesis using assms by (simp add: w1_def drop_connect_channel_def idle_def client_base_def)
  next
    case (Some ch)
    define l where "l = snd (detach_channel (this_thread w) ch (loops w (the_loop w)))"
    have "w1 = on_cl (\<lambda>k. k\<lparr>connect_channel := None\<rparr>) (on_loop (the_loop w) (\<lambda>_. l) (on_cl (\<lambda>k. k\<lparr>connecting_fd := -1\<rparr>) w))"
      using Some by (simp add: w1_def drop_connect_channel_def l_def split_beta)
    then show ?thesis
      using assms detach_channel_timers [of "this_thread w" ch "loops w (the_loop w)", folded l_def]
      by (simp add: idle_def client_base_def in_loop_thread_def is_open_def)
  qed
  then have i: "idle w1" "retry_enabled (cl w1)" "cl_next_cid w1 = cl_next_cid w" by simp_all
  obtain err rs ws where h: "handshake w1 = (err, rs, ws)" by (metis prod_cases3)
  have e: "handle_connect_writable ccb w =
      (if err \<noteq> 0 then schedule_retry (on_loop (the_loop w1) (fd_close ?fd) w1) else adopt_connection ccb ?fd rs ws w1)"
    using assms(1,2) by (simp add: handle_connect_writable_def client_base_def h flip: w1_def)
  have "idle (on_loop (the_loop w1) (fd_close ?fd) w1)" using i(1) quiet_idle [OF quiet_drop_fd(1)] by blast
  note sr = schedule_retry_inv [OF this]
  show "client_inv n (handle_connect_writable ccb w)" "cl_next_cid w \<le> cl_next_cid (handle_connect_writable ccb w)"
    using sr adopt_connection_inv [OF i(1,2)] i(3) by (simp_all add: e)
qed

lemma start_connect_inv:
  assumes "idle w"
  shows "client_inv n (start_connect ccb w)" "cl_next_cid w \<le> cl_next_cid (start_connect ccb w)"
    "\<not> retry_enabled (cl w) \<Longrightarrow> start_connect ccb w = on_cl (\<lambda>k. k\<lparr>cl_state := CliDisconnected\<rparr>) w"
proof -
  have il: "in_loop_thread (the_loop w) w" using assms by (simp add: idle_def client_base_def)
  show off: "\<not> retry_enabled (cl w) \<Longrightarrow> start_connect ccb w = on_cl (\<lambda>k. k\<lparr>cl_state := CliDisconnected\<rparr>) w"
    using il by (simp add: start_connect_def)
  have "client_inv n (start_connect ccb w) \<and> cl_next_cid w \<le> cl_next_cid (start_connect ccb w)"
  proof (cases "retry_enabled (cl w)")
    case False
    then show ?thesis using assms by (auto simp: off client_inv_def idle_def client_base_def)
  next
    case True
    let ?w0 = "w\<lparr>dial_script := tl (dial_script w)\<rparr>"
    define d where "d = (case dial_script w of [] \<Rightarrow> SocketErr | d # _ \<Rightarrow> d)"
    have ok: "dial_fd_ok d"
      using assms by (cases "dial_script w") (simp_all add: idle_def client_base_def d_def dial_fd_ok_def)
    have w0: "idle ?w0" "retry_enabled (cl ?w0)" "the_loop ?w0 = the_loop w" "cl_next_cid ?w0 = cl_next_cid w"
      using idle_dial_tl [OF assms] True by simp_all
    define v where "v fd h = on_cl (\<lambda>k. k\<lparr>connecting_fd := fd, cl_state := CliConnecting\<rparr>) ((take_fd fd ?w0)\<lparr>handshake := h\<rparr>)" for fd h
    have v: "client_base (v fd h)" "connecting_fd (cl (v fd h)) = fd" "connection (cl (v fd h)) = None" "connect_channel (cl (v fd h)) = None"
      "cl_state (cl (v fd h)) = CliConnecting" "\<And>c. c < cl_next_cid (v fd h) \<Longrightarrow> \<not> is_open c (v fd h)" "retry_enabled (cl (v fd h))"
      "cl_next_cid (v fd h) = cl_next_cid w" for fd h
      using w0 quiet_idle [OF quiet_drop_fd(2) [where w = ?w0 and i = "the_loop w" and fd = fd]]
      by (auto simp: v_def take_fd_def idle_def client_base_def in_loop_thread_def is_open_def fd_open_def)
    have st: "start_connect ccb w = (case d of SocketErr \<Rightarrow> schedule_retry ?w0
        | NonblockErr fd \<Rightarrow> schedule_retry (on_loop (the_loop w) (fd_close fd) (take_fd fd ?w0))
        | ConnectErr fd \<Rightarrow> schedule_retry (on_loop (the_loop w) (fd_close fd) (take_fd fd ?w0))
        | ConnectNow fd err rs ws \<Rightarrow> handle_connect_writable ccb (v fd (err, rs, ws))
        | InProgress fd err rs ws \<Rightarrow>
            let (ch, l) = enable_writing (this_thread (v fd (err, rs, ws))) (new_channel fd) (loops (v fd (err, rs, ws)) (the_loop w))
            in on_cl (\<lambda>k. k\<lparr>connect_channel := Some ch\<rparr>) (on_loop (the_loop w) (\<lambda>_. l) (v fd (err, rs, ws))))"
      using il True by (simp add: start_connect_def d_def [symmetric] v_def take_fd_def Let_def cong: dial.case_cong)
    show ?thesis
    proof (cases d)
      case (InProgress fd err rs ws)
      let ?v = "v fd (err, rs, ws)"
      obtain ch l where u: "enable_writing (this_thread ?v) (new_channel fd) (loops ?v (the_loop w)) = (ch, l)" by fastforce
      have "owner_tid l = owner_tid (loops ?v (the_loop w)) \<and> timer_queue l = timer_queue (loops ?v (the_loop w))"
        using channel_op_timers(1) by (metis u enable_writing_def snd_conv)
      then show ?thesis
        using v u ok True
        by (auto simp: st InProgress client_inv_def client_base_def in_loop_thread_def is_open_def dial_fd_ok_def v_def take_fd_def)
    next
      case (ConnectNow fd err rs ws)
      then show ?thesis using handle_connect_writable_inv [of "v fd (err, rs, ws)"] v ok
        by (simp add: st dial_fd_ok_def)
    qed (use schedule_retry_inv [OF w0(1)] schedule_retry_inv [OF idle_take_fd [OF w0(1)]] w0(4) st in simp_all)
  qed
  then show "client_inv n (start_connect ccb w)" "cl_next_cid w \<le> cl_next_cid (start_connect ccb w)" by simp_all
qed

lemma connect_in_loop_inv:
  assumes "client_inv n w"
  shows "client_inv n (connect_in_loop ccb w)" "cl_next_cid w \<le> cl_next_cid (connect_in_loop ccb w)"
proof -
  let ?w1 = "on_cl (\<lambda>k. k\<lparr>retry_enabled := True, backoff_ms := kInitialBackoffMs\<rparr>) w"
  have "idle ?w1" if "cl_state (cl w) \<noteq> CliConnecting" "cl_state (cl w) \<noteq> CliConnected"
    using inv_idle [OF assms] that
    by (cases "cl_state (cl w)") (simp_all add: idle_def client_base_def backoff_ok_def kInitialBackoffMs_def)
  then show "client_inv n (connect_in_loop ccb w)" "cl_next_cid w \<le> cl_next_cid (connect_in_loop ccb w)"
    using start_connect_inv(1,2) [of ?w1] assms client_invD(2) [OF assms] by (auto simp: connect_in_loop_def)
qed

lemma handshake_adv:
  assumes "client_inv n w" "connect_channel (cl w) \<noteq> None"
  shows "client_adv n w (handle_connect_writable ccb w)"
proof -
  note D = client_invD [OF assms(1)]
  have st: "cl_state (cl w) = CliConnecting" using D(4) assms(2) by blast
  then have "0 \<le> connecting_fd (cl w)" "connection (cl w) = None" "retry_enabled (cl w)" using D(3,5,10) by auto
  moreover have "\<not> is_open d w" if "d < cl_next_cid w" for d using D(9) [OF that] \<open>connection (cl w) = None\<close> by auto
  ultimately show ?thesis using handle_connect_writable_inv [OF D(1)] by (simp add: client_adv_def)
qed

lemma retry_fired_adv:
  assumes "client_inv (Suc n) w"
  shows "client_adv n w (retry_fired ccb w)"
proof (cases "cl_state (cl w) = CliRetrying")
  case True
  have "idle w" by (rule inv_idle [OF assms]) (simp add: True)
  moreover have "retry_enabled (cl w)" by (simp add: client_invD(10) [OF assms] True)
  ultimately show ?thesis using start_connect_inv(1,2) [OF \<open>idle w\<close>] by (simp add: client_adv_def retry_fired_def True)
next
  case False
  then have "client_inv n w" by (intro client_inv_frame [OF assms client_invD(1) [OF assms]]) simp_all
  from client_adv_refl [OF this] show ?thesis using False by (simp add: retry_fired_def)
qed

text \<open>\<open>disconnect\<close> closes whatever there is and turns reconnecting off.\<close>

lemma disconnect_in_loop_effect:
  assumes "client_inv n w" "w' = disconnect_in_loop ccb w"
  shows "client_inv n w'" "\<not> retry_enabled (cl w')" "dial_script w' = dial_script w" "cl_next_cid w' = cl_next_cid w"
proof -
  note D = client_invD [OF assms(1)]
  let ?w1 = "on_cl (\<lambda>k. k\<lparr>retry_enabled := False\<rparr>) w"
  have b: "client_base ?w1" using D(1) by (simp add: client_base_def)
  have "client_inv n w' \<and> \<not> retry_enabled (cl w') \<and> dial_script w' = dial_script w \<and> cl_next_cid w' = cl_next_cid w"
  proof (cases "cl_state (cl w)")
    case CliConnected
    then obtain c where c: "connection (cl w) = Some c" using D(5) by blast
    have "connecting_fd (cl ?w1) < 0" "connect_channel (cl ?w1) = None" using D(3,4) CliConnected by auto
    moreover have "\<And>d. d < cl_next_cid ?w1 \<Longrightarrow> is_open d ?w1 \<Longrightarrow> d = c" using D(9) c by force
    ultimately obtain v where v: "conn_close (on_connection_closed ccb) c ?w1 = schedule_retry v" "idle v" "dial_script v = dial_script w"
      "cl_next_cid v = cl_next_cid w" "\<not> retry_enabled (cl v)"
      using close_schedules [OF b, of c] D(7,8) [OF c] by auto
    have "w' = schedule_retry v" using CliConnected c D(2) v(1) by (simp add: assms(2) disconnect_in_loop_def)
    then show ?thesis using schedule_retry_inv [OF v(2)] v by simp
  next
    case CliConnecting
    then obtain ch where ch: "connect_channel (cl w) = Some ch" using D(4) by blast
    define l where "l = snd (detach_channel (this_thread w) ch (loops w (the_loop w)))"
    have "w' = on_cl (\<lambda>k. k\<lparr>cl_state := CliDisconnected\<rparr>) (close_connecting_fd
        (on_cl (\<lambda>k. k\<lparr>connect_channel := None\<rparr>) (on_loop (the_loop w) (\<lambda>_. l) ?w1)))"
      using CliConnecting D(2) ch by (simp add: assms(2) disconnect_in_loop_def drop_connect_channel_def l_def split_beta)
    moreover have "connection (cl w) = None" "0 \<le> connecting_fd (cl w)" using D(3,5) CliConnecting by auto
    ultimately show ?thesis
      using D(1,9) detach_channel_timers [of "this_thread w" ch "loops w (the_loop w)", folded l_def]
      by (auto simp: close_connecting_fd_def client_inv_def client_base_def in_loop_thread_def is_open_def fd_close_def)
  next
    case CliRetrying
    then have "idle w" using inv_idle [OF assms(1)] by simp
    then show ?thesis using CliRetrying D(2) by (auto simp: assms(2) disconnect_in_loop_def client_inv_def idle_def client_base_def)
  next
    case CliDisconnected
    then have "idle w" using inv_idle [OF assms(1)] by simp
    then show ?thesis using CliDisconnected D(2) by (auto simp: assms(2) disconnect_in_loop_def client_inv_def idle_def client_base_def)
  qed
  then show "client_inv n w'" "\<not> retry_enabled (cl w')" "dial_script w' = dial_script w" "cl_next_cid w' = cl_next_cid w" by simp_all
qed

end

end
