(* ===== verification/Tcp_Client_Props.thy ===== *)
theory Tcp_Client_Props
  imports Tcp_Client
begin

text \<open>
  What the client promises, for every interleaving of user calls, socket events, expired timers and
  other work on its loop: its states mean what the header says, \<open>disconnect\<close> is final, and the backoff
  sequence.
\<close>

section \<open>Users of the client\<close>

text \<open>
  The callbacks of a user: none of them dials; each keeps the invariant of the client. They may send,
  half-close or close the connection they are called with.
\<close>

locale client_app = client_ccb ccb for ccb :: "nat \<Rightarrow> ('a, 'x, 'z) client_world_scheme \<Rightarrow> ('a, 'x, 'z) client_world_scheme" +
  fixes mcb hwcb wccb :: "nat \<Rightarrow> ('a, 'x, 'z) client_world_scheme \<Rightarrow> ('a, 'x, 'z) client_world_scheme"
  assumes mcb_client: "client_inv n w \<Longrightarrow> client_adv n w (mcb c w)"
    and hwcb_client: "client_inv n w \<Longrightarrow> client_adv n w (hwcb c w)"
    and wccb_client: "client_inv n w \<Longrightarrow> client_adv n w (wccb c w)"
begin

abbreviation cbs :: "('a, 'x, 'z) client_world_scheme conn_cbs" where
  "cbs \<equiv> client_cbs mcb ccb hwcb wccb"

lemma client_adv_next: "client_adv n w w' \<Longrightarrow> c < cl_next_cid w \<Longrightarrow> c < cl_next_cid w'"
  by (simp add: client_adv_def)

lemma client_adv_inv: "client_adv n w w' \<Longrightarrow> client_inv n w'"
  by (simp add: client_adv_def)

lemma close_after:
  assumes "client_adv n w w1" "c < cl_next_cid w"
  shows "client_adv n w (conn_close (on_connection_closed ccb) c w1)"
  using client_adv_trans [OF assms(1) client_close_adv [OF client_adv_inv [OF assms(1)] client_adv_next [OF assms]]] .

lemma client_handle_read_adv:
  assumes "client_inv n w" "c < cl_next_cid w"
  shows "client_adv n w (conn_handle_read cbs c w)"
proof -
  obtain r b s where l: "read_loop (input_buffer (conns w c)) (sk (conns w c)) = (r, b, s)" by (metis prod_cases3)
  let ?w1 = "on_conn c (\<lambda>cn. cn\<lparr>input_buffer := b, sk := s\<rparr>) w"
  have a: "client_adv n w ?w1" by (rule client_adv_quiet [OF quiet_on_conn assms(1)]) simp_all
  have "client_adv n ?w1 (deliver cbs c ?w1)"
    using mcb_client [OF client_adv_inv [OF a], of c] client_adv_refl [OF client_adv_inv [OF a]]
    by (simp add: deliver_def client_cbs_def)
  with a have d: "client_adv n w (deliver cbs c ?w1)" by (rule client_adv_trans)
  show ?thesis
    using d close_after [OF d assms(2)] close_after [OF a assms(2)]
    by (cases r) (simp_all add: conn_handle_read_def l client_cbs_def Let_def)
qed

lemma client_handle_write_adv:
  assumes "client_inv n w" "c < cl_next_cid w"
  shows "client_adv n w (conn_handle_write cbs c w)"
proof (cases "buf_empty (output_buffer (conns w c))")
  case True
  then show ?thesis
    using client_adv_quiet [OF quiet_channel(3) assms(1), of c] client_adv_refl [OF assms(1)] by (simp add: conn_handle_write_def)
next
  case False
  obtain r b s where l: "write_loop (output_buffer (conns w c)) (sk (conns w c)) = (r, b, s)" by (metis prod_cases3)
  define w1 where "w1 = on_conn c (\<lambda>cn. cn\<lparr>output_buffer := b, sk := s\<rparr>) w"
  define w2 where "w2 = (if is_writing (cn_channel (conns w1 c)) then with_channel c disable_writing w1 else w1)"
  define w3 where "w3 = (if shutdown_pending (conns w2 c)
      then on_conn c (\<lambda>cn. cn\<lparr>shutdown_pending := False, sk := sys_shutdown_wr (sk cn)\<rparr>) w2 else w2)"
  define w4 where "w4 = (if has_write_complete_cb (conns w3 c)
      then on_loop (loop_of c w3) (queue_in_loop (this_thread w3) (Task (WriteComplete c))) w3 else w3)"
  have q: "quiet w w1" "quiet w1 w2" "quiet w2 w3" "quiet w3 w4"
    by (simp_all add: w1_def w2_def w3_def w4_def quiet_on_conn)
  then have "quiet w w4" by (blast intro: quiet_trans)
  note a1 = client_adv_quiet [OF q(1) assms(1)] and a4 = client_adv_quiet [OF this assms(1)]
  have "conn_handle_write cbs c w = (case r of Drained \<Rightarrow> w1 | IoError \<Rightarrow> conn_close (on_connection_closed ccb) c w1 | EndOfStream \<Rightarrow> w4)"
    using False unfolding conn_handle_write_def l Let_def prod.case w1_def [symmetric] w2_def [symmetric] w3_def [symmetric] w4_def [symmetric]
    by (cases r) (simp_all add: client_cbs_def)
  then show ?thesis using a1 a4 close_after [OF a1 assms(2)] by (cases r) simp_all
qed

lemma client_channel_cb_adv:
  "client_inv n w \<Longrightarrow> c < cl_next_cid w \<Longrightarrow> conn_channel_cbs cbs c k = Some f \<Longrightarrow> client_adv n w (f w)"
  using client_close_adv [of n w c]
  by (cases k) (auto simp: client_cbs_def intro: client_handle_read_adv [unfolded client_cbs_def] client_handle_write_adv [unfolded client_cbs_def])

lemma client_conn_event_adv:
  assumes "client_inv n w" "c < cl_next_cid w"
  shows "client_adv n w (conn_event cbs c ev w)"
proof -
  have "client_adv n w (fold (\<lambda>k. case conn_channel_cbs cbs c k of None \<Rightarrow> id | Some f \<Rightarrow> f) ks w)" for ks
    using assms
  proof (induction ks arbitrary: w)
    case (Cons k ks)
    let ?w1 = "(case conn_channel_cbs cbs c k of None \<Rightarrow> id | Some f \<Rightarrow> f) w"
    have a: "client_adv n w ?w1"
      using client_channel_cb_adv [OF Cons.prems] client_adv_refl [OF Cons.prems(1)] by (auto split: option.split)
    from client_adv_trans [OF a Cons.IH [OF client_adv_inv [OF a] client_adv_next [OF a Cons.prems(2)]]] show ?case by simp
  qed (simp add: client_adv_refl)
  then show ?thesis
    using client_adv_refl [OF assms(1)] by (simp add: conn_event_def handle_event_def handle_event_with_guard_def)
qed

lemma client_conn_task_adv:
  assumes "client_inv n w" "c < cl_next_cid w"
  shows "client_adv n w (run_conn_task cbs app (ShutdownInLoop c) w)" "client_adv n w (run_conn_task cbs app (HighWater c) w)"
    "client_adv n w (run_conn_task cbs app (WriteComplete c) w)" "client_adv n w (run_conn_task cbs app (ForceClose c) w)"
  using client_shutdown_adv [OF assms(1)] hwcb_client [OF assms(1)] wccb_client [OF assms(1)] client_close_adv [OF assms]
    client_adv_refl [OF assms(1)] by (simp_all add: client_cbs_def)

end

text \<open>
  Users whose callbacks also keep the contract of a connection get everything \<open>Connection_Props\<close>
  promises.
\<close>

locale client_conn = client_ccb ccb for ccb :: "nat \<Rightarrow> ('a, 'x, 'z) client_world_scheme \<Rightarrow> ('a, 'x, 'z) client_world_scheme" +
  assumes ccb_conn: "conn_ok c w \<Longrightarrow> conn_adv c w (ccb c w)"
begin

lemma on_connection_closed_adv:
  assumes "conn_ok c w"
  shows "conn_adv c w (on_connection_closed ccb c w)"
proof -
  define w1 where "w1 = (if cl_has_connection_cb (cl w) then ccb c w else w)"
  define w2 where "w2 = on_cl (\<lambda>k. k\<lparr>connection := None\<rparr>) w1"
  have a1: "conn_adv c w w1" using ccb_conn [OF assms] conn_adv_refl [OF assms] by (simp add: w1_def)
  have a2: "conn_adv c w w2" unfolding w2_def using a1 conn_adv_on_cl [OF conn_adv_ok [OF a1]] by (rule conn_adv_trans)
  have ab: "conn_adv c w (loop_abort i w)" for i
    unfolding loop_abort_def by (rule conn_adv_on_loop [OF assms]) simp_all
  show ?thesis
    using ab conn_adv_trans [OF a2 conn_adv_schedule_retry [OF conn_adv_ok [OF a2]]]
    unfolding on_connection_closed_def Let_def w1_def [symmetric] w2_def [symmetric] by simp
qed

end

sublocale client_conn \<subseteq> conn_closer "on_connection_closed ccb"
  by unfold_locales (rule on_connection_closed_adv)

locale client_user = client_app ccb mcb hwcb wccb + client_conn ccb
  for ccb mcb hwcb wccb :: "nat \<Rightarrow> ('a, 'x, 'z) client_world_scheme \<Rightarrow> ('a, 'x, 'z) client_world_scheme" +
  assumes mcb_conn: "conn_ok c w \<Longrightarrow> conn_adv c w (mcb c w)"
    and hwcb_conn: "conn_ok c w \<Longrightarrow> conn_adv c w (hwcb c w)"
    and wccb_conn: "conn_ok c w \<Longrightarrow> conn_adv c w (wccb c w)"

sublocale client_user \<subseteq> conn_callbacks "client_cbs mcb ccb hwcb wccb"
  by unfold_locales (simp_all add: client_cbs_def on_connection_closed_adv mcb_conn hwcb_conn wccb_conn)

section \<open>Histories\<close>

text \<open>
  One event of the life of a client, except \<open>connect\<close>. A state is a world and the number of retry
  timers that have been taken out of the queue but not yet run. \<open>EvOther\<close> is any work on the loop that
  does not concern the client.
\<close>

inductive client_event :: "(nat \<Rightarrow> ('a, 'x, 'z) client_world_scheme \<Rightarrow> ('a, 'x, 'z) client_world_scheme)
    \<Rightarrow> (nat \<Rightarrow> ('a, 'x, 'z) client_world_scheme \<Rightarrow> ('a, 'x, 'z) client_world_scheme)
    \<Rightarrow> (nat \<Rightarrow> ('a, 'x, 'z) client_world_scheme \<Rightarrow> ('a, 'x, 'z) client_world_scheme)
    \<Rightarrow> (nat \<Rightarrow> ('a, 'x, 'z) client_world_scheme \<Rightarrow> ('a, 'x, 'z) client_world_scheme)
    \<Rightarrow> ('a, 'x, 'z) client_world_scheme \<times> nat \<Rightarrow> ('a, 'x, 'z) client_world_scheme \<times> nat \<Rightarrow> bool"
  for ccb mcb hwcb wccb where
  EvDisconnect: "client_event ccb mcb hwcb wccb (w, n) (disconnect_in_loop ccb w, n)"
| EvHandshake: "connect_channel (cl w) \<noteq> None \<Longrightarrow> client_event ccb mcb hwcb wccb (w, n) (handle_connect_writable ccb w, n)"
| EvConn: "c < cl_next_cid w \<Longrightarrow>
    client_event ccb mcb hwcb wccb (w, n) (conn_event (client_cbs mcb ccb hwcb wccb) c ev w, n)"
| EvConnTask: "c < cl_next_cid w \<Longrightarrow> t \<in> {ShutdownInLoop c, HighWater c, WriteComplete c, ForceClose c} \<Longrightarrow>
    client_event ccb mcb hwcb wccb (w, n) (run_conn_task (client_cbs mcb ccb hwcb wccb) app t w, n)"
| EvSend: "c < cl_next_cid w \<Longrightarrow>
    client_event ccb mcb hwcb wccb (w, n) (conn_send (on_connection_closed ccb) c data w, n)"
| EvExpire: "expire (steady_now w) (timer_queue (loops w (the_loop w))) = (x, q) \<Longrightarrow>
    client_event ccb mcb hwcb wccb (w, n) (on_loop (the_loop w) (\<lambda>l. l\<lparr>timer_queue := q\<rparr>) w, n + length (filter is_retry x))"
| EvRetry: "client_event ccb mcb hwcb wccb (w, Suc n) (retry_fired ccb w, n)"
| EvOther: "quiet w w' \<Longrightarrow> client_event ccb mcb hwcb wccb (w, n) (w', n)"

definition client_step :: "(nat \<Rightarrow> ('a, 'x, 'z) client_world_scheme \<Rightarrow> ('a, 'x, 'z) client_world_scheme)
    \<Rightarrow> (nat \<Rightarrow> ('a, 'x, 'z) client_world_scheme \<Rightarrow> ('a, 'x, 'z) client_world_scheme)
    \<Rightarrow> (nat \<Rightarrow> ('a, 'x, 'z) client_world_scheme \<Rightarrow> ('a, 'x, 'z) client_world_scheme)
    \<Rightarrow> (nat \<Rightarrow> ('a, 'x, 'z) client_world_scheme \<Rightarrow> ('a, 'x, 'z) client_world_scheme)
    \<Rightarrow> ('a, 'x, 'z) client_world_scheme \<times> nat \<Rightarrow> ('a, 'x, 'z) client_world_scheme \<times> nat \<Rightarrow> bool" where
  "client_step ccb mcb hwcb wccb s t \<longleftrightarrow> client_event ccb mcb hwcb wccb s t \<or> t = (connect_in_loop ccb (fst s), snd s)"

text \<open>A fresh client on a loop of the calling thread.\<close>

definition client_init :: "('a, 'x, 'z) client_world_scheme \<times> nat \<Rightarrow> bool" where
  "client_init s \<longleftrightarrow> (case s of (w, n) \<Rightarrow> n = 0 \<and> in_loop_thread (the_loop w) w \<and> tq_inv (timer_queue (loops w (the_loop w)))
     \<and> list_all dial_fd_ok (dial_script w) \<and> cl_next_cid w = 0
     \<and> (\<exists>i peer h m. cl w = (new_client i peer)\<lparr>cl_has_connection_cb := h, cl_has_message_cb := m\<rparr>))"

lemma client_init_inv: "client_init (w, n) \<Longrightarrow> client_inv n w"
  by (auto simp: client_init_def client_inv_def client_base_def new_client_def backoff_ok_def)

lemma expire_adv:
  assumes "client_inv n w" "expire (steady_now w) (timer_queue (loops w (the_loop w))) = (x, q)"
    "w' = on_loop (the_loop w) (\<lambda>l. l\<lparr>timer_queue := q\<rparr>) w" "m = n + length (filter is_retry x)"
  shows "client_inv m w'" "cl w' = cl w" "cl_next_cid w' = cl_next_cid w" "dial_script w' = dial_script w"
proof -
  note D = client_invD [OF assms(1)]
  have tq: "tq_inv (timer_queue (loops w (the_loop w)))" using D(1) by (simp add: client_base_def)
  note e = expire_spec [OF tq assms(2)]
  have b: "client_base w'" using D(1) e(4) by (simp add: client_base_def in_loop_thread_def assms(3))
  have "0 < m \<or> retry_timers w' \<noteq> []" if live: "0 < n \<or> retry_timers w \<noteq> []"
  proof (cases "0 < n")
    case False
    then obtain y where "y \<in> set (retry_timers w)" using live hd_in_set [of "retry_timers w"] by blast
    then have y: "y \<in> live (timer_queue (loops w (the_loop w)))" "is_retry y" by (simp_all add: retry_timers_def live_def)
    then have "y \<in> set x \<or> y \<in> live q" using e(1,2) by auto
    then have "y \<in> set (filter is_retry x) \<or> y \<in> set (retry_timers w')"
      using y(2) by (auto simp: live_def retry_timers_def assms(3))
    then show ?thesis using length_pos_if_in_set [of y "filter is_retry x"] by (auto simp: assms(4))
  qed (simp add: assms(4))
  then show "client_inv m w'"
    by (intro client_inv_frame [OF assms(1) b]) (simp_all add: assms(3) is_open_def)
  show "cl w' = cl w" "cl_next_cid w' = cl_next_cid w" "dial_script w' = dial_script w" by (simp_all add: assms(3))
qed

context client_app
begin

lemma event_inv:
  assumes "client_event ccb mcb hwcb wccb (w, n) (w', n')" "client_inv n w"
  shows "client_inv n' w' \<and> (\<not> retry_enabled (cl w) \<longrightarrow> \<not> retry_enabled (cl w') \<and> dial_script w' = dial_script w)"
  using assms(1)
proof cases
  case EvDisconnect
  then show ?thesis using disconnect_in_loop_effect [OF assms(2)] by blast
next
  case EvHandshake
  then show ?thesis using handshake_adv [OF assms(2)] unfolding client_adv_def by blast
next
  case (EvConn c ev)
  then show ?thesis using client_conn_event_adv [OF assms(2)] unfolding client_adv_def by blast
next
  case (EvConnTask c t app)
  then show ?thesis using client_conn_task_adv [OF assms(2), of c app] unfolding client_adv_def by blast
next
  case (EvSend c data)
  then show ?thesis using client_send_adv [OF assms(2)] unfolding client_adv_def by blast
next
  case (EvExpire x q)
  note e = expire_adv [OF assms(2) EvExpire(3) EvExpire(1,2)]
  show ?thesis using e(1) by (simp add: e(2,4))
next
  case EvRetry
  then show ?thesis using retry_fired_adv assms(2) unfolding client_adv_def by blast
next
  case EvOther
  then show ?thesis using client_adv_quiet assms(2) unfolding client_adv_def by blast
qed

lemma step_inv:
  assumes "client_step ccb mcb hwcb wccb (w, n) (w', n')" "client_inv n w"
  shows "client_inv n' w'"
  using assms event_inv connect_in_loop_inv(1) [OF assms(2)] unfolding client_step_def by auto

lemma reach_client_inv:
  assumes "reach client_init (client_step ccb mcb hwcb wccb) (w, n)"
  shows "client_inv n w"
proof -
  have "invariant_system client_init (client_step ccb mcb hwcb wccb) (\<lambda>(w, n). client_inv n w)"
    by unfold_locales (use client_init_inv step_inv in auto)
  from invariant_system.reach_inv [OF this assms] show ?thesis by simp
qed

lemma events_keep_off:
  assumes "(client_event ccb mcb hwcb wccb)\<^sup>*\<^sup>* s t" "client_inv (snd s) (fst s)" "\<not> retry_enabled (cl (fst s))"
  shows "client_inv (snd t) (fst t) \<and> \<not> retry_enabled (cl (fst t)) \<and> dial_script (fst t) = dial_script (fst s)"
  using assms
proof (induction rule: rtranclp_induct)
  case (step t u)
  obtain w n w' n' where "t = (w, n)" "u = (w', n')" by fastforce
  then show ?case using step event_inv [of w n w' n'] by auto
qed simp

end

section \<open>Properties\<close>


text \<open>A user without callbacks, and a client of it on loop 0.\<close>

lemma client_app_none: "client_app (\<lambda>_ w. w) (\<lambda>_ w. w) (\<lambda>_ w. w) (\<lambda>_ w. w)"
  by unfold_locales (simp_all add: client_adv_refl)

definition sample_client :: "dial list \<Rightarrow> (nat, nat) client_world" where
  "sample_client ds = \<lparr>loops = (\<lambda>i. new_event_loop i 5 6 []), this_thread = 0, steady_now = 100,
     conns = (\<lambda>_. new_connection 0 0 [] [] []), cl = new_client 0 ''10.0.0.1:80'', dial_script = ds,
     handshake = (0, [], []), cl_next_cid = 0\<rparr>"

lemma sample_loop [simp]: "owner_tid (new_event_loop i 5 6 []) = i" "timer_queue (new_event_loop i 5 6 []) = new_timer_queue"
  by (simp_all add: new_event_loop_def channel_ops update_channel_def epoll_add_def ctl_fault_def new_channel_def Let_def)

lemma sample_client_init: "list_all dial_fd_ok ds \<Longrightarrow> client_init (sample_client ds, 0)"
  by (auto simp: client_init_def sample_client_def in_loop_thread_def new_client_def)

lemma sample_client_inv: "list_all dial_fd_ok ds \<Longrightarrow> client_inv n (sample_client ds)"
  by (simp add: client_inv_def client_base_def sample_client_def in_loop_thread_def new_client_def backoff_ok_def)


text \<open>
  C27. \<open>disconnect\<close> is final: afterwards the client is disconnected, has neither a connection nor a
  connection attempt, and however many retry timers are still stored and fire, and whatever else
  happens short of a new \<open>connect\<close>, it stays so and asks the kernel for no socket.
\<close>

theorem disconnect_is_final:
  assumes "client_app ccb mcb hwcb wccb" "client_inv n w"
    "(client_event ccb mcb hwcb wccb)\<^sup>*\<^sup>* (disconnect_in_loop ccb w, n) (w', n')"
  shows "cl_state (cl w') = CliDisconnected \<and> dial_script w' = dial_script w \<and> connection (cl w') = None
    \<and> connecting_fd (cl w') < 0 \<and> connect_channel (cl w') = None \<and> (\<forall>c < cl_next_cid w'. \<not> is_open c w')"
proof -
  note e = client_ccb.disconnect_in_loop_effect [OF client_app.axioms(1) [OF assms(1)] assms(2) refl]
  have k: "client_inv n' w'" "\<not> retry_enabled (cl w')" "dial_script w' = dial_script w"
    using client_app.events_keep_off [OF assms(1,3)] e by simp_all
  then have "cl_state (cl w') = CliDisconnected" using client_invD(10) by blast
  then have "idle w'" using inv_idle [OF k(1)] by simp
  with k(3) \<open>cl_state (cl w') = CliDisconnected\<close> show ?thesis by (simp add: idle_def)
qed

theorem disconnect_is_final_witness:
  "cl_state (cl (retry_fired (\<lambda>_ w. w) (disconnect_in_loop (\<lambda>_ w. w) (sample_client [ConnectErr 7])))) = CliDisconnected"
proof -
  let ?v = "sample_client [ConnectErr 7]"
  have i: "client_inv 1 ?v"
    by (rule sample_client_inv) (simp add: dial_fd_ok_def)
  have "client_event (\<lambda>_ w. w) (\<lambda>_ w. w) (\<lambda>_ w. w) (\<lambda>_ w. w) (disconnect_in_loop (\<lambda>_ w. w) ?v, Suc 0)
      (retry_fired (\<lambda>_ w. w) (disconnect_in_loop (\<lambda>_ w. w) ?v), 0)"
    by (rule EvRetry)
  then have "(client_event (\<lambda>_ w. w) (\<lambda>_ w. w) (\<lambda>_ w. w) (\<lambda>_ w. w))\<^sup>*\<^sup>* (disconnect_in_loop (\<lambda>_ w. w) ?v, 1)
      (retry_fired (\<lambda>_ w. w) (disconnect_in_loop (\<lambda>_ w. w) ?v), 0)" by simp
  from disconnect_is_final [OF client_app_none i this] show ?thesis by blast
qed

subsection \<open>Failed attempts\<close>

definition fails :: "dial \<Rightarrow> bool" where
  "fails d \<longleftrightarrow> (case d of SocketErr \<Rightarrow> True | NonblockErr _ \<Rightarrow> True | ConnectErr _ \<Rightarrow> True | _ \<Rightarrow> False)"

lemma start_connect_fails:
  assumes "idle w" "retry_enabled (cl w)" "dial_script w = d # ds" "fails d"
  shows "\<exists>v. start_connect ccb w = schedule_retry v \<and> idle v \<and> cl v = cl w \<and> dial_script v = ds \<and> steady_now v = steady_now w
    \<and> timer_queue (loops v (the_loop w)) = timer_queue (loops w (the_loop w))"
proof -
  let ?v = "w\<lparr>dial_script := ds\<rparr>"
  have i: "idle ?v" using idle_dial_tl [OF assms(1)] assms(3) by simp
  have il: "in_loop_thread (the_loop w) w" using assms(1) by (simp add: idle_def client_base_def)
  let ?u = "\<lambda>fd. on_loop (the_loop w) (fd_close fd) (take_fd fd ?v)"
  have u: "idle (?u fd)" "cl (?u fd) = cl w" "dial_script (?u fd) = ds" "steady_now (?u fd) = steady_now w"
    "timer_queue (loops (?u fd) (the_loop w)) = timer_queue (loops w (the_loop w))" for fd
    using idle_take_fd [OF i] by (simp_all add: take_fd_def fd_open_def fd_close_def del: on_loop_compose)
  show ?thesis
  proof (cases d)
    case SocketErr
    then show ?thesis using assms(2-4) i il by (intro exI [of _ ?v]) (simp add: start_connect_def)
  next
    case (NonblockErr fd)
    then show ?thesis using assms(2-4) u [of fd] il by (intro exI [of _ "?u fd"]) (simp add: start_connect_def)
  next
    case (ConnectErr fd)
    then show ?thesis using assms(2-4) u [of fd] il by (intro exI [of _ "?u fd"]) (simp add: start_connect_def)
  qed (use assms(4) in \<open>simp_all add: fails_def\<close>)
qed

lemma failed_attempt:
  assumes "idle w" "retry_enabled (cl w)" "dial_script w = d # ds" "fails d" "w' = start_connect ccb w"
    "b = (if backoff_ms (cl w) = 0 then kInitialBackoffMs else backoff_ms (cl w))"
  shows "cl w' = (cl w)\<lparr>cl_state := CliRetrying, backoff_ms := min (b * 2) kMaxBackoffMs\<rparr>" "dial_script w' = ds"
    "length (retry_timers w') = Suc (length (retry_timers w))" "client_inv n w'"
    "\<exists>e\<in>set (retry_timers w'). expiration e = steady_now w + b * 1000000"
proof -
  obtain v where v: "w' = schedule_retry v" "idle v" "cl v = cl w" "dial_script v = ds" "steady_now v = steady_now w"
    "timer_queue (loops v (the_loop w)) = timer_queue (loops w (the_loop w))"
    using start_connect_fails [OF assms(1-4)] assms(5) by metis
  define e :: "'a client_task conn_task task entry" where "e = \<lparr>expiration = steady_now w + b * 1000000,
      timer_id = next_id (timer_queue (loops w (the_loop w))), timer_cb = Some (Task (App RetryTimer))\<rparr>"
  have bv: "client_base v" "retry_enabled (cl v)" using v(2,3) assms(2) by (simp_all add: idle_def)
  obtain q where q: "w' = on_cl (\<lambda>k. k\<lparr>cl_state := CliRetrying, backoff_ms := min (b * 2) kMaxBackoffMs\<rparr>)
        (on_loop (the_loop v) (\<lambda>l. l\<lparr>timer_queue := q\<rparr>) v)" "timers q = set_insert e (timers (timer_queue (loops w (the_loop w))))"
  proof -
    have "b = (if backoff_ms (cl v) = 0 then kInitialBackoffMs else backoff_ms (cl v))"
      "e = \<lparr>expiration = steady_now v + b * 1000000, timer_id = next_id (timer_queue (loops v (the_loop v))),
            timer_cb = Some (Task (App RetryTimer))\<rparr>"
      by (simp_all add: assms(6) v(3,5,6) e_def)
    from schedule_retry_effect [OF bv this] show ?thesis using that by (auto simp: v(1,3,6))
  qed
  have "entry_key e \<notin> entry_key ` set (timers (timer_queue (loops w (the_loop w))))"
    using assms(1) by (force simp: e_def idle_def client_base_def tq_inv_def)
  note ins = set_insert_count [OF this, of is_retry] set_insert_new [OF this]
  show "length (retry_timers w') = Suc (length (retry_timers w))"
    using ins(1) by (simp add: q retry_timers_def v(3) is_retry_def e_def)
  show "\<exists>e\<in>set (retry_timers w'). expiration e = steady_now w + b * 1000000"
    using ins(2) by (intro bexI [of _ e]) (simp_all add: q retry_timers_def v(3) is_retry_def e_def)
  show "cl w' = (cl w)\<lparr>cl_state := CliRetrying, backoff_ms := min (b * 2) kMaxBackoffMs\<rparr>" "dial_script w' = ds"
    by (simp_all add: q v)
  show "client_inv n w'" using schedule_retry_inv(1) [OF v(2)] by (simp add: v(1))
qed

text \<open>The timer descriptor is read at time \<open>t\<close>: expired timers leave the queue, and the retry lambda runs.\<close>

definition retry_at :: "(nat \<Rightarrow> ('a, 'x, 'z) client_world_scheme \<Rightarrow> ('a, 'x, 'z) client_world_scheme) \<Rightarrow> int
    \<Rightarrow> ('a, 'x, 'z) client_world_scheme \<Rightarrow> ('a, 'x, 'z) client_world_scheme" where
  "retry_at ccb t w =
     retry_fired ccb (on_loop (the_loop w) (\<lambda>l. l\<lparr>timer_queue := snd (expire t (timer_queue l))\<rparr>) (w\<lparr>steady_now := t\<rparr>))"

lemma retry_at_fails:
  assumes "client_inv 1 w" "cl_state (cl w) = CliRetrying" "dial_script w = d # ds" "fails d" "w' = retry_at ccb t w"
    "backoff_ms (cl w) \<noteq> 0"
  shows "cl_state (cl w') = CliRetrying" "backoff_ms (cl w') = min (backoff_ms (cl w) * 2) kMaxBackoffMs" "dial_script w' = ds"
    "client_inv 1 w'" "\<exists>e\<in>set (retry_timers w'). expiration e = t + backoff_ms (cl w) * 1000000"
proof -
  define v where "v = on_loop (the_loop w) (\<lambda>l. l\<lparr>timer_queue := snd (expire t (timer_queue l))\<rparr>) (w\<lparr>steady_now := t\<rparr>)"
  have "tq_inv (timer_queue (loops w (the_loop w)))" using client_invD(1) [OF assms(1)] by (simp add: client_base_def)
  then have tq: "tq_inv (snd (expire t (timer_queue (loops w (the_loop w)))))" by (metis expire_spec(4) prod.collapse)
  have "idle w" using inv_idle [OF assms(1)] assms(2) by simp
  then have i: "idle v" using tq by (simp add: v_def idle_def client_base_def in_loop_thread_def is_open_def)
  have cl: "cl v = cl w" "dial_script v = d # ds" "steady_now v = t" "retry_enabled (cl v)"
    using assms(2,3) client_invD(10) [OF assms(1)] by (simp_all add: v_def)
  have "w' = start_connect ccb v" using assms(2) by (simp add: assms(5) retry_at_def retry_fired_def cl flip: v_def)
  note f = failed_attempt [OF i cl(4,2) assms(4) this refl]
  show "cl_state (cl w') = CliRetrying" "backoff_ms (cl w') = min (backoff_ms (cl w) * 2) kMaxBackoffMs" "dial_script w' = ds"
    "client_inv 1 w'" "\<exists>e\<in>set (retry_timers w'). expiration e = t + backoff_ms (cl w) * 1000000"
    using f assms(6) by (simp_all add: cl)
qed

lemma backoff_double: "min (min (500 * 2 ^ k) (30000 :: int) * 2) 30000 = min (500 * 2 ^ Suc k) 30000"
  by (simp add: min_def)



text \<open>
  \<open>connect\<close> during the wait for a retry does not cancel the timer that is already stored: if the new
  attempt fails too, there is one more retry timer, and every retry timer that fires and fails is
  replaced by a new one. So each such call adds a chain of retries that lasts until an attempt succeeds
  or the client is disconnected, and the backoff starts again from 500 ms.
\<close>

theorem connect_adds_retry_chain:
  assumes "client_inv n w" "cl_state (cl w) = CliRetrying" "dial_script w = d # ds" "fails d"
  shows "length (retry_timers (connect_in_loop ccb w)) = Suc (length (retry_timers w))
    \<and> cl_state (cl (connect_in_loop ccb w)) = CliRetrying
    \<and> (\<exists>e\<in>set (retry_timers (connect_in_loop ccb w)). expiration e = steady_now w + 500 * 1000000)
    \<and> length (retry_timers (retry_fired ccb w)) = Suc (length (retry_timers w))"
proof -
  let ?v = "on_cl (\<lambda>k. k\<lparr>retry_enabled := True, backoff_ms := kInitialBackoffMs\<rparr>) w"
  have i: "idle w" using inv_idle [OF assms(1)] assms(2) by simp
  then have "idle ?v" by (intro idle_on_cl) (simp_all add: idle_def backoff_ok_def kInitialBackoffMs_def)
  moreover have "retry_enabled (cl ?v)" "dial_script ?v = d # ds" using assms(3) by simp_all
  ultimately have a: "length (retry_timers (start_connect ccb ?v)) = Suc (length (retry_timers w))" "cl_state (cl (start_connect ccb ?v)) = CliRetrying"
    "\<exists>e\<in>set (retry_timers (start_connect ccb ?v)). expiration e = steady_now w + 500 * 1000000"
    using failed_attempt [of ?v d ds _ ccb, OF _ _ _ assms(4) refl refl] by (simp_all add: kInitialBackoffMs_def retry_timers_def)
  have "connect_in_loop ccb w = start_connect ccb ?v" "retry_fired ccb w = start_connect ccb w"
    using client_invD(2) [OF assms(1)] assms(2) by (simp_all add: connect_in_loop_def retry_fired_def)
  moreover have "retry_enabled (cl w)" using client_invD(10) [OF assms(1)] assms(2) by simp
  ultimately show ?thesis using a failed_attempt(3) [OF i _ assms(3,4) refl refl, of ccb] by simp
qed

theorem connect_adds_retry_chain_witness:
  "length (retry_timers (connect_in_loop (\<lambda>_ w. w) (connect_in_loop (\<lambda>_ w. w) (sample_client [ConnectErr 7, SocketErr])))) = 2"
proof -
  let ?s = "sample_client [ConnectErr 7, SocketErr]"
  let ?v = "on_cl (\<lambda>k. k\<lparr>retry_enabled := True, backoff_ms := kInitialBackoffMs\<rparr>) ?s"
  have i: "client_inv 0 ?s" by (rule sample_client_inv) (simp add: dial_fd_ok_def)
  then have "idle ?s" by (rule inv_idle) (simp add: sample_client_def new_client_def)
  then have "idle ?v" by (intro idle_on_cl) (simp_all add: idle_def backoff_ok_def kInitialBackoffMs_def)
  moreover have "connect_in_loop (\<lambda>_ w. w) ?s = start_connect (\<lambda>_ w. w) ?v"
    using client_invD(2) [OF i] by (simp add: connect_in_loop_def) (simp add: sample_client_def new_client_def)
  moreover have "retry_timers ?v = []" "dial_script ?v = [ConnectErr 7, SocketErr]"
    by (simp_all add: retry_timers_def sample_client_def new_timer_queue_def)
  moreover have f: "fails (ConnectErr 7)" "fails SocketErr" by (simp_all add: fails_def)
  ultimately have c: "length (retry_timers (connect_in_loop (\<lambda>_ w. w) ?s)) = 1"
    "cl_state (cl (connect_in_loop (\<lambda>_ w. w) ?s)) = CliRetrying" "dial_script (connect_in_loop (\<lambda>_ w. w) ?s) = [SocketErr]"
    "client_inv 0 (connect_in_loop (\<lambda>_ w. w) ?s)"
    using failed_attempt [of ?v "ConnectErr 7" "[SocketErr]" _ "\<lambda>_ w. w", OF _ _ _ f(1) refl refl] by simp_all
  from connect_adds_retry_chain [OF c(4,2,3) f(2), of "\<lambda>_ w. w"] c(1) show ?thesis by simp
qed

section \<open>Success\<close>

lemma detach_registered:
  assumes "detach_channel t ch l = (ch', l')" "owner_tid l = t" "registered ch l"
  shows "registered (new_channel (ch_fd ch)) l'" "owner_tid l' = t"
proof -
  obtain c1 l1 where u: "update_channel t (ch\<lparr>ch_events := 0\<rparr>) l = (c1, l1)" by fastforce
  then have r: "remove_channel t c1 l1 = (ch', l')" using assms(1) by (simp add: detach_channel_def disable_all_def)
  have reg: "registered (ch\<lparr>ch_events := 0\<rparr>) l" using assms(3) by (simp add: registered_def)
  note f = update_channel_frame [OF u]
  have own: "owner_tid l1 = t" using channel_op_timers(1) [of t "ch\<lparr>ch_events := 0\<rparr>" l] u assms(2) by simp
  note rm = remove_channel_registered [OF r own update_channel_registered(1) [OF u assms(2) reg]]
  have "ch_fd c1 = ch_fd ch" using f(1) by simp
  then show "registered (new_channel (ch_fd ch)) l'" using rm(1,3,6) by (simp add: registered_def new_channel_def)
  show "owner_tid l' = t" using rm(5) own by (metis event_loop.select_convs(1) event_loop.surjective event_loop.update_convs(6))
qed

text \<open>
  A handshake that succeeds: the temporary channel is taken off the loop before the connection
  registers the same descriptor, so the new connection starts in a state that satisfies the whole
  invariant of a connection, connected, owned by the client's loop and interested in input; the client
  is connected to it and the backoff is back at 500 ms.
\<close>

theorem handshake_success:
  assumes "client_conn ccb" "client_inv n w" "connect_channel (cl w) = Some ch" "ch_fd ch = connecting_fd (cl w)"
    "registered ch (loops w (the_loop w))" "handshake w = (0, rs, ws)" "\<not> cl_has_connection_cb (cl w)"
    "w' = handle_connect_writable ccb w" "c = cl_next_cid w"
  shows "cl_state (cl w') = CliConnected \<and> connection (cl w') = Some c \<and> backoff_ms (cl w') = 500
    \<and> conn_ok c w' \<and> connected c w' \<and> loop_of c w' = the_loop w \<and> is_reading (cn_channel (conns w' c))"
proof -
  note D = client_invD [OF assms(2)]
  have st: "cl_state (cl w) = CliConnecting" using D(4) assms(3) by blast
  then have fd: "0 \<le> connecting_fd (cl w)" using D(3) by blast
  obtain ch' l' where d: "detach_channel (this_thread w) ch (loops w (the_loop w)) = (ch', l')" by fastforce
  have own: "owner_tid (loops w (the_loop w)) = this_thread w" using D(2) by (simp add: in_loop_thread_def)
  note reg = detach_registered [OF d own assms(5)]
  define v where "v = on_cl (\<lambda>k. k\<lparr>connect_channel := None\<rparr>) (on_loop (the_loop w) (\<lambda>_. l') (on_cl (\<lambda>k. k\<lparr>connecting_fd := -1\<rparr>) w))"
  define w2 where "w2 = on_cl (\<lambda>k. k\<lparr>cl_state := CliConnected, backoff_ms := kInitialBackoffMs, connection := Some c\<rparr>)
    (on_conn c (\<lambda>_. (new_connection (the_loop w) (connecting_fd (cl w)) (cl_peer (cl w)) rs ws)
      \<lparr>has_message_cb := cl_has_message_cb (cl w), has_close_cb := True\<rparr>) (v\<lparr>cl_next_cid := c + 1\<rparr>))"
  have "drop_connect_channel (on_cl (\<lambda>k. k\<lparr>connecting_fd := -1\<rparr>) w) = v"
    using assms(3) d by (simp add: drop_connect_channel_def v_def)
  then have "w' = adopt_connection ccb (connecting_fd (cl w)) rs ws v"
    using D(2) fd assms(6) by (simp add: assms(8) handle_connect_writable_def) (simp add: v_def)
  then have w': "w' = conn_start c w2"
    using assms(7,9) by (simp add: adopt_connection_def w2_def Let_def) (simp add: v_def)
  have ok: "conn_ok c w2" "is_open c w2"
    using reg fd assms(4) by (simp_all add: w2_def v_def conn_ok_def new_connection_def is_writing_def new_channel_def is_open_def)
  note s = conn_start_adv [OF ok]
  have "cl w' = cl w2" by (simp add: w' conn_start_def with_channel_def loop_abort_def split_beta Let_def)
  moreover have "connected c w'" using s(2) by (simp add: w' connected_def) (simp add: w2_def new_connection_def)
  moreover have "loop_of c w2 = the_loop w" by (simp add: w2_def new_connection_def)
  ultimately show ?thesis using s(1,3) by (simp add: w' conn_adv_def) (simp add: w2_def kInitialBackoffMs_def)
qed

lemma client_conn_none: "client_conn (\<lambda>_ w. w)"
  by unfold_locales (simp_all add: conn_adv_refl)

theorem handshake_success_witness:
  "connected 0 (handle_connect_writable (\<lambda>_ w. w) (connect_in_loop (\<lambda>_ w. w) (sample_client [InProgress 7 0 [] []])))"
proof -
  let ?s = "sample_client [InProgress 7 0 [] []]"
  let ?w = "connect_in_loop (\<lambda>_ w. w) ?s"
  have i: "client_inv 0 ?w"
    by (rule client_ccb.connect_in_loop_inv(1) [OF client_conn.axioms(1) [OF client_conn_none]])
      (rule sample_client_inv, simp add: dial_fd_ok_def)
  have ep: "ep (new_event_loop 0 5 6 []) = \<lparr>interest = [5 \<mapsto> kReadEvent OR EPOLLET, 6 \<mapsto> kReadEvent OR EPOLLET], closed_fds = {}, ctl_faults = []\<rparr>"
    by (simp add: new_event_loop_def channel_ops update_channel_def epoll_add_def ctl_fault_def new_channel_def Let_def)
  let ?ch = "\<lparr>ch_fd = 7, ch_events = EPOLLOUT, ch_state = kAdded, ch_tied = False\<rparr>"
  have w: "connect_channel (cl ?w) = Some ?ch" "connecting_fd (cl ?w) = 7" "handshake ?w = (0, [], [])" "\<not> cl_has_connection_cb (cl ?w)"
    "cl_next_cid ?w = 0" "the_loop ?w = 0"
    "ep (loops ?w 0) = \<lparr>interest = [5 \<mapsto> kReadEvent OR EPOLLET, 6 \<mapsto> kReadEvent OR EPOLLET, 7 \<mapsto> EPOLLOUT OR EPOLLET], closed_fds = {}, ctl_faults = []\<rparr>"
    by (simp_all add: connect_in_loop_def start_connect_def sample_client_def new_client_def in_loop_thread_def take_fd_def fd_open_def
        on_cl_def on_loop_def new_channel_def enable_writing_def update_channel_def epoll_add_def ctl_fault_def ep Let_def)
  then have "registered ?ch (loops ?w (the_loop ?w))" by (simp add: registered_def)
  with handshake_success [OF client_conn_none i w(1) _ _ w(3,4) refl refl] w show ?thesis by simp
qed

end
