(* ===== verification/Mpsc_Queue.thy ===== *)
theory Mpsc_Queue
  imports Prelude
begin

text \<open>
  \<open>src/util/mpsc_queue.h\<close>: the bounded multi-producer single-consumer queue between the threads that
  log and the thread that sends.

  The record has the fields of the class. \<open>push\<close> is split where the code leaves the critical section:
  \<open>push_locked\<close> is what happens under the mutex, the counter and the compare-and-swap follow outside
  it, so that the concurrent model can interleave them with other threads. The abstract value is the
  list of queued elements; \<open>bounded_fifo\<close> is the contract, and the step relation at the end shows what
  the edge-triggered wake-up guarantees under every interleaving.
\<close>

section \<open>State and operations\<close>

record 'a mpsc =
  qcap :: nat
  slots :: "'a list"
  qhead :: nat
  qtail :: nat
  qcount :: nat
  dropped :: u64
  has_pending :: bool

text \<open>\<open>slots_(cap_)\<close> default-constructs the elements; \<open>dflt\<close> is that default value.\<close>

definition new_mpsc :: "'a \<Rightarrow> nat \<Rightarrow> 'a mpsc" where
  "new_mpsc dflt capacity =
     (let c = (if capacity = 0 then 1 else capacity)
      in \<lparr>qcap = c, slots = replicate c dflt, qhead = 0, qtail = 0, qcount = 0,
          dropped = 0, has_pending = False\<rparr>)"

record push_result =
  push_ok :: bool
  wake_up :: bool

definition push_locked :: "'a \<Rightarrow> 'a mpsc \<Rightarrow> bool \<times> 'a mpsc" where
  "push_locked v q =
     (if qcount q = qcap q then (False, q)
      else (True, q\<lparr>slots := (slots q)[qtail q := v],
                    qtail := (qtail q + 1) mod qcap q,
                    qcount := qcount q + 1\<rparr>))"

definition count_dropped :: "'a mpsc \<Rightarrow> 'a mpsc" where
  "count_dropped q = q\<lparr>dropped := dropped q + 1\<rparr>"

text \<open>\<open>compare_exchange_strong(false, true)\<close>: succeeds exactly when the flag was false.\<close>

definition cas_pending :: "'a mpsc \<Rightarrow> bool \<times> 'a mpsc" where
  "cas_pending q = (if has_pending q then (False, q) else (True, q\<lparr>has_pending := True\<rparr>))"

definition mpsc_push :: "'a \<Rightarrow> 'a mpsc \<Rightarrow> push_result \<times> 'a mpsc" where
  "mpsc_push v q =
     (let (ok, q1) = push_locked v q in
      if \<not> ok then (\<lparr>push_ok = False, wake_up = False\<rparr>, count_dropped q1)
      else let (wake, q2) = cas_pending q1 in (\<lparr>push_ok = True, wake_up = wake\<rparr>, q2))"

text \<open>The loop of \<open>drain\<close>; \<open>n\<close> is \<open>max_batch - taken\<close>.\<close>

fun drain_loop :: "nat \<Rightarrow> 'a list \<Rightarrow> 'a mpsc \<Rightarrow> 'a list \<times> 'a mpsc" where
  "drain_loop 0 out q = (out, q)"
| "drain_loop (Suc n) out q =
     (if qcount q > 0
      then drain_loop n (out @ [slots q ! qhead q])
             (q\<lparr>qhead := (qhead q + 1) mod qcap q, qcount := qcount q - 1\<rparr>)
      else (out, q))"

definition mpsc_drain :: "'a list \<Rightarrow> nat \<Rightarrow> 'a mpsc \<Rightarrow> nat \<times> 'a list \<times> 'a mpsc" where
  "mpsc_drain out max_batch q =
     (if max_batch = 0 then (0, out, q)
      else let (out', q') = drain_loop max_batch out q;
               q'' = (if qcount q' = 0 then q'\<lparr>has_pending := False\<rparr> else q')
           in (length out' - length out, out', q''))"

definition take_dropped :: "'a mpsc \<Rightarrow> u64 \<times> 'a mpsc" where
  "take_dropped q = (dropped q, q\<lparr>dropped := 0\<rparr>)"

definition mpsc_size :: "'a mpsc \<Rightarrow> nat" where
  "mpsc_size q = qcount q"

definition mpsc_capacity :: "'a mpsc \<Rightarrow> nat" where
  "mpsc_capacity q = qcap q"

section \<open>Invariant and abstraction\<close>

definition mpsc_inv :: "'a mpsc \<Rightarrow> bool" where
  "mpsc_inv q \<longleftrightarrow> 0 < qcap q \<and> length (slots q) = qcap q \<and> qhead q < qcap q
     \<and> qcount q \<le> qcap q \<and> qtail q = (qhead q + qcount q) mod qcap q"

definition contents :: "'a mpsc \<Rightarrow> 'a list" where
  "contents q = map (\<lambda>i. slots q ! ((qhead q + i) mod qcap q)) [0..<qcount q]"

lemma length_contents [simp]: "length (contents q) = qcount q"
  by (simp add: contents_def)

lemma mpsc_inv_new [simp]: "mpsc_inv (new_mpsc d c)"
  by (simp add: mpsc_inv_def new_mpsc_def Let_def)

lemma contents_new [simp]: "contents (new_mpsc d c) = []"
  by (simp add: contents_def new_mpsc_def Let_def)

text \<open>The slot a push writes is none of the occupied ones.\<close>

lemma tail_fresh:
  assumes "mpsc_inv q" "qcount q \<noteq> qcap q" "i < qcount q"
  shows "(qhead q + i) mod qcap q \<noteq> qtail q"
proof
  assume eq: "(qhead q + i) mod qcap q = qtail q"
  from assms have "qcount q < qcap q" by (simp add: mpsc_inv_def)
  with assms eq show False
    by (auto simp: mpsc_inv_def mod_if split: if_splits)
qed

lemma push_locked_ok: "fst (push_locked v q) \<longleftrightarrow> qcount q \<noteq> qcap q"
  by (simp add: push_locked_def)

lemma push_locked_inv: "mpsc_inv q \<Longrightarrow> mpsc_inv (snd (push_locked v q))"
  by (auto simp: push_locked_def mpsc_inv_def mod_simps)

lemma contents_push_locked:
  assumes "mpsc_inv q"
  shows "contents (snd (push_locked v q)) = (if qcount q \<noteq> qcap q then contents q @ [v] else contents q)"
proof (cases "qcount q = qcap q")
  case False
  have "(slots q)[qtail q := v] ! ((qhead q + i) mod qcap q) = slots q ! ((qhead q + i) mod qcap q)"
    if "i < qcount q" for i
    using tail_fresh [OF assms False that] by (simp add: nth_list_update_neq)
  moreover have "(slots q)[qtail q := v] ! ((qhead q + qcount q) mod qcap q) = v"
    using assms by (auto simp: mpsc_inv_def)
  ultimately show ?thesis using False by (simp add: push_locked_def contents_def)
qed (simp add: push_locked_def)

lemma contents_pop:
  assumes "mpsc_inv q" "0 < qcount q"
  defines "q' \<equiv> q\<lparr>qhead := (qhead q + 1) mod qcap q, qcount := qcount q - 1\<rparr>"
  shows "contents q = slots q ! qhead q # contents q'" "mpsc_inv q'"
proof -
  have "[0..<qcount q] = 0 # map Suc [0..<qcount q - 1]"
    using assms(2) by (simp add: upt_conv_Cons map_Suc_upt)
  then show "contents q = slots q ! qhead q # contents q'"
    using assms(1) by (simp add: contents_def q'_def mpsc_inv_def mod_simps)
  have "(qhead q + qcount q) mod qcap q = ((qhead q + 1) mod qcap q + (qcount q - 1)) mod qcap q"
    using assms(2) mod_add_left_eq [of "qhead q + 1" "qcap q" "qcount q - 1"] by simp
  then show "mpsc_inv q'"
    using assms by (auto simp: mpsc_inv_def)
qed

lemma drain_loop_spec:
  assumes "mpsc_inv q" "drain_loop n out q = (out', q')"
  shows "out' = out @ take n (contents q) \<and> contents q' = drop n (contents q) \<and> mpsc_inv q'
    \<and> qcap q' = qcap q \<and> dropped q' = dropped q \<and> has_pending q' = has_pending q"
  using assms
proof (induction n out q rule: drain_loop.induct)
  case (2 n out q)
  show ?case
  proof (cases "0 < qcount q")
    case True
    note pop = contents_pop [OF 2(2) True]
    from True 2(1) [OF True pop(2)] 2(3) show ?thesis by (simp add: pop(1))
  next
    case False
    with 2 show ?thesis by (simp flip: length_0_conv)
  qed
qed simp

lemma contents_flag [simp]:
  "contents (q\<lparr>has_pending := b\<rparr>) = contents q" "contents (q\<lparr>dropped := d\<rparr>) = contents q"
  "mpsc_inv (q\<lparr>has_pending := b\<rparr>) = mpsc_inv q" "mpsc_inv (q\<lparr>dropped := d\<rparr>) = mpsc_inv q"
  by (simp_all add: contents_def mpsc_inv_def)

lemma mpsc_drain_spec:
  assumes "mpsc_inv q" "mpsc_drain out n q = (k, out', q')"
  shows "out' = out @ take n (contents q)" "contents q' = drop n (contents q)" "mpsc_inv q'"
    "k = min n (qcount q)" "qcap q' = qcap q" "dropped q' = dropped q"
    "has_pending q' = (has_pending q \<and> (n = 0 \<or> contents q' \<noteq> []))"
proof -
  obtain o1 q1 where l: "drain_loop n out q = (o1, q1)" by fastforce
  note s = drain_loop_spec [OF assms(1) l]
  have e: "qcount q1 = 0 \<longleftrightarrow> contents q1 = []" by (simp flip: length_0_conv)
  have d: "k = (if n = 0 then 0 else length o1 - length out)" "out' = o1"
    "q' = (if n \<noteq> 0 \<and> qcount q1 = 0 then q1\<lparr>has_pending := False\<rparr> else q1)"
    using assms(2) l by (cases n; simp add: mpsc_drain_def Let_def)+
  show "out' = out @ take n (contents q)" "contents q' = drop n (contents q)" "mpsc_inv q'"
    "qcap q' = qcap q" "dropped q' = dropped q"
    using s by (simp_all add: d)
  show "k = min n (qcount q)" using s by (simp add: d min.commute)
  show "has_pending q' = (has_pending q \<and> (n = 0 \<or> contents q' \<noteq> []))"
    using s e by (simp add: d)
qed

lemma mpsc_push_spec:
  assumes "mpsc_inv q" "mpsc_push v q = (r, q')"
  shows "mpsc_inv q'" "qcap q' = qcap q"
    "contents q' = (if qcount q < qcap q then contents q @ [v] else contents q)"
    "push_ok r \<longleftrightarrow> qcount q < qcap q" "wake_up r \<longleftrightarrow> push_ok r \<and> \<not> has_pending q"
    "dropped q' = (if push_ok r then dropped q else dropped q + 1)"
    "has_pending q' = (has_pending q \<or> push_ok r)"
proof -
  have "qcount q < qcap q \<longleftrightarrow> qcount q \<noteq> qcap q" using assms(1) by (auto simp: mpsc_inv_def)
  with assms push_locked_inv [OF assms(1), of v] contents_push_locked [OF assms(1), of v]
  show "mpsc_inv q'" "qcap q' = qcap q"
    "contents q' = (if qcount q < qcap q then contents q @ [v] else contents q)"
    "push_ok r \<longleftrightarrow> qcount q < qcap q" "wake_up r \<longleftrightarrow> push_ok r \<and> \<not> has_pending q"
    "dropped q' = (if push_ok r then dropped q else dropped q + 1)"
    "has_pending q' = (has_pending q \<or> push_ok r)"
    by (auto simp: mpsc_push_def push_locked_def cas_pending_def count_dropped_def split: if_splits)
qed

section \<open>The contract of a bounded queue\<close>

text \<open>
  What the sender relies on. \<open>fifo_run\<close> performs a sequence of operations, a push (\<open>Inl v\<close>) or a
  drain of at most \<open>n\<close> (\<open>Inr n\<close>), and records what was accepted and what was delivered.
\<close>

fun fifo_run :: "('a \<Rightarrow> 'q \<Rightarrow> bool \<times> 'q) \<Rightarrow> (nat \<Rightarrow> 'q \<Rightarrow> 'a list \<times> 'q)
    \<Rightarrow> ('a + nat) list \<Rightarrow> 'q \<Rightarrow> 'a list \<times> 'a list \<times> 'q" where
  "fifo_run enq deq [] q = ([], [], q)"
| "fifo_run enq deq (Inl v # ops) q =
     (let (ok, q1) = enq v q; (acc, del, q2) = fifo_run enq deq ops q1
      in ((if ok then v # acc else acc), del, q2))"
| "fifo_run enq deq (Inr n # ops) q =
     (let (xs, q1) = deq n q; (acc, del, q2) = fifo_run enq deq ops q1 in (acc, xs @ del, q2))"

locale bounded_fifo =
  fixes inv :: "'q \<Rightarrow> bool" and elems :: "'q \<Rightarrow> 'a list" and limit :: "'q \<Rightarrow> nat"
    and enq :: "'a \<Rightarrow> 'q \<Rightarrow> bool \<times> 'q" and deq :: "nat \<Rightarrow> 'q \<Rightarrow> 'a list \<times> 'q"
  assumes inv_limit: "inv q \<Longrightarrow> length (elems q) \<le> limit q"
    and enq_inv: "inv q \<Longrightarrow> inv (snd (enq v q)) \<and> limit (snd (enq v q)) = limit q"
    and enq_ok: "inv q \<Longrightarrow> fst (enq v q) \<longleftrightarrow> length (elems q) < limit q"
    and enq_elems: "inv q \<Longrightarrow> elems (snd (enq v q)) = (if fst (enq v q) then elems q @ [v] else elems q)"
    and deq_inv: "inv q \<Longrightarrow> inv (snd (deq n q)) \<and> limit (snd (deq n q)) = limit q"
    and deq_elems: "inv q \<Longrightarrow> fst (deq n q) @ elems (snd (deq n q)) = elems q"
    and deq_max: "inv q \<Longrightarrow> length (fst (deq n q)) = min n (length (elems q))"
begin

text \<open>Nothing accepted is lost, duplicated or reordered, whatever the mix of operations.\<close>

lemma run_fifo:
  assumes "inv q" "fifo_run enq deq ops q = (acc, del, q')"
  shows "elems q @ acc = del @ elems q' \<and> inv q' \<and> limit q' = limit q"
  using assms
proof (induction ops arbitrary: q acc del q')
  case (Cons op ops)
  show ?case
  proof (cases op)
    case (Inl v)
    obtain ok q1 where e: "enq v q = (ok, q1)" by fastforce
    obtain a1 d1 q2 where r: "fifo_run enq deq ops q1 = (a1, d1, q2)" by (metis prod_cases3)
    have "inv q1" "limit q1 = limit q" using enq_inv [OF Cons.prems(1), of v] e by auto
    with Cons.IH [OF _ r] Cons.prems Inl e r enq_elems [OF Cons.prems(1), of v] show ?thesis
      by (auto split: if_splits)
  next
    case (Inr n)
    obtain xs q1 where e: "deq n q = (xs, q1)" by fastforce
    obtain a1 d1 q2 where r: "fifo_run enq deq ops q1 = (a1, d1, q2)" by (metis prod_cases3)
    have "inv q1" "limit q1 = limit q" using deq_inv [OF Cons.prems(1), of n] e by auto
    with Cons.IH [OF _ r] Cons.prems Inr e r deq_elems [OF Cons.prems(1), of n] show ?thesis
      by auto (metis append_assoc)
  qed
qed simp

lemma never_over_limit:
  "inv q \<Longrightarrow> fifo_run enq deq ops q = (acc, del, q') \<Longrightarrow> length (elems q') \<le> limit q"
  using run_fifo inv_limit by metis

end

text \<open>The two operations as the contract sees them: \<open>push\<close> with its result flag, \<open>drain\<close> into an empty vector.\<close>

definition mpsc_enq :: "'a \<Rightarrow> 'a mpsc \<Rightarrow> bool \<times> 'a mpsc" where
  "mpsc_enq v q = (let (r, q') = mpsc_push v q in (push_ok r, q'))"

definition mpsc_deq :: "nat \<Rightarrow> 'a mpsc \<Rightarrow> 'a list \<times> 'a mpsc" where
  "mpsc_deq n q = snd (mpsc_drain [] n q)"

interpretation ring: bounded_fifo mpsc_inv contents qcap mpsc_enq mpsc_deq
proof unfold_locales
  fix q :: "'a mpsc" and v n
  assume inv: "mpsc_inv q"
  then show "length (contents q) \<le> qcap q" by (simp add: mpsc_inv_def)
  obtain r q1 where p: "mpsc_push v q = (r, q1)" by fastforce
  note ps = mpsc_push_spec [OF inv p]
  show "mpsc_inv (snd (mpsc_enq v q)) \<and> qcap (snd (mpsc_enq v q)) = qcap q"
    "fst (mpsc_enq v q) \<longleftrightarrow> length (contents q) < qcap q"
    "contents (snd (mpsc_enq v q)) = (if fst (mpsc_enq v q) then contents q @ [v] else contents q)"
    using ps by (simp_all add: mpsc_enq_def p)
  obtain k o1 q2 where d: "mpsc_drain [] n q = (k, o1, q2)" by (metis prod_cases3)
  note ds = mpsc_drain_spec [OF inv d]
  show "mpsc_inv (snd (mpsc_deq n q)) \<and> qcap (snd (mpsc_deq n q)) = qcap q"
    "fst (mpsc_deq n q) @ contents (snd (mpsc_deq n q)) = contents q"
    "length (fst (mpsc_deq n q)) = min n (length (contents q))"
    using ds by (simp_all add: mpsc_deq_def d min.commute)
qed



section \<open>All interleavings: the edge-triggered wake-up\<close>

text \<open>
  Any number of producers (numbered) and the consumer. A producer that calls \<open>push\<close> passes through
  its critical section (one atomic step, the mutex excludes the others) and then either counts the
  drop or does the compare-and-swap; between the two any other thread may run. The consumer drains
  under the mutex and reads the drop counter. Besides the queue the state records, per producer,
  where it is, and as history the accepted and delivered elements, the number of wake-ups the
  producers were told to issue, the number of times a drain cleared a set flag, and the drops.
\<close>

datatype producer_pc = Outside | Enqueued | Refused

record 'a mpsc_sys =
  queue :: "'a mpsc"
  pcs :: "nat \<Rightarrow> producer_pc"
  accepted :: "'a list"
  delivered :: "'a list"
  wakes :: nat
  clears :: nat
  drops_counted :: nat
  drops_taken :: u64

definition mpsc_init :: "'a \<Rightarrow> nat \<Rightarrow> 'a mpsc_sys \<Rightarrow> bool" where
  "mpsc_init d c s \<longleftrightarrow> queue s = new_mpsc d c \<and> (\<forall>t. pcs s t = Outside) \<and> accepted s = [] \<and> delivered s = []
     \<and> wakes s = 0 \<and> clears s = 0 \<and> drops_counted s = 0 \<and> drops_taken s = 0"

inductive mpsc_step :: "'a mpsc_sys \<Rightarrow> 'a mpsc_sys \<Rightarrow> bool" where
  enqueue: "pcs s t = Outside \<Longrightarrow> push_locked v (queue s) = (True, q) \<Longrightarrow>
     mpsc_step s (s\<lparr>queue := q, pcs := (pcs s)(t := Enqueued), accepted := accepted s @ [v]\<rparr>)"
| refuse: "pcs s t = Outside \<Longrightarrow> push_locked v (queue s) = (False, q) \<Longrightarrow>
     mpsc_step s (s\<lparr>queue := q, pcs := (pcs s)(t := Refused)\<rparr>)"
| count_drop: "pcs s t = Refused \<Longrightarrow>
     mpsc_step s (s\<lparr>queue := count_dropped (queue s), pcs := (pcs s)(t := Outside),
                    drops_counted := drops_counted s + 1\<rparr>)"
| cas: "pcs s t = Enqueued \<Longrightarrow> cas_pending (queue s) = (wake, q) \<Longrightarrow>
     mpsc_step s (s\<lparr>queue := q, pcs := (pcs s)(t := Outside),
                    wakes := wakes s + (if wake then 1 else 0)\<rparr>)"
| drain: "mpsc_drain [] n (queue s) = (k, xs, q) \<Longrightarrow>
     mpsc_step s (s\<lparr>queue := q, delivered := delivered s @ xs,
                    clears := clears s + (if has_pending (queue s) \<and> \<not> has_pending q then 1 else 0)\<rparr>)"
| take_drops: "take_dropped (queue s) = (d, q) \<Longrightarrow>
     mpsc_step s (s\<lparr>queue := q, drops_taken := drops_taken s + d\<rparr>)"

definition mpsc_sys_inv :: "'a mpsc_sys \<Rightarrow> bool" where
  "mpsc_sys_inv s \<longleftrightarrow> mpsc_inv (queue s)
     \<and> accepted s = delivered s @ contents (queue s)
     \<and> (contents (queue s) \<noteq> [] \<and> \<not> has_pending (queue s) \<longrightarrow> (\<exists>t. pcs s t = Enqueued))
     \<and> wakes s = clears s + (if has_pending (queue s) then 1 else 0)
     \<and> of_nat (drops_counted s) = drops_taken s + dropped (queue s)"

lemma mpsc_sys_inv_init: "mpsc_init d c s \<Longrightarrow> mpsc_sys_inv s"
  by (simp add: mpsc_init_def mpsc_sys_inv_def) (simp add: new_mpsc_def Let_def)

lemma push_locked_frame:
  "push_locked v q = (ok, q') \<Longrightarrow> has_pending q' = has_pending q \<and> dropped q' = dropped q \<and> (\<not> ok \<longrightarrow> q' = q)"
  by (auto simp: push_locked_def split: if_splits)

lemma mpsc_sys_inv_step:
  assumes "mpsc_step s t" "mpsc_sys_inv s"
  shows "mpsc_sys_inv t"
  using assms
proof (induction rule: mpsc_step.induct)
  case (enqueue s t v q)
  then have "contents q = contents (queue s) @ [v]" "mpsc_inv q"
    using contents_push_locked [of "queue s" v] push_locked_inv [of "queue s" v] push_locked_ok [of v "queue s"]
    by (auto simp: mpsc_sys_inv_def)
  with enqueue push_locked_frame [OF enqueue(2)] show ?case by (auto simp: mpsc_sys_inv_def)
next
  case (refuse s t v q)
  with push_locked_frame [OF refuse(2)] have "q = queue s" by simp
  with refuse show ?case by (auto simp: mpsc_sys_inv_def) (metis producer_pc.distinct(1))
next
  case (count_drop s t)
  then show ?case
    by (auto simp: mpsc_sys_inv_def count_dropped_def algebra_simps) (metis producer_pc.distinct(5))
next
  case (cas s t wake q)
  then show ?case by (auto simp: mpsc_sys_inv_def cas_pending_def split: if_splits)
next
  case (drain n s k xs q)
  then have "mpsc_inv (queue s)" by (simp add: mpsc_sys_inv_def)
  note d = mpsc_drain_spec [OF this drain(1)]
  have "contents q \<noteq> [] \<Longrightarrow> contents (queue s) \<noteq> []" using d(2) by (metis drop_Nil)
  with drain d show ?case by (auto simp: mpsc_sys_inv_def simp del: drop_eq_Nil)
next
  case (take_drops s d q)
  then show ?case by (auto simp: mpsc_sys_inv_def take_dropped_def)
qed

interpretation mpsc_ts: invariant_system "mpsc_init d c" mpsc_step mpsc_sys_inv for d c
  by unfold_locales (auto intro: mpsc_sys_inv_init mpsc_sys_inv_step)


text \<open>A state in which producer 3 stands between its enqueue and its compare-and-swap.\<close>

definition mpsc_sys0 :: "nat mpsc_sys" where
  "mpsc_sys0 = \<lparr>queue = new_mpsc 0 2, pcs = (\<lambda>_. Outside), accepted = [], delivered = [], wakes = 0,
                clears = 0, drops_counted = 0, drops_taken = 0\<rparr>"


end
