(* ===== verification/Log_Sender.thy ===== *)
theory Log_Sender
  imports Tcp_Client_Props Mpsc_Queue Length_Codec Text
begin

text \<open>
  \<open>src/log_sender/log_sender.h\<close>, \<open>log_sender.cpp\<close> and \<open>logging.h\<close>: the logging front end. Threads push
  lines into the bounded queue; on its own loop the sender drains the queue on a timer, frames each line
  and sends it over the connection of a TCP client.

  The sender is one field of the world of its client. The lambdas it hands to its loop are the
  constructors of \<open>sender_task\<close>. A call through a null \<open>connection_\<close> or \<open>tcp_client_\<close> sets \<open>sd_null_call\<close>, since
  C++ gives it no meaning.
\<close>

section \<open>State\<close>

datatype sender_task = StartTask | StopTask | WakeTask | TickTask

record sender_options =
  queue_capacity :: nat
  max_batch_per_tick :: nat
  tick_interval_ms :: int
  opt_high_water_mark :: nat

definition default_options :: sender_options where
  "default_options = \<lparr>queue_capacity = 10000, max_batch_per_tick = 1000, tick_interval_ms = 50, opt_high_water_mark = 4 * 1024 * 1024\<rparr>"

record sender =
  sender_loop :: nat
  sd_opts :: sender_options
  sd_client_alive :: bool
  sd_queue :: "bytes mpsc"
  sd_connection :: "nat option"
  paused :: bool
  tick_timer_id :: nat
  started :: bool
  stopped :: bool
  sd_null_call :: bool

record 'x sender_world = "(sender_task, 'x) client_world" +
  sd :: sender

definition on_sd :: "(sender \<Rightarrow> sender) \<Rightarrow> ('x, 'z) sender_world_scheme \<Rightarrow> ('x, 'z) sender_world_scheme" where
  "on_sd f w = w\<lparr>sd := f (sd w)\<rparr>"

abbreviation snd_loop :: "('x, 'z) sender_world_scheme \<Rightarrow> nat" where
  "snd_loop w \<equiv> sender_loop (sd w)"

section \<open>Callbacks of the client\<close>

text \<open>The setters of the two callbacks of a connection, if there is a mark.\<close>

definition sender_on_connection :: "nat \<Rightarrow> ('x, 'z) sender_world_scheme \<Rightarrow> ('x, 'z) sender_world_scheme" where
  "sender_on_connection c w =
     (if \<not> in_loop_thread (snd_loop w) w then loop_abort (snd_loop w) w
      else if connected c w
      then let mark = opt_high_water_mark (sd_opts (sd w));
               w1 = (if mark > 0
                     then on_conn c (\<lambda>cn. (set_high_water_mark_callback mark cn)\<lparr>has_write_complete_cb := True\<rparr>) w else w)
           in on_sd (\<lambda>s. s\<lparr>sd_connection := Some c, paused := False\<rparr>) w1
      else on_sd (\<lambda>s. s\<lparr>sd_connection := None, paused := False\<rparr>) w)"

definition on_high_water :: "nat \<Rightarrow> ('x, 'z) sender_world_scheme \<Rightarrow> ('x, 'z) sender_world_scheme" where
  "on_high_water c w =
     (if \<not> in_loop_thread (snd_loop w) w then loop_abort (snd_loop w) w else on_sd (\<lambda>s. s\<lparr>paused := True\<rparr>) w)"

definition on_write_complete :: "nat \<Rightarrow> ('x, 'z) sender_world_scheme \<Rightarrow> ('x, 'z) sender_world_scheme" where
  "on_write_complete c w =
     (if \<not> in_loop_thread (snd_loop w) w then loop_abort (snd_loop w) w
      else if paused (sd w) then on_sd (\<lambda>s. s\<lparr>paused := False\<rparr>) w else w)"

abbreviation sender_close_cb :: "nat \<Rightarrow> ('x, 'z) sender_world_scheme \<Rightarrow> ('x, 'z) sender_world_scheme" where
  "sender_close_cb \<equiv> on_connection_closed sender_on_connection"

section \<open>Sending\<close>

definition send_payload :: "bytes \<Rightarrow> ('x, 'z) sender_world_scheme \<Rightarrow> ('x, 'z) sender_world_scheme" where
  "send_payload payload w =
     (case sd_connection (sd w) of
        None \<Rightarrow> on_sd (\<lambda>s. s\<lparr>sd_null_call := True\<rparr>) w
      | Some c \<Rightarrow> conn_send sender_close_cb c (frame_encode payload) w)"

definition send_batch :: "bytes list \<Rightarrow> ('x, 'z) sender_world_scheme \<Rightarrow> ('x, 'z) sender_world_scheme" where
  "send_batch batch w = fold send_payload batch w"

definition dropped_notice :: "u64 \<Rightarrow> bytes list" where
  "dropped_notice n = (if n > 0 then [''[LOG_DROPPED] '' @ to_string (unat n) @ '' messages lost''] else [])"

definition do_drain_and_send :: "('x, 'z) sender_world_scheme \<Rightarrow> ('x, 'z) sender_world_scheme" where
  "do_drain_and_send w =
     (if \<not> in_loop_thread (snd_loop w) w then loop_abort (snd_loop w) w
      else let (lost, q1) = take_dropped (sd_queue (sd w));
               (took, batch, q2) = mpsc_drain (dropped_notice lost) (max_batch_per_tick (sd_opts (sd w))) q1;
               w1 = on_sd (\<lambda>s. s\<lparr>sd_queue := q2\<rparr>) w
           in if took = 0 \<and> lost = 0 then w1 else send_batch batch w1)"

definition schedule_next_tick :: "('x, 'z) sender_world_scheme \<Rightarrow> ('x, 'z) sender_world_scheme" where
  "schedule_next_tick w =
     (if \<not> in_loop_thread (snd_loop w) w then loop_abort (snd_loop w) w
      else if stopped (sd w) then w
      else let (k, w1) = run_after (snd_loop w) (tick_interval_ms (sd_opts (sd w))) (Some (Task (App (CliApp TickTask)))) w
           in on_sd (\<lambda>s. s\<lparr>tick_timer_id := k\<rparr>) w1)"

definition sender_ready :: "('x, 'z) sender_world_scheme \<Rightarrow> bool" where
  "sender_ready w \<longleftrightarrow> (case sd_connection (sd w) of None \<Rightarrow> False | Some c \<Rightarrow> connected c w)"

definition on_tick :: "('x, 'z) sender_world_scheme \<Rightarrow> ('x, 'z) sender_world_scheme" where
  "on_tick w =
     (if \<not> in_loop_thread (snd_loop w) w then loop_abort (snd_loop w) w
      else if stopped (sd w) then w
      else schedule_next_tick (if sender_ready w \<and> \<not> paused (sd w) then do_drain_and_send w else w))"

text \<open>The lambda of the timer, and the lambda a push hands over.\<close>

definition tick_fired :: "('x, 'z) sender_world_scheme \<Rightarrow> ('x, 'z) sender_world_scheme" where
  "tick_fired w = on_tick (on_sd (\<lambda>s. s\<lparr>tick_timer_id := 0\<rparr>) w)"

definition wake_fired :: "('x, 'z) sender_world_scheme \<Rightarrow> ('x, 'z) sender_world_scheme" where
  "wake_fired w = (if \<not> started (sd w) \<or> stopped (sd w) then w else on_tick w)"

definition sender_push :: "bytes \<Rightarrow> ('x, 'z) sender_world_scheme \<Rightarrow> bool \<times> ('x, 'z) sender_world_scheme" where
  "sender_push msg w =
     (let (r, q) = mpsc_push msg (sd_queue (sd w));
          w1 = on_sd (\<lambda>s. s\<lparr>sd_queue := q\<rparr>) w
      in (push_ok r,
          if wake_up r then on_loop (snd_loop w1) (queue_in_loop (this_thread w1) (Task (App (CliApp WakeTask)))) w1 else w1))"

section \<open>Start and stop\<close>

definition new_log_sender :: "nat \<Rightarrow> string \<Rightarrow> sender_options \<Rightarrow> ('x, 'z) sender_world_scheme \<Rightarrow> ('x, 'z) sender_world_scheme" where
  "new_log_sender i peer opts w =
     w\<lparr>cl := (new_client i peer)\<lparr>cl_has_connection_cb := True\<rparr>,
       sd := \<lparr>sender_loop = i, sd_opts = opts, sd_client_alive = True, sd_queue = new_mpsc [] (queue_capacity opts),
              sd_connection = None, paused = False, tick_timer_id = 0, started = False, stopped = False, sd_null_call = False\<rparr>\<rparr>"

definition start_in_loop :: "('x, 'z) sender_world_scheme \<Rightarrow> ('x, 'z) sender_world_scheme" where
  "start_in_loop w =
     (if \<not> in_loop_thread (snd_loop w) w then loop_abort (snd_loop w) w
      else if started (sd w) then w
      else let w1 = on_sd (\<lambda>s. s\<lparr>started := True\<rparr>) w;
               w2 = (if sd_client_alive (sd w1) then client_connect sender_on_connection w1
                     else on_sd (\<lambda>s. s\<lparr>sd_null_call := True\<rparr>) w1)
           in schedule_next_tick w2)"

definition sender_start :: "('x, 'z) sender_world_scheme \<Rightarrow> ('x, 'z) sender_world_scheme" where
  "sender_start w = run_in_loop (snd_loop w) (Task (App (CliApp StartTask))) start_in_loop w"

definition stop_in_loop :: "('x, 'z) sender_world_scheme \<Rightarrow> ('x, 'z) sender_world_scheme" where
  "stop_in_loop w =
     (if \<not> in_loop_thread (snd_loop w) w then loop_abort (snd_loop w) w
      else if stopped (sd w) then w
      else let w1 = on_sd (\<lambda>s. s\<lparr>stopped := True\<rparr>) w;
               w2 = (if tick_timer_id (sd w1) \<noteq> 0
                     then on_sd (\<lambda>s. s\<lparr>tick_timer_id := 0\<rparr>) (cancel_timer (snd_loop w1) (tick_timer_id (sd w1)) w1) else w1);
               w3 = (if sender_ready w2 then do_drain_and_send w2 else w2);
               w4 = (case sd_connection (sd w3) of None \<Rightarrow> w3 | Some c \<Rightarrow> conn_shutdown c w3);
               w5 = on_sd (\<lambda>s. s\<lparr>sd_connection := None\<rparr>) (client_disconnect sender_on_connection w4)
           in on_sd (\<lambda>s. s\<lparr>sd_client_alive := False\<rparr>) (client_destroy sender_on_connection w5))"

text \<open>
  From another thread \<open>stop\<close> waits until the loop has run the functor: \<open>await\<close> is what the thread of the
  loop does until then.
\<close>

definition sender_stop :: "(('x, 'z) sender_world_scheme \<Rightarrow> ('x, 'z) sender_world_scheme)
    \<Rightarrow> ('x, 'z) sender_world_scheme \<Rightarrow> ('x, 'z) sender_world_scheme" where
  "sender_stop await w =
     (if in_loop_thread (snd_loop w) w then stop_in_loop w
      else await (run_in_loop (snd_loop w) (Task (App (CliApp StopTask))) stop_in_loop w))"

text \<open>The body of the destructor, then that of the member \<open>tcp_client_\<close>, if it still points to a client.\<close>

definition destroy_log_sender :: "(('x, 'z) sender_world_scheme \<Rightarrow> ('x, 'z) sender_world_scheme)
    \<Rightarrow> ('x, 'z) sender_world_scheme \<Rightarrow> ('x, 'z) sender_world_scheme" where
  "destroy_log_sender await w =
     (let w1 = (if started (sd w) \<and> \<not> stopped (sd w) then sender_stop await w else w)
      in if sd_client_alive (sd w1)
         then on_sd (\<lambda>s. s\<lparr>sd_client_alive := False\<rparr>) (client_destroy sender_on_connection w1) else w1)"

fun run_sender_task :: "sender_task \<Rightarrow> ('x, 'z) sender_world_scheme \<Rightarrow> ('x, 'z) sender_world_scheme" where
  "run_sender_task StartTask w = start_in_loop w"
| "run_sender_task StopTask w = stop_in_loop w"
| "run_sender_task WakeTask w = wake_fired w"
| "run_sender_task TickTask w = tick_fired w"

section \<open>The logging macros\<close>

datatype log_level = DEBUG | INFO | WARN | ERROR

fun level_num :: "log_level \<Rightarrow> nat" where
  "level_num DEBUG = 0" | "level_num INFO = 1" | "level_num WARN = 2" | "level_num ERROR = 3"

fun level_str :: "log_level \<Rightarrow> string" where
  "level_str DEBUG = ''DEBUG''" | "level_str INFO = ''INFO''" | "level_str WARN = ''WARN''" | "level_str ERROR = ''ERROR''"

text \<open>The loop of \<open>basename_of\<close>: \<open>base\<close> is the suffix behind the last slash seen.\<close>

fun basename_loop :: "string \<Rightarrow> string \<Rightarrow> string" where
  "basename_loop base [] = base"
| "basename_loop base (c # cs) = basename_loop (if c = CHR ''/'' then cs else base) cs"

definition basename_of :: "string \<Rightarrow> string" where
  "basename_of path = basename_loop path path"

text \<open>\<open>body\<close> is what \<open>vsnprintf\<close> makes of the format and the arguments, \<open>None\<close> if it fails.\<close>

definition format_log :: "log_level \<Rightarrow> string \<Rightarrow> nat \<Rightarrow> string option \<Rightarrow> string" where
  "format_log level file line body =
     level_str level @ '' '' @ basename_of file @ '':'' @ to_string line @ '' | '' @ (case body of None \<Rightarrow> [] | Some s \<Rightarrow> s)"

text \<open>\<open>EPOLL_LOG_IMPL\<close>; \<open>has_global\<close> says whether \<open>set_global\<close> has been given a sender.\<close>

definition epoll_log_impl :: "nat \<Rightarrow> bool \<Rightarrow> log_level \<Rightarrow> string \<Rightarrow> nat \<Rightarrow> string option
    \<Rightarrow> ('x, 'z) sender_world_scheme \<Rightarrow> ('x, 'z) sender_world_scheme" where
  "epoll_log_impl compile_level has_global level file line body w =
     (if level_num level < compile_level then w
      else if \<not> has_global then w
      else snd (sender_push (format_log level file line body) w))"

section \<open>The sender is a user of the client\<close>

lemma sender_frame [simp]:
  "sd (on_loop i f w) = sd w" "sd (on_conn c g w) = sd w" "sd (on_cl h w) = sd w" "sd (on_sd k w) = k (sd w)"
  "loops (on_sd k w) = loops w" "conns (on_sd k w) = conns w" "this_thread (on_sd k w) = this_thread w"
  "cl (on_sd k w) = cl w" "dial_script (on_sd k w) = dial_script w" "cl_next_cid (on_sd k w) = cl_next_cid w"
  "in_loop_thread i (on_sd k w) = in_loop_thread i w" "steady_now (on_sd k w) = steady_now w" "is_open c (on_sd k w) = is_open c w"
  "connected c (on_sd k w) = connected c w" "stream c (on_sd k w) = stream c w" "conn_ok c (on_sd k w) = conn_ok c w"
  by (simp_all add: on_loop_def on_conn_def on_cl_def on_sd_def in_loop_thread_def is_open_def connected_def stream_def conn_ok_def)

lemma quiet_on_sd [simp]: "quiet w (on_sd k w)"
  by (simp add: quiet_def)

lemma quiet_abort [simp]: "quiet w (loop_abort i w)"
  by (auto simp: loop_abort_def intro: quiet_on_loop)

lemma conn_adv_on_sd: "conn_ok c w \<Longrightarrow> conn_adv c w (on_sd k w)"
  using conn_adv_refl [of c w] by (simp add: conn_adv_def)

lemma sender_callbacks_quiet:
  "quiet w (sender_on_connection c w)" "quiet w (on_high_water c w)" "quiet w (on_write_complete c w)"
proof -
  let ?w1 = "\<lambda>m. on_conn c (\<lambda>cn. (set_high_water_mark_callback m cn)\<lparr>has_write_complete_cb := True\<rparr>) w"
  have "quiet w (?w1 m)" for m by (rule quiet_on_conn) (simp_all add: set_high_water_mark_callback_def)
  from quiet_trans [OF this quiet_on_sd] show "quiet w (sender_on_connection c w)" by (simp add: sender_on_connection_def Let_def)
  show "quiet w (on_high_water c w)" "quiet w (on_write_complete c w)"
    by (simp_all add: on_high_water_def on_write_complete_def)
qed

lemma sender_callbacks_conn:
  assumes "conn_ok c w"
  shows "conn_adv c w (sender_on_connection c w)" "conn_adv c w (on_high_water c w)" "conn_adv c w (on_write_complete c w)"
proof -
  have ab: "conn_adv c w (loop_abort i w)" for i
    unfolding loop_abort_def by (rule conn_adv_on_loop [OF assms]) simp_all
  let ?w1 = "\<lambda>m. on_conn c (\<lambda>cn. (set_high_water_mark_callback m cn)\<lparr>has_write_complete_cb := True\<rparr>) w"
  have "conn_adv c w (?w1 m)" for m
    using assms by (auto simp: conn_adv_def conn_ok_def Let_def is_open_def stream_def set_high_water_mark_callback_def)
  then have "conn_adv c w (on_sd k (?w1 m))" for k m
    using conn_adv_trans [OF _ conn_adv_on_sd [OF conn_adv_ok]] by blast
  then show "conn_adv c w (sender_on_connection c w)"
    using ab conn_adv_on_sd [OF assms] by (simp add: sender_on_connection_def Let_def)
  show "conn_adv c w (on_high_water c w)" "conn_adv c w (on_write_complete c w)"
    using ab conn_adv_on_sd [OF assms] conn_adv_refl [OF assms] by (simp_all add: on_high_water_def on_write_complete_def)
qed

interpretation sender_ccb: client_ccb sender_on_connection
  by unfold_locales (rule sender_callbacks_quiet)

interpretation sender_app: client_app sender_on_connection "\<lambda>_ w. w" on_high_water on_write_complete
  by unfold_locales (auto intro: client_adv_quiet sender_callbacks_quiet client_adv_refl)

interpretation sender_conn: client_conn sender_on_connection
  by unfold_locales (rule sender_callbacks_conn)

interpretation sender_user: client_user sender_on_connection "\<lambda>_ w. w" on_high_water on_write_complete
  by unfold_locales (auto intro: sender_callbacks_conn conn_adv_refl)

end
