(* ===== verification/Log_Sender_Props.thy ===== *)
theory Log_Sender_Props
  imports Log_Sender
begin

text \<open>
  What the sender does with the lines it is given: a drain puts exactly the queued lines on the stream
  of the connection, in order, framed; while it is disconnected or paused it takes nothing. Further, what
  happens when the connection breaks in the middle of a batch, on \<open>stop\<close>, and to the tick timers.
\<close>

section \<open>Frames\<close>

lemma send_rest_loops [simp]:
  "timer_queue (loops (send_rest c rest w) i) = timer_queue (loops w i)" "owner_tid (loops (send_rest c rest w) i) = owner_tid (loops w i)"
proof -
  have ch: "timer_queue (loops (with_channel c enable_writing v) i) = timer_queue (loops v i)"
    "owner_tid (loops (with_channel c enable_writing v) i) = owner_tid (loops v i)" for v :: "('a, 'b, 'c) conn_world_scheme"
    by (simp_all add: with_channel_def Let_def split_beta channel_ops channel_op_timers)
  show "timer_queue (loops (send_rest c rest w) i) = timer_queue (loops w i)" "owner_tid (loops (send_rest c rest w) i) = owner_tid (loops w i)"
    by (simp_all add: send_rest_def Let_def ch)
qed

lemma sender_sd_frame [simp]:
  "sd (with_channel c op w) = sd w" "sd (loop_abort i w) = sd w" "sd (send_rest c rest w) = sd w" "sd (conn_release c w) = sd w"
  "sd (schedule_retry w) = sd w" "sd (w\<lparr>dial_script := ds\<rparr>) = sd w"
proof -
  show wc: "sd (with_channel c op w) = sd w" for c op and w :: "('a, 'b) sender_world_scheme"
    by (simp add: with_channel_def Let_def split_beta)
  show "sd (loop_abort i w) = sd w" by (simp add: loop_abort_def)
  show "sd (send_rest c rest w) = sd w" by (simp add: send_rest_def Let_def wc)
  show "sd (conn_release c w) = sd w" by (simp add: conn_release_def Let_def wc)
  show "sd (schedule_retry w) = sd w"
    by (simp add: schedule_retry_def Let_def loop_abort_def run_after_def run_at_eq [OF alloc_timer_id_def])
  show "sd (w\<lparr>dial_script := ds\<rparr>) = sd w" by simp
qed

lemma cl_send_rest [simp]: "cl (send_rest c rest w) = cl w" "this_thread (send_rest c rest w) = this_thread w"
  by (simp_all add: send_rest_def Let_def with_channel_def split_beta)

section \<open>One payload\<close>

text \<open>The sender and its client agree on the connection.\<close>

definition sender_linked :: "nat \<Rightarrow> nat \<Rightarrow> ('x, 'z) sender_world_scheme \<Rightarrow> bool" where
  "sender_linked n c w \<longleftrightarrow> conn_ok c w \<and> connected c w \<and> client_inv n w \<and> connection (cl w) = Some c \<and> cl_has_connection_cb (cl w)
     \<and> sd_connection (sd w) = Some c \<and> snd_loop w = the_loop w"

text \<open>Closing tells the sender through its connection callback.\<close>

lemma close_sd:
  assumes "is_open c w" "has_close_cb (conns w c)" "in_loop_thread (the_loop w) w" "cl_has_connection_cb (cl w)" "snd_loop w = the_loop w"
  shows "sd (conn_close sender_close_cb c w) = (sd w)\<lparr>sd_connection := None, paused := False\<rparr>"
proof -
  define w1 where "w1 = on_conn c (\<lambda>cn. cn\<lparr>cn_state := kDisconnected\<rparr>) w"
  define w2 where "w2 = conn_release c w1"
  have q: "quiet w1 w2" by (simp add: w2_def quiet_conn_release)
  have s2: "sd w2 = sd w" "cl w2 = cl w" using q by (simp_all add: w2_def w1_def quiet_def)
  have il: "in_loop_thread (the_loop w) w2" using q assms(3) by (simp add: quiet_def in_loop_thread_def w1_def)
  have "\<not> is_open c w1" by (simp add: w1_def is_open_def)
  then have "\<not> is_open c w2" using q by (simp add: quiet_def)
  then have st: "\<not> connected c w2" by (auto simp: is_open_def connected_def)
  have "has_close_cb (conns w2 c)" using q assms(2) by (simp add: quiet_def w1_def)
  then have "conn_close sender_close_cb c w = sender_close_cb c w2"
    using assms(1) by (simp add: conn_close_def is_open_def Let_def flip: w1_def w2_def)
  also have "sd \<dots> = (sd w)\<lparr>sd_connection := None, paused := False\<rparr>"
    using il st assms(4,5) by (simp add: on_connection_closed_def s2 sender_on_connection_def Let_def)
  finally show ?thesis .
qed

lemma sender_close_clears:
  assumes "client_inv n w" "connection (cl w) = Some c" "cl_has_connection_cb (cl w)" "snd_loop w = the_loop w"
  shows "sd (conn_close sender_close_cb c w) = (sd w)\<lparr>sd_connection := None, paused := False\<rparr>"
  using client_invD(2,7,8) [OF assms(1)] assms(2-4) by (intro close_sd) auto

lemma send_payload_step:
  assumes "sender_linked n c w" "w' = send_payload p w"
  shows "is_open c w' \<Longrightarrow> sender_linked n c w' \<and> sd w' = sd w \<and> stream c w' = stream c w @ frame_encode p
      \<and> (\<forall>i. timer_queue (loops w' i) = timer_queue (loops w i))"
    "\<not> is_open c w' \<Longrightarrow> sd w' = (sd w)\<lparr>sd_connection := None, paused := False\<rparr>"
proof -
  have a: "conn_ok c w" "connected c w" "client_inv n w" "connection (cl w) = Some c" "cl_has_connection_cb (cl w)"
    "sd_connection (sd w) = Some c" "snd_loop w = the_loop w"
    using assms(1) by (simp_all add: sender_linked_def)
  have w': "w' = conn_send sender_close_cb c (frame_encode p) w" by (simp add: assms(2) send_payload_def a(6))
  have st: "cn_state (conns w c) = kConnected" using a(2) by (simp add: connected_def)
  have inv: "client_inv n w'"
    using sender_ccb.client_send_adv [OF a(3) client_invD(6) [OF a(3,4)]] by (simp add: w' client_adv_def)
  {
    assume op: "is_open c w'"
    note fr = sender_conn.send_frame [OF a(1) op [unfolded w']] and sh = sender_conn.send_shape [OF a(1) op [unfolded w']]
    have same: "cl w' = cl w \<and> sd w' = sd w \<and> (\<forall>i. timer_queue (loops w' i) = timer_queue (loops w i))"
      using sh unfolding w' by auto
    have "conn_ok c w'" using conn_adv_ok [OF sender_conn.send_adv(1) [OF a(1)]] by (simp add: w')
    moreover have "stream c w' = stream c w @ frame_encode p"
      using sender_conn.send_adv(2) [OF a(1) op [unfolded w'] st] by (simp add: w')
    moreover have "connected c w'" using fr(3) st by (simp add: connected_def w')
    ultimately show "sender_linked n c w' \<and> sd w' = sd w \<and> stream c w' = stream c w @ frame_encode p
      \<and> (\<forall>i. timer_queue (loops w' i) = timer_queue (loops w i))"
      using same inv a by (simp add: sender_linked_def)
  }
  assume cl: "\<not> is_open c w'"
  obtain r rest s where l: "send_loop (frame_encode p) (sk (conns w c)) = (r, rest, s)" by (metis prod_cases3)
  let ?w1 = "on_conn c (\<lambda>cn. cn\<lparr>sk := s\<rparr>) w"
  have op: "is_open c ?w1" "is_open c w" using st by (simp_all add: is_open_def)
  have sr: "is_open c (send_rest c d v) = is_open c v" for d and v :: "('a, 'b) sender_world_scheme"
    by (simp add: is_open_def)
  have "w' = conn_close sender_close_cb c ?w1"
    using cl op st by (auto simp: w' conn_send_def l sr Let_def split: if_splits)
  moreover have "client_inv n ?w1" by (rule quiet_inv [OF quiet_on_conn a(3)]) simp_all
  ultimately show "sd w' = (sd w)\<lparr>sd_connection := None, paused := False\<rparr>"
    using sender_close_clears [of n ?w1 c] a(4,5,7) by simp
qed

section \<open>A batch\<close>

lemma send_unconnected:
  "sd_connection (sd w) = None \<Longrightarrow> fold send_payload ps w = (if ps = [] then w else on_sd (\<lambda>s. s\<lparr>sd_null_call := True\<rparr>) w)"
proof (induction ps arbitrary: w)
  case (Cons p ps)
  let ?w = "on_sd (\<lambda>s. s\<lparr>sd_null_call := True\<rparr>) w"
  have "on_sd (\<lambda>s. s\<lparr>sd_null_call := True\<rparr>) ?w = ?w" by (simp add: on_sd_def)
  then show ?case using Cons.IH [of ?w] Cons.prems by (simp add: send_payload_def)
qed simp

text \<open>Either the connection survives and has all of the batch, or it broke at the payload number \<open>k\<close>.\<close>

lemma send_batch_cases:
  assumes "sender_linked n c w" "w' = send_batch ps w"
  shows "(is_open c w' \<longrightarrow> sender_linked n c w' \<and> sd w' = sd w \<and> stream c w' = stream c w @ concat (map frame_encode ps)
      \<and> (\<forall>i. timer_queue (loops w' i) = timer_queue (loops w i)))
    \<and> (\<not> is_open c w' \<longrightarrow> (\<exists>k < length ps. sd w' = (sd w)\<lparr>sd_connection := None, paused := False,
         sd_null_call := sd_null_call (sd w) \<or> Suc k < length ps\<rparr> \<and> is_open c (send_batch (take k ps) w) \<and> \<not> is_open c (send_batch (take (Suc k) ps) w)))"
  using assms unfolding send_batch_def
proof (induction ps arbitrary: w)
  case Nil
  then show ?case by (auto simp: sender_linked_def connected_def is_open_def)
next
  case (Cons p ps)
  define w1 where "w1 = send_payload p w"
  note s = send_payload_step [OF Cons.prems(1) w1_def]
  have w': "w' = fold send_payload ps w1" using Cons.prems(2) by (simp add: w1_def)
  show ?case
  proof (cases "is_open c w1")
    case True
    note s1 = s(1) [OF True]
    have ih: "(is_open c w' \<longrightarrow> sender_linked n c w' \<and> sd w' = sd w1 \<and> stream c w' = stream c w1 @ concat (map frame_encode ps)
        \<and> (\<forall>i. timer_queue (loops w' i) = timer_queue (loops w1 i)))
      \<and> (\<not> is_open c w' \<longrightarrow> (\<exists>k < length ps. sd w' = (sd w1)\<lparr>sd_connection := None, paused := False,
         sd_null_call := sd_null_call (sd w1) \<or> Suc k < length ps\<rparr> \<and> is_open c (fold send_payload (take k ps) w1) \<and> \<not> is_open c (fold send_payload (take (Suc k) ps) w1)))"
      using Cons.IH [of w1] s1 w' by blast
    show ?thesis
    proof (rule conjI; rule impI)
      assume "is_open c w'"
      then show "sender_linked n c w' \<and> sd w' = sd w \<and> stream c w' = stream c w @ concat (map frame_encode (p # ps))
        \<and> (\<forall>i. timer_queue (loops w' i) = timer_queue (loops w i))" using ih s1 by simp
    next
      assume "\<not> is_open c w'"
      with ih obtain k where "k < length ps" "sd w' = (sd w1)\<lparr>sd_connection := None, paused := False,
         sd_null_call := sd_null_call (sd w1) \<or> Suc k < length ps\<rparr>" "is_open c (fold send_payload (take k ps) w1)"
         "\<not> is_open c (fold send_payload (take (Suc k) ps) w1)" by blast
      then show "\<exists>k < length (p # ps). sd w' = (sd w)\<lparr>sd_connection := None, paused := False,
         sd_null_call := sd_null_call (sd w) \<or> Suc k < length (p # ps)\<rparr>
         \<and> is_open c (fold send_payload (take k (p # ps)) w) \<and> \<not> is_open c (fold send_payload (take (Suc k) (p # ps)) w)"
        using s1 by (intro exI [of _ "Suc k"]) (simp add: w1_def)
    qed
  next
    case False
    note s2 = s(2) [OF False]
    then have "w' = (if ps = [] then w1 else on_sd (\<lambda>s. s\<lparr>sd_null_call := True\<rparr>) w1)"
      using w' send_unconnected [of w1 ps] by simp
    moreover have "is_open c w" using Cons.prems(1) by (simp add: sender_linked_def connected_def is_open_def)
    ultimately show ?thesis using s2 False
      by (auto simp: w1_def split: if_splits intro!: exI [of _ 0])
  qed
qed

section \<open>Draining\<close>

lemma sender_linked_queue: "sender_linked n c w \<Longrightarrow> sender_linked n c (on_sd (\<lambda>s. s\<lparr>sd_queue := q\<rparr>) w)"
  by (auto simp: sender_linked_def intro: quiet_inv [OF quiet_on_sd])

lemma do_drain_alt:
  assumes "sender_linked n c w" "q = sd_queue (sd w)" "mpsc_inv q"
    "batch = dropped_notice (dropped q) @ take (max_batch_per_tick (sd_opts (sd w))) (contents q)"
  shows "\<exists>q2. do_drain_and_send w = send_batch batch (on_sd (\<lambda>s. s\<lparr>sd_queue := q2\<rparr>) w) \<and> mpsc_inv q2 \<and> dropped q2 = 0
    \<and> contents q2 = drop (max_batch_per_tick (sd_opts (sd w))) (contents q) \<and> qcap q2 = qcap q"
proof -
  let ?m = "max_batch_per_tick (sd_opts (sd w))"
  obtain took out q2 where d: "mpsc_drain (dropped_notice (dropped q)) ?m (q\<lparr>dropped := 0\<rparr>) = (took, out, q2)" by (metis prod_cases3)
  have inv: "mpsc_inv (q\<lparr>dropped := 0\<rparr>)" using assms(3) by simp
  note s = mpsc_drain_spec [OF inv d]
  have out: "out = batch" "dropped q2 = 0" using s(1,6) by (simp_all add: assms(4))
  have il: "in_loop_thread (snd_loop w) w" using assms(1) client_invD(2) [of n w] by (simp add: sender_linked_def)
  have none: "batch = []" if "took = 0" "dropped q = 0"
    using that s(4) by (simp add: assms(4) dropped_notice_def min_def split: if_splits flip: length_0_conv)
  have "do_drain_and_send w = send_batch batch (on_sd (\<lambda>s. s\<lparr>sd_queue := q2\<rparr>) w)"
    using il d none by (auto simp: do_drain_and_send_def take_dropped_def out send_batch_def Let_def simp flip: assms(2))
  then show ?thesis using s(2,3,5) out(2) by auto
qed

text \<open>
  One drain: if the connection survives it, exactly the notice about dropped lines (if any were
  dropped) and the first lines of the queue, up to the batch limit, have been added to the stream of the
  connection, in order and framed. In any case these lines are out of the queue, the rest stays in order
  and the drop counter starts again at zero.
\<close>

theorem sender_drain_exact:
  assumes "sender_linked n c w" "q = sd_queue (sd w)" "mpsc_inv q" "m = max_batch_per_tick (sd_opts (sd w))" "w' = do_drain_and_send w"
  shows "contents (sd_queue (sd w')) = drop m (contents q) \<and> dropped (sd_queue (sd w')) = 0 \<and> mpsc_inv (sd_queue (sd w'))
    \<and> (is_open c w' \<longrightarrow> sender_linked n c w' \<and> sd_null_call (sd w') = sd_null_call (sd w) \<and> paused (sd w') = paused (sd w)
         \<and> stream c w' = stream c w @ concat (map frame_encode (dropped_notice (dropped q) @ take m (contents q))))"
proof -
  obtain q2 where d: "w' = send_batch (dropped_notice (dropped q) @ take m (contents q)) (on_sd (\<lambda>s. s\<lparr>sd_queue := q2\<rparr>) w)"
    "mpsc_inv q2" "dropped q2 = 0" "contents q2 = drop m (contents q)"
    using do_drain_alt [OF assms(1-3) refl] assms(4,5) by blast
  from send_batch_cases [OF sender_linked_queue [OF assms(1)] d(1)] d(2-4) show ?thesis by (cases "is_open c w'") auto
qed


section \<open>Ticks\<close>

definition is_tick :: "sender_task client_task conn_task task entry \<Rightarrow> bool" where
  "is_tick e \<longleftrightarrow> timer_cb e = Some (Task (App (CliApp TickTask)))"

definition tick_timers :: "('x, 'z) sender_world_scheme \<Rightarrow> sender_task client_task conn_task task entry list" where
  "tick_timers w = filter is_tick (timers (timer_queue (loops w (snd_loop w))))"

definition next_tick :: "('x, 'z) sender_world_scheme \<Rightarrow> sender_task client_task conn_task task entry" where
  "next_tick w = \<lparr>expiration = steady_now w + tick_interval_ms (sd_opts (sd w)) * 1000000,
     timer_id = next_id (timer_queue (loops w (snd_loop w))), timer_cb = Some (Task (App (CliApp TickTask)))\<rparr>"

lemma schedule_next_tick_effect:
  assumes "in_loop_thread (snd_loop w) w" "\<not> stopped (sd w)" "w' = schedule_next_tick w"
  shows "timers (timer_queue (loops w' (snd_loop w))) = set_insert (next_tick w) (timers (timer_queue (loops w (snd_loop w))))"
    "sd w' = (sd w)\<lparr>tick_timer_id := timer_id (next_tick w)\<rparr>" "conns w' = conns w"
  using assms(1,2)
  by (simp_all add: assms(3) schedule_next_tick_def run_after_def run_at_eq [OF alloc_timer_id_def] next_tick_def)

lemma conns_schedule_next_tick [simp]: "conns (schedule_next_tick w) = conns w"
  by (simp add: schedule_next_tick_def run_after_def run_at_eq [OF alloc_timer_id_def] loop_abort_def)

lemma do_drain_open:
  assumes "sender_linked n c w" "mpsc_inv (sd_queue (sd w))" "w' = do_drain_and_send w" "is_open c w'"
  shows "sender_linked n c w'" "\<exists>q. sd w' = (sd w)\<lparr>sd_queue := q\<rparr>" "timer_queue (loops w' i) = timer_queue (loops w i)"
proof -
  obtain batch q2 where d: "w' = send_batch batch (on_sd (\<lambda>s. s\<lparr>sd_queue := q2\<rparr>) w)"
    using do_drain_alt [OF assms(1) refl assms(2) refl] assms(3) by blast
  from send_batch_cases [OF sender_linked_queue [OF assms(1)] d] assms(4)
  show "sender_linked n c w'" "\<exists>q. sd w' = (sd w)\<lparr>sd_queue := q\<rparr>" "timer_queue (loops w' i) = timer_queue (loops w i)" by auto
qed

text \<open>
  Back-pressure: a tick while there is no connection or while the sender is paused takes nothing from
  the queue, sends nothing and forgets no dropped line; it only stores the timer of the next tick.
\<close>

theorem on_tick_holds_back:
  assumes "in_loop_thread (snd_loop w) w" "\<not> stopped (sd w)" "\<not> sender_ready w \<or> paused (sd w)" "w' = on_tick w"
  shows "sd_queue (sd w') = sd_queue (sd w) \<and> conns w' = conns w \<and> sd_connection (sd w') = sd_connection (sd w)
    \<and> timers (timer_queue (loops w' (snd_loop w))) = set_insert (next_tick w) (timers (timer_queue (loops w (snd_loop w))))"
proof -
  have "w' = schedule_next_tick w" using assms by (auto simp: on_tick_def)
  from schedule_next_tick_effect [OF assms(1,2) this] show ?thesis by simp
qed

text \<open>
  Ticks multiply: a tick stores the timer of the next one, and so does the tick that a push runs early
  on an idle sender. The early tick does not cancel the stored timer, so each wake-up that finds the
  sender ready leaves one more chain of ticks, and only the newest timer is known to \<open>stop\<close>.
\<close>

theorem wake_adds_tick_chain:
  assumes "sender_linked n c w" "mpsc_inv (sd_queue (sd w))" "started (sd w)" "\<not> stopped (sd w)" "\<not> paused (sd w)"
    "w' = wake_fired w" "is_open c w'"
  shows "length (tick_timers w') = Suc (length (tick_timers w))
    \<and> (\<exists>e \<in> set (tick_timers w'). tick_timer_id (sd w') = timer_id e \<and> e \<notin> set (tick_timers w))"
proof -
  have a: "client_inv n w" "connected c w" "sd_connection (sd w) = Some c" "snd_loop w = the_loop w"
    using assms(1) by (simp_all add: sender_linked_def)
  note D = client_invD [OF a(1)]
  have il: "in_loop_thread (snd_loop w) w" using D(2) by (simp add: a(4))
  have tq: "tq_inv (timer_queue (loops w (snd_loop w)))" using D(1) by (simp add: client_base_def a(4))
  define w1 where "w1 = do_drain_and_send w"
  have w': "w' = schedule_next_tick w1"
    using il assms(3-5) a(2,3) by (simp add: assms(6) wake_fired_def on_tick_def sender_ready_def w1_def)
  have op: "is_open c w1" using assms(7) by (simp add: w' is_open_def)
  have s1: "snd_loop w1 = snd_loop w" "\<not> stopped (sd w1)" "client_inv n w1" "snd_loop w1 = the_loop w1"
    "timer_queue (loops w1 i) = timer_queue (loops w i)" for i
    using do_drain_open [OF assms(1,2) w1_def op] assms(4) by (auto simp: sender_linked_def)
  have il1: "in_loop_thread (snd_loop w1) w1" using client_invD(2) [OF s1(3)] by (simp add: s1(4))
  note e = schedule_next_tick_effect [OF il1 s1(2) w']
  let ?q = "timer_queue (loops w (snd_loop w))"
  have new: "entry_key (next_tick w1) \<notin> entry_key ` set (timers ?q)"
    using tq by (auto simp: tq_inv_def live_def next_tick_def s1(1,5))
  have tk: "is_tick (next_tick w1)" by (simp add: is_tick_def next_tick_def)
  have tt: "tick_timers w' = filter is_tick (set_insert (next_tick w1) (timers ?q))"
    using e(1,2) by (simp add: tick_timers_def s1(1,5))
  have "length (tick_timers w') = Suc (length (tick_timers w))"
    unfolding tt set_insert_count [OF new] using tk by (simp add: tick_timers_def)
  moreover have "next_tick w1 \<notin> set (timers ?q)" using new by blast
  moreover have "next_tick w1 \<in> set (set_insert (next_tick w1) (timers ?q))" using set_insert_new [of "next_tick w1" "timers ?q"] new by simp
  ultimately show ?thesis using e(2) tk unfolding tt by (auto simp: tick_timers_def)
qed

section \<open>Stopping\<close>

lemma send_batch_buffered:
  assumes "sender_linked n c w" "readable_view (output_buffer (conns w c)) \<noteq> []" "w' = send_batch ps w"
  shows "is_open c w' \<and> sk (conns w' c) = sk (conns w c)"
  using assms unfolding send_batch_def
proof (induction ps arbitrary: w)
  case Nil
  then show ?case by (simp add: sender_linked_def connected_def is_open_def)
next
  case (Cons p ps)
  define w1 where "w1 = send_payload p w"
  have a: "conn_ok c w" "cn_state (conns w c) = kConnected" "sd_connection (sd w) = Some c"
    using Cons.prems(1) by (simp_all add: sender_linked_def connected_def)
  have "\<not> buf_empty (output_buffer (conns w c))" using a(1) Cons.prems(2) by (simp add: conn_ok_def Let_def buf_empty_view)
  then have w1: "w1 = (if frame_encode p = [] then w else send_rest c (frame_encode p) w)"
    using a(2,3) by (simp add: w1_def send_payload_def conn_send_def)
  then have op: "is_open c w1" "sk (conns w1 c) = sk (conns w c)" using a(2) by (simp_all add: is_open_def)
  note s = send_payload_step(1) [OF Cons.prems(1) w1_def op(1)]
  then have "readable_view (output_buffer (conns w1 c)) = readable_view (output_buffer (conns w c)) @ frame_encode p"
    using op(2) by (simp add: stream_def)
  then show ?case using Cons.IH [of w1] s Cons.prems(2,3) op(2) by (simp add: w1_def)
qed

lemma cancel_frame [simp]: "conns (cancel_timer i k w) = conns w" "sd (cancel_timer i k v) = sd v"
  by (simp_all add: cancel_timer_eq)

lemma cancel_linked:
  assumes "sender_linked n c w"
  shows "sender_linked n c (cancel_timer i k w)"
proof -
  let ?w = "cancel_timer i k w"
  have a: "client_inv n w" "connection (cl w) = Some c" "conn_ok c w" using assms by (simp_all add: sender_linked_def)
  note D = client_invD [OF a(1)]
  have "cl_state (cl w) = CliConnected" using D(5) a(2) by simp
  moreover have "cl ?w = cl w" "cl_next_cid ?w = cl_next_cid w" by (simp_all add: cancel_timer_eq)
  moreover have "client_base ?w"
    using D(1) by (auto simp: client_base_def cancel_timer_eq in_loop_thread_def cancel_inv)
  ultimately have "client_inv n ?w" by (intro client_inv_frame [OF a(1)]) (simp_all add: is_open_def)
  moreover have "conn_ok c ?w"
  proof -
    have "conn_adv c w ?w" unfolding cancel_timer_eq
      by (rule conn_adv_on_loop [OF a(3)]) (auto simp: queue_in_loop_def push_functor_def wakeup_def Let_def)
    then show ?thesis by (rule conn_adv_ok)
  qed
  ultimately show "sender_linked n c ?w" using assms \<open>cl ?w = cl w\<close> by (simp add: sender_linked_def connected_def)
qed

lemma sender_close_keeps:
  assumes "conn_ok c w" "is_open c w" "w' = conn_close sender_close_cb c w"
  shows "wire (sk (conns w' c)) = wire (sk (conns w c))" "output_buffer (conns w' c) = output_buffer (conns w c)" "\<not> is_open c w'"
proof -
  define w1 where "w1 = conn_release c (on_conn c (\<lambda>cn. cn\<lparr>cn_state := kDisconnected\<rparr>) w)"
  note r = conn_close_released [OF assms(1,2) w1_def]
  have "conns (schedule_retry v) = conns v" for v :: "('a, 'b) sender_world_scheme"
    by (simp add: schedule_retry_def Let_def loop_abort_def run_after_def run_at_eq [OF alloc_timer_id_def])
  then have "conns (sender_close_cb c w1) = conns w1"
    using r(2) by (simp add: on_connection_closed_def sender_on_connection_def loop_abort_def connected_def Let_def)
  then have "conns w' = conns w1"
    using assms(2) by (simp add: assms(3) conn_close_def is_open_def flip: w1_def)
  then show "wire (sk (conns w' c)) = wire (sk (conns w c))" "output_buffer (conns w' c) = output_buffer (conns w c)" "\<not> is_open c w'"
    using r by (simp_all add: is_open_def)
qed

lemma client_destroy_conns: "connection (cl w) = None \<Longrightarrow> conns (client_destroy ccb w) = conns w"
  by (simp add: client_destroy_def close_connecting_fd_def drop_connect_channel_def loop_abort_def split_beta Let_def split: option.split)

lemma shutdown_pending_effect:
  assumes "conn_ok c w" "connected c w" "readable_view (output_buffer (conns w c)) \<noteq> []" "w' = conn_shutdown c w"
  shows "conn_ok c w'" "is_open c w'" "client_inv n w \<Longrightarrow> client_inv n w'" "cl w' = cl w" "sk (conns w' c) = sk (conns w c)"
    "output_buffer (conns w' c) = output_buffer (conns w c)" "sd w' = sd w"
proof -
  have ne: "\<not> buf_empty (output_buffer (conns w c))" using assms(1,3) by (simp add: conn_ok_def Let_def buf_empty_view)
  let ?w1 = "on_conn c (\<lambda>cn. cn\<lparr>cn_state := kDisconnecting\<rparr>) w"
  have w': "w' = on_conn c (\<lambda>cn. cn\<lparr>shutdown_pending := True\<rparr>) ?w1"
    using assms(2) ne conn_ok_in_loop [OF assms(1)]
    by (simp add: assms(4) conn_shutdown_def run_in_loop_def shutdown_in_loop_def connected_def in_loop_thread_def)
  show "conn_ok c w'" using conn_adv_ok [OF sender_conn.shutdown_adv [OF assms(1)]] by (simp add: assms(4))
  show "is_open c w'" "cl w' = cl w" "sk (conns w' c) = sk (conns w c)" "output_buffer (conns w' c) = output_buffer (conns w c)" "sd w' = sd w"
    by (simp_all add: w' is_open_def)
  have "quiet w ?w1" using assms(2) by (intro quiet_on_conn) (simp_all add: connected_def)
  moreover have "quiet ?w1 w'" unfolding w' by (rule quiet_on_conn) simp_all
  ultimately have "quiet w w'" by (rule quiet_trans)
  then show "client_inv n w \<Longrightarrow> client_inv n w'" by (rule quiet_inv)
qed

text \<open>
  \<open>stop\<close> loses what is still buffered: it half-closes the connection, which is to let pending output
  drain, but then disconnects the client, which closes the connection at once. If there is pending output
  when \<open>stop\<close> runs, nothing more of it reaches the kernel: it is discarded together with the lines that
  \<open>stop\<close> has just drained from the queue.
\<close>

theorem stop_discards_output:
  assumes "sender_linked n c w" "mpsc_inv (sd_queue (sd w))" "\<not> stopped (sd w)" "q = sd_queue (sd w)"
    "readable_view (output_buffer (conns w c)) \<noteq> []" "w' = stop_in_loop w"
  shows "\<not> is_open c w' \<and> wire (sk (conns w' c)) = wire (sk (conns w c))
    \<and> readable_view (output_buffer (conns w' c)) = readable_view (output_buffer (conns w c))
        @ concat (map frame_encode (dropped_notice (dropped q) @ take (max_batch_per_tick (sd_opts (sd w))) (contents q)))"
proof -
  have il: "in_loop_thread (snd_loop w) w" using assms(1) client_invD(2) [of n w] by (simp add: sender_linked_def)
  define w1 where "w1 = on_sd (\<lambda>s. s\<lparr>stopped := True\<rparr>) w"
  define w2 where "w2 = (if tick_timer_id (sd w1) \<noteq> 0
    then on_sd (\<lambda>s. s\<lparr>tick_timer_id := 0\<rparr>) (cancel_timer (snd_loop w1) (tick_timer_id (sd w1)) w1) else w1)"
  have lk: "sender_linked n c (on_sd k v)" if "sender_linked n c v" "\<And>s. sd_connection (k s) = sd_connection s \<and> sender_loop (k s) = sender_loop s"
    for k and v :: "('a, 'b) sender_world_scheme"
    using that by (auto simp: sender_linked_def intro: quiet_inv [OF quiet_on_sd])
  have l1: "sender_linked n c w1" unfolding w1_def by (rule lk [OF assms(1)]) simp
  have l2: "sender_linked n c w2" unfolding w2_def using l1 by (auto intro!: lk cancel_linked)
  have s2: "conns w2 = conns w" "sd_queue (sd w2) = q" "sd_opts (sd w2) = sd_opts (sd w)"
    by (simp_all add: w2_def w1_def assms(4))
  define w3 where "w3 = do_drain_and_send w2"
  have q: "mpsc_inv (sd_queue (sd w2))" using assms(2,4) by (simp add: s2)
  obtain batch q2 where b: "w3 = send_batch batch (on_sd (\<lambda>s. s\<lparr>sd_queue := q2\<rparr>) w2)"
    "batch = dropped_notice (dropped q) @ take (max_batch_per_tick (sd_opts (sd w))) (contents q)"
    using do_drain_alt [OF l2 refl q refl] by (auto simp: w3_def s2)
  have bf: "is_open c w3" "sk (conns w3 c) = sk (conns w c)"
    using send_batch_buffered [OF sender_linked_queue [OF l2] _ b(1)] assms(5) by (simp_all add: s2)
  note d = do_drain_open(1) [OF l2 q w3_def bf(1)]
  have st3: "stream c w3 = stream c w2 @ concat (map frame_encode batch)"
    using send_batch_cases [OF sender_linked_queue [OF l2] b(1)] bf(1) by simp
  then have out3: "readable_view (output_buffer (conns w3 c)) = readable_view (output_buffer (conns w c)) @ concat (map frame_encode batch)"
    using bf(2) by (simp add: stream_def s2)
  define w4 where "w4 = conn_shutdown c w3"
  have a3: "conn_ok c w3" "connected c w3" "client_inv n w3" "connection (cl w3) = Some c" "sd_connection (sd w3) = Some c"
    using d by (simp_all add: sender_linked_def)
  note sh = shutdown_pending_effect [OF a3(1,2) _ w4_def]
  have s4: "conn_ok c w4" "is_open c w4" "client_inv n w4" "cl w4 = cl w3" "sk (conns w4 c) = sk (conns w c)"
    "output_buffer (conns w4 c) = output_buffer (conns w3 c)" "in_loop_thread (the_loop w4) w4"
    using sh out3 assms(5) a3(3) bf(2) client_invD(2) [OF sh(3)] by auto
  define w5 where "w5 = client_disconnect sender_on_connection w4"
  have "cl_state (cl w4) = CliConnected" using client_invD(5) [OF s4(3)] s4(4) a3(4) by simp
  then have w5: "w5 = conn_close sender_close_cb c (on_cl (\<lambda>k. k\<lparr>retry_enabled := False\<rparr>) w4)" "w5 = disconnect_in_loop sender_on_connection w4"
    using s4(4,7) a3(4) by (simp_all add: w5_def client_disconnect_def run_in_loop_def disconnect_in_loop_def)
  note e = sender_ccb.disconnect_in_loop_effect [OF s4(3) w5(2)]
  have none: "connection (cl w5) = None" using client_invD(5,10) [OF e(1)] e(2) by auto
  note k = sender_close_keeps [OF _ _ w5(1)]
  have "conn_ok c (on_cl (\<lambda>k. k\<lparr>retry_enabled := False\<rparr>) w4)" by (rule conn_adv_ok [OF conn_adv_on_cl [OF s4(1)]])
  note k = k [OF this]
  have rdy: "sender_ready w2" using l2 by (simp add: sender_ready_def sender_linked_def)
  have "w' = on_sd (\<lambda>s. s\<lparr>sd_client_alive := False\<rparr>)
      (client_destroy sender_on_connection (on_sd (\<lambda>s. s\<lparr>sd_connection := None\<rparr>) w5))"
    unfolding assms(6) stop_in_loop_def Let_def w1_def [symmetric] w2_def [symmetric]
    by (simp only: il assms(3) rdy not_True_eq_False if_False if_True flip: w3_def) (simp only: a3(5) option.case flip: w4_def w5_def)
  then have fin: "conns w' = conns w5" using none by (simp add: client_destroy_conns)
  show ?thesis using k s4(2,5,6) out3 by (simp add: fin is_open_def flip: b(2))
qed

section \<open>A sender with a connection and two queued lines\<close>

definition sample_queue :: "bytes mpsc" where
  "sample_queue = snd (mpsc_push ''b'' (snd (mpsc_push ''a'' (new_mpsc [] 4))))"

definition sample_sender :: "wr_result list \<Rightarrow> bool \<Rightarrow> unit sender_world" where
  "sample_sender ws p = \<lparr>loops = (\<lambda>i. new_event_loop i 5 6 []), this_thread = 0, steady_now = 100,
     conns = (\<lambda>_. (new_connection 0 9 [] [] ws)\<lparr>has_close_cb := True\<rparr>),
     cl = (new_client 0 [])\<lparr>cl_has_connection_cb := True, cl_state := CliConnected, connection := Some 0, retry_enabled := True, backoff_ms := 500\<rparr>,
     dial_script = [], handshake = (0, [], []), cl_next_cid = 1,
     sd = \<lparr>sender_loop = 0, sd_opts = default_options, sd_client_alive = True, sd_queue = sample_queue, sd_connection = Some 0, paused = p,
           tick_timer_id = 0, started = True, stopped = False, sd_null_call = False\<rparr>\<rparr>"

lemma sample_queue_props: "mpsc_inv sample_queue" "contents sample_queue = [''a'', ''b'']" "dropped sample_queue = 0"
  by code_simp+

lemma sample_sender_linked: "sender_linked 0 0 (sample_sender ws p)"
proof -
  have "conn_ok 0 (sample_sender ws p)"
    by (simp add: conn_ok_def sample_sender_def new_connection_def registered_def new_event_loop_def channel_ops
      update_channel_def epoll_add_def ctl_fault_def new_channel_def is_writing_def)
  moreover have "client_inv 0 (sample_sender ws p)"
    by (simp add: client_inv_def client_base_def sample_sender_def in_loop_thread_def new_client_def backoff_ok_def is_open_def new_connection_def)
  ultimately show ?thesis by (simp add: sender_linked_def) (simp add: sample_sender_def connected_def new_connection_def new_client_def)
qed

lemma sample_sender_sd [simp]: "sd_queue (sd (sample_sender ws p)) = sample_queue" "snd_loop (sample_sender ws p) = 0"
  "max_batch_per_tick (sd_opts (sd (sample_sender ws p))) = 1000" "started (sd (sample_sender ws p))" "\<not> stopped (sd (sample_sender ws p))"
  "paused (sd (sample_sender ws p)) = p" "\<not> sd_null_call (sd (sample_sender ws p))" "in_loop_thread 0 (sample_sender ws p)"
  by (simp_all add: sample_sender_def default_options_def in_loop_thread_def)

lemma frame_not_Nil [simp]: "frame_encode p \<noteq> []"
  by (simp add: frame_encode_eq be_bytes_4)

text \<open>A full kernel buffer breaks nothing, and a write error on an idle connection closes it.\<close>

lemma send_batch_blocked:
  assumes "sender_linked n c w" "wr_script (sk (conns w c)) = []" "w' = send_batch ps w"
  shows "is_open c w' \<and> sk (conns w' c) = sk (conns w c)"
  using assms unfolding send_batch_def
proof (induction ps arbitrary: w)
  case Nil
  then show ?case by (simp add: sender_linked_def connected_def is_open_def)
next
  case (Cons p ps)
  define w1 where "w1 = send_payload p w"
  have a: "conn_ok c w" "cn_state (conns w c) = kConnected" "sd_connection (sd w) = Some c"
    using Cons.prems(1) by (simp_all add: sender_linked_def connected_def)
  have w1: "w1 = conn_send sender_close_cb c (frame_encode p) w" by (simp add: w1_def send_payload_def a(3))
  note o = sender_conn.send_blocked_open [OF a(1,2) Cons.prems(2), of "frame_encode p"]
  then have op: "is_open c w1" "sk (conns w1 c) = sk (conns w c)" by (simp_all add: w1 is_open_def)
  from Cons.IH [of w1] send_payload_step(1) [OF Cons.prems(1) w1_def op(1)] op(2) Cons.prems(2,3) show ?case by (simp add: w1_def)
qed

lemma do_drain_blocked:
  assumes "sender_linked n c w" "mpsc_inv (sd_queue (sd w))" "wr_script (sk (conns w c)) = []"
  shows "is_open c (do_drain_and_send w)"
proof -
  obtain batch q2 where d: "do_drain_and_send w = send_batch batch (on_sd (\<lambda>s. s\<lparr>sd_queue := q2\<rparr>) w)"
    using do_drain_alt [OF assms(1) refl assms(2) refl] by blast
  from send_batch_blocked [OF sender_linked_queue [OF assms(1)] _ d] assms(3) show ?thesis by simp
qed

lemma send_batch_fails:
  assumes "sender_linked n c w" "wr_script (sk (conns w c)) = WErr # ws" "readable_view (output_buffer (conns w c)) = []" "ps \<noteq> []"
  shows "\<not> is_open c (send_batch ps w)"
proof -
  obtain p qs where ps: "ps = p # qs" using assms(4) by (cases ps) auto
  have a: "conn_ok c w" "cn_state (conns w c) = kConnected" "sd_connection (sd w) = Some c"
    using assms(1) by (simp_all add: sender_linked_def connected_def)
  define w1 where "w1 = send_payload p w"
  have sk: "\<not> sk_closed (sk (conns w c)) \<and> \<not> shut_wr (sk (conns w c))" "buffer_inv (output_buffer (conns w c))"
    using a(1,2) by (auto simp: conn_ok_def Let_def)
  define s where "s = (sk (conns w c))\<lparr>wr_script := ws\<rparr>"
  have l: "send_loop (frame_encode p) (sk (conns w c)) = (IoError, frame_encode p, s)"
    using assms(2) sk(1) by (subst send_loop.simps) (simp add: sys_write_def s_def)
  have "w1 = conn_close sender_close_cb c (on_conn c (\<lambda>cn. cn\<lparr>sk := s\<rparr>) w)"
    using a(2,3) sk(2) assms(3) by (simp add: w1_def send_payload_def conn_send_def l buf_empty_view)
  moreover have "conn_ok c (on_conn c (\<lambda>cn. cn\<lparr>sk := s\<rparr>) w)" using a(1) by (auto simp: conn_ok_def Let_def s_def)
  ultimately have "\<not> is_open c w1" using sender_conn.close_closes by blast
  with send_payload_step(2) [OF assms(1) w1_def] have "\<not> is_open c (fold send_payload qs w1)"
    by (subst send_unconnected) auto
  then show ?thesis by (simp add: ps send_batch_def w1_def)
qed

lemma sample_sender_conn [simp]: "wr_script (sk (conns (sample_sender ws p) 0)) = ws"
  "readable_view (output_buffer (conns (sample_sender ws p) 0)) = []" "stream 0 (sample_sender ws p) = []"
  "wire (sk (conns (sample_sender ws p) 0)) = []"
  by (simp_all add: sample_sender_def new_connection_def stream_def)

theorem sender_drain_exact_witness:
  "stream 0 (do_drain_and_send (sample_sender [] False)) = frame_encode ''a'' @ frame_encode ''b''"
proof -
  have "is_open 0 (do_drain_and_send (sample_sender [] False))"
    by (rule do_drain_blocked [OF sample_sender_linked]) (simp_all add: sample_queue_props)
  with sender_drain_exact [OF sample_sender_linked refl _ refl refl, of "[]" False] show ?thesis
    by (simp add: sample_queue_props dropped_notice_def)
qed


theorem on_tick_holds_back_witness:
  "contents (sd_queue (sd (on_tick (sample_sender [] True)))) = [''a'', ''b'']"
  using on_tick_holds_back [of "sample_sender [] True", OF _ _ _ refl] by (simp add: sample_queue_props)

theorem wake_adds_tick_chain_witness:
  "length (tick_timers (wake_fired (sample_sender [] False))) = Suc (length (tick_timers (sample_sender [] False)))"
proof -
  let ?w = "sample_sender [] False"
  have "sender_ready ?w" using sample_sender_linked [of "[]" False] by (simp add: sender_ready_def sender_linked_def)
  then have "wake_fired ?w = schedule_next_tick (do_drain_and_send ?w)" by (simp add: wake_fired_def on_tick_def)
  moreover have "is_open 0 (do_drain_and_send ?w)" by (rule do_drain_blocked [OF sample_sender_linked]) (simp_all add: sample_queue_props)
  ultimately have "is_open 0 (wake_fired ?w)" by (simp add: is_open_def)
  with wake_adds_tick_chain [OF sample_sender_linked _ _ _ _ refl, of "[]" False] show ?thesis by (simp add: sample_queue_props)
qed

theorem stop_discards_output_witness:
  "wire (sk (conns (stop_in_loop (send_payload ''x'' (sample_sender [] False))) 0)) = []"
proof -
  let ?w = "send_payload ''x'' (sample_sender [] False)"
  have b: "is_open 0 ?w \<and> sk (conns ?w 0) = sk (conns (sample_sender [] False) 0)"
    using send_batch_blocked [OF sample_sender_linked _ refl, of "[]" False "[''x'']"] by (simp add: send_batch_def)
  note s = send_payload_step(1) [OF sample_sender_linked refl b [THEN conjunct1]]
  then have "readable_view (output_buffer (conns ?w 0)) \<noteq> []" using b by (auto simp: stream_def)
  with stop_discards_output [OF _ _ _ refl _ refl, of 0 0 ?w] s b show ?thesis by (simp add: sample_queue_props)
qed

end
