(* ===== verification/Echo_Server.thy ===== *)
theory Echo_Server
  imports Http_Server Log_Sender_Props
begin

text \<open>
  \<open>src/main.cpp\<close>: the echo server. Each connection has an idle timer, whose number is the context of the
  connection; every message sets it anew, and when it fires the connection is closed. What happens is
  reported through the logging macros: the world holds the queue of the sender that \<open>set_global\<close> has
  registered, if any, and how often a push asked for a wake-up of its loop.
\<close>

section \<open>State\<close>

datatype echo_task = IdleKick nat

record echo_world = "(echo_task, nat) server_world" +
  global_log :: "bytes mpsc option"
  log_wakes :: nat
  null_context :: bool

definition kIdleTimeoutMs :: int where
  "kIdleTimeoutMs = 10000"

definition kPreviewMax :: nat where
  "kPreviewMax = 200"

section \<open>Logging\<close>

text \<open>What \<open>printf\<close> makes of \<open>%d\<close> and of \<open>%s\<close>.\<close>

definition show_int :: "int \<Rightarrow> string" where
  "show_int i = (if i < 0 then CHR ''-'' # to_string (nat (- i)) else to_string (nat i))"

definition c_str :: "string \<Rightarrow> string" where
  "c_str s = takeWhile (\<lambda>c. c \<noteq> CHR 0x00) s"

text \<open>A \<open>LOG_*\<close> in \<open>main.cpp\<close>; \<open>LOG_COMPILE_LEVEL\<close> is 0.\<close>

definition echo_log :: "log_level \<Rightarrow> nat \<Rightarrow> string \<Rightarrow> 'z echo_world_scheme \<Rightarrow> 'z echo_world_scheme" where
  "echo_log level line body w =
     (case global_log w of
        None \<Rightarrow> w
      | Some q \<Rightarrow>
          let (r, q1) = mpsc_push (format_log level ''src/main.cpp'' line (Some body)) q
          in w\<lparr>global_log := Some q1, log_wakes := (if wake_up r then log_wakes w + 1 else log_wakes w)\<rparr>)"

definition log_peer :: "nat \<Rightarrow> 'z echo_world_scheme \<Rightarrow> string" where
  "log_peer c w = ''fd='' @ show_int (cn_fd (conns w c)) @ '' peer='' @ c_str (cn_peer (conns w c))"

section \<open>The idle timer\<close>

definition set_idle :: "nat \<Rightarrow> nat \<Rightarrow> 'z echo_world_scheme \<Rightarrow> 'z echo_world_scheme" where
  "set_idle c k = on_conn c (\<lambda>cn. cn\<lparr>cn_context := Some k\<rparr>)"

definition arm_idle_timer :: "nat \<Rightarrow> 'z echo_world_scheme \<Rightarrow> 'z echo_world_scheme" where
  "arm_idle_timer c w =
     (case cn_context (conns w c) of
        None \<Rightarrow> w\<lparr>null_context := True\<rparr>
      | Some tid \<Rightarrow>
          let w1 = (if tid \<noteq> 0 then set_idle c 0 (cancel_timer (loop_of c w) tid w) else w);
              (k, w2) = run_after (loop_of c w) kIdleTimeoutMs (Some (Task (App (SrvApp (IdleKick c))))) w1
          in set_idle c k w2)"

section \<open>Callbacks\<close>

definition echo_on_connection :: "nat \<Rightarrow> 'z echo_world_scheme \<Rightarrow> 'z echo_world_scheme" where
  "echo_on_connection c w =
     (if connected c w
      then let w1 = arm_idle_timer c (set_idle c 0 w) in echo_log INFO 110 (''connected '' @ log_peer c w1) w1
      else let w1 = (case cn_context (conns w c) of
                       None \<Rightarrow> w
                     | Some tid \<Rightarrow> if tid \<noteq> 0 then set_idle c 0 (cancel_timer (loop_of c w) tid w) else w)
           in echo_log INFO 118 (''disconnected '' @ log_peer c w1) w1)"

abbreviation echo_close_cb :: "nat \<Rightarrow> 'z echo_world_scheme \<Rightarrow> 'z echo_world_scheme" where
  "echo_close_cb \<equiv> server_close_cb echo_on_connection"

definition idle_kick :: "nat \<Rightarrow> 'z echo_world_scheme \<Rightarrow> 'z echo_world_scheme" where
  "idle_kick c w =
     (if \<not> cn_alive (conns w c) \<or> \<not> connected c w then w
      else conn_close echo_close_cb c
             (echo_log WARN 64 (''idle kick '' @ log_peer c w @ '' after '' @ show_int kIdleTimeoutMs @ ''ms idle'') w))"

text \<open>One line of the payload for the log.\<close>

definition preview :: "bytes \<Rightarrow> string" where
  "preview data =
     (let p = map (\<lambda>c. if c = CHR 0x0A \<or> c = CHR 0x0D then CHR '' '' else c) data
      in if length p > kPreviewMax then take kPreviewMax p @ ''...'' else p)"

text \<open>\<open>data.find(sub) != npos\<close>.\<close>

fun has_sub :: "string \<Rightarrow> string \<Rightarrow> bool" where
  "has_sub sub [] = (sub = [])"
| "has_sub sub (c # cs) = (take (length sub) (c # cs) = sub \<or> has_sub sub cs)"

text \<open>The texts of the two \<open>LOG_*\<close> of the message callback.\<close>

definition recv_line :: "nat \<Rightarrow> bytes \<Rightarrow> 'z echo_world_scheme \<Rightarrow> string" where
  "recv_line c data w = ''recv '' @ to_string (length data) @ '' bytes from '' @ log_peer c w @ '' | '' @ [CHR 0x22]
     @ c_str (preview data) @ [CHR 0x22]"

definition boom_line :: "nat \<Rightarrow> 'z echo_world_scheme \<Rightarrow> string" where
  "boom_line c w = ''business error triggered by client '' @ log_peer c w @ '' (payload had '' @ [CHR 0x27] @ ''BOOM'' @ [CHR 0x27] @ '')''"

definition echo_on_message :: "nat \<Rightarrow> 'z echo_world_scheme \<Rightarrow> 'z echo_world_scheme" where
  "echo_on_message c w =
     (let (data, b) = retrieve_all_as_string (input_buffer (conns w c));
          w1 = on_conn c (\<lambda>cn. cn\<lparr>input_buffer := b\<rparr>) w;
          w2 = echo_log DEBUG 138 (recv_line c data w1) w1;
          w3 = (if has_sub ''BOOM'' data then echo_log ERROR 145 (boom_line c w2) w2 else w2);
          w4 = conn_send echo_close_cb c data w3
      in arm_idle_timer c w4)"

fun run_echo_task :: "echo_task \<Rightarrow> 'z echo_world_scheme \<Rightarrow> 'z echo_world_scheme" where
  "run_echo_task (IdleKick c) w = idle_kick c w"

section \<open>The echo server is a server application\<close>

text \<open>Steps that the connection does not notice.\<close>

lemma echo_log_frame [simp]:
  "conns (echo_log l n s w) = conns w" "loops (echo_log l n s w) = loops w" "this_thread (echo_log l n s w) = this_thread w"
  "connections (echo_log l n s w) = connections w" "steady_now (echo_log l n s w) = steady_now w"
  by (simp_all add: echo_log_def split: option.split prod.split)

lemma conn_adv_echo_log: "conn_ok c w \<Longrightarrow> conn_adv c w (echo_log l n s w)"
  using conn_adv_refl [of c w] by (subst conn_adv_cong(4) [where ?w1.0 = w]) simp_all

lemma conn_adv_cancel: "conn_ok c w \<Longrightarrow> conn_adv c w (cancel_timer i k w)"
  unfolding cancel_timer_eq by (rule conn_adv_on_loop) (auto simp: queue_in_loop_def push_functor_def wakeup_def Let_def)

lemma conn_adv_set_idle: "conn_ok c w \<Longrightarrow> conn_adv c w (set_idle c k w)"
  unfolding set_idle_def by (rule conn_adv_context)

lemma timer_connections [simp]:
  "connections (cancel_timer i k w) = connections w" "connections (snd (run_after i d cb w)) = connections w"
  "connections (set_idle c k v) = connections v"
  by (simp_all add: cancel_timer_eq run_after_def run_at_eq [OF alloc_timer_id_def] set_idle_def)

lemma arm_connections [simp]: "connections (arm_idle_timer c w) = connections w"
  by (simp add: arm_idle_timer_def split_beta Let_def split: option.split)

lemma arm_adv:
  assumes "conn_ok c w"
  shows "conn_adv c w (arm_idle_timer c w)"
proof (cases "cn_context (conns w c)")
  case None
  have "conn_adv c w (w\<lparr>null_context := True\<rparr>)"
    using conn_adv_refl [OF assms] by (subst conn_adv_cong(4) [where ?w1.0 = w]) simp_all
  then show ?thesis by (simp add: arm_idle_timer_def None)
next
  case (Some k)
  define w1 where "w1 = (if k \<noteq> 0 then set_idle c 0 (cancel_timer (loop_of c w) k w) else w)"
  have a1: "conn_adv c w w1"
    using conn_adv_trans [OF conn_adv_cancel [OF assms] conn_adv_set_idle [OF conn_adv_ok [OF conn_adv_cancel [OF assms]]]]
      conn_adv_refl [OF assms] by (simp add: w1_def)
  note a2 = conn_adv_trans [OF a1 conn_adv_run_after [OF conn_adv_ok [OF a1]]]
  show ?thesis
    unfolding arm_idle_timer_def Some option.case Let_def w1_def [symmetric] split_beta
    by (rule conn_adv_trans [OF a2 conn_adv_set_idle [OF conn_adv_ok [OF a2]]])
qed

lemma echo_on_connection_adv:
  assumes "conn_ok c w"
  shows "conn_adv c w (echo_on_connection c w)"
proof -
  note a1 = conn_adv_set_idle [OF assms, of 0]
  note a2 = conn_adv_trans [OF a1 arm_adv [OF conn_adv_ok [OF a1]]]
  note a3 = conn_adv_trans [OF conn_adv_cancel [OF assms] conn_adv_set_idle [OF conn_adv_ok [OF conn_adv_cancel [OF assms]]]]
  note l = conn_adv_trans [OF _ conn_adv_echo_log [OF conn_adv_ok]]
  show ?thesis
    using l [OF a2 a2] l [OF a3 a3] l [OF conn_adv_refl [OF assms] conn_adv_refl [OF assms]]
    by (auto simp: echo_on_connection_def Let_def split: option.split)
qed

interpretation echo_ccb: server_ccb echo_on_connection
  by unfold_locales (simp add: echo_on_connection_adv, simp add: echo_on_connection_def Let_def split: option.split)

lemma retrieve_all_string:
  assumes "buffer_inv b" "retrieve_all_as_string b = (data, b')"
  shows "data = readable_view b" "buffer_inv b'" "readable_view b' = []"
proof -
  show "data = readable_view b"
    using assms mem_read_front [of "readable_bytes b" b] by (simp add: retrieve_all_as_string_def flip: length_readable_view)
  show "buffer_inv b'" "readable_view b' = []"
    using assms by (auto simp: retrieve_all_as_string_def retrieve_all_def buffer_inv_def readable_view_def kPrependSize_def buffer_defs mem_read_def)
qed

lemma send_rest_more: "loop_of c (send_rest c rest w) = loop_of c w" "steady_now (send_rest c rest w) = steady_now w"
  by (simp_all add: send_rest_def Let_def with_channel_def split_beta)

text \<open>The callback up to the \<open>send\<close>, and the whole.\<close>

lemma echo_on_message_alt:
  assumes "conn_ok c w" "data = readable_view (input_buffer (conns w c))"
  shows "\<exists>v. conn_adv c w v \<and> echo_on_message c w = arm_idle_timer c (conn_send echo_close_cb c data v)
    \<and> cn_state (conns v c) = cn_state (conns w c) \<and> cn_context (conns v c) = cn_context (conns w c) \<and> loop_of c v = loop_of c w
    \<and> stream c v = stream c w \<and> sk (conns v c) = sk (conns w c) \<and> readable_view (input_buffer (conns v c)) = [] \<and> loops v = loops w \<and> steady_now v = steady_now w"
proof -
  obtain d b where r: "retrieve_all_as_string (input_buffer (conns w c)) = (d, b)" by fastforce
  have "buffer_inv (input_buffer (conns w c))" using assms(1) by (simp add: conn_ok_def Let_def)
  note b = retrieve_all_string [OF this r]
  define w1 where "w1 = on_conn c (\<lambda>cn. cn\<lparr>input_buffer := b\<rparr>) w"
  have a1: "conn_adv c w w1"
    using assms(1) b(2) by (auto simp: w1_def conn_adv_def conn_ok_def Let_def is_open_def stream_def)
  define w2 where "w2 = echo_log DEBUG 138 (recv_line c data w1) w1"
  define v where "v = (if has_sub ''BOOM'' data then echo_log ERROR 145 (boom_line c w2) w2 else w2)"
  have m: "echo_on_message c w = arm_idle_timer c (conn_send echo_close_cb c data v)"
    unfolding echo_on_message_def r Let_def prod.case b(1) assms(2) [symmetric] w1_def [symmetric] w2_def [symmetric] v_def [symmetric] ..
  have fr: "conns v = conns w1" "loops v = loops w1" "this_thread v = this_thread w1" "steady_now v = steady_now w1" by (simp_all add: v_def w2_def)
  then have "conn_adv c w v" using a1 by (subst conn_adv_cong(4) [where ?w1.0 = w1]) simp_all
  with m fr b(3) show ?thesis
    by (intro exI [of _ v]) (simp add: w1_def stream_def)
qed

lemma echo_on_message_adv:
  assumes "conn_ok c w"
  shows "conn_adv c w (echo_on_message c w)"
proof -
  obtain v data where v: "conn_adv c w v" "echo_on_message c w = arm_idle_timer c (conn_send echo_close_cb c data v)"
    using echo_on_message_alt [OF assms refl] by blast
  note s = conn_adv_trans [OF v(1) echo_ccb.send_adv(1) [OF conn_adv_ok [OF v(1)], of data]]
  show ?thesis unfolding v(2) by (rule conn_adv_trans [OF s arm_adv [OF conn_adv_ok [OF s]]])
qed

interpretation echo_app: server_app echo_on_connection echo_on_message
  by unfold_locales (rule echo_on_message_adv)

section \<open>Properties\<close>

text \<open>The idle timers of a connection, and what holds of them between two callbacks.\<close>

definition kick_timers :: "nat \<Rightarrow> 'z echo_world_scheme \<Rightarrow> echo_task server_task conn_task task entry set" where
  "kick_timers c w = {e \<in> live (timer_queue (loops w (loop_of c w))). timer_cb e = Some (Task (App (SrvApp (IdleKick c))))}"

definition idle_armed :: "nat \<Rightarrow> 'z echo_world_scheme \<Rightarrow> bool" where
  "idle_armed c w \<longleftrightarrow> tq_inv (timer_queue (loops w (loop_of c w))) \<and> 0 < next_id (timer_queue (loops w (loop_of c w)))
     \<and> (\<exists>k. cn_context (conns w c) = Some k \<and> timer_id ` kick_timers c w \<subseteq> {k} - {0})"

lemma arm_exactly_one:
  assumes "conn_ok c w" "idle_armed c w" "w' = arm_idle_timer c w"
  shows "idle_armed c w'" "stream c w' = stream c w" "is_open c w' = is_open c w" "input_buffer (conns w' c) = input_buffer (conns w c)"
    "cn_state (conns w' c) = cn_state (conns w c)"
    "\<exists>k. cn_context (conns w' c) = Some k \<and> k \<noteq> 0 \<and> kick_timers c w'
       = {\<lparr>expiration = steady_now w + 10000000000, timer_id = k, timer_cb = Some (Task (App (SrvApp (IdleKick c))))\<rparr>}"
proof -
  let ?i = "loop_of c w" and ?cb = "Some (Task (App (SrvApp (IdleKick c))))"
  define q where "q = timer_queue (loops w ?i)"
  obtain k where k: "cn_context (conns w c) = Some k" "timer_id ` kick_timers c w \<subseteq> {k} - {0}" "tq_inv q" "0 < next_id q"
    using assms(2) by (auto simp: idle_armed_def q_def)
  have il: "in_loop_thread ?i w" by (rule conn_ok_in_loop [OF assms(1)])
  define q1 where "q1 = (if k \<noteq> 0 then cancel_in_loop (steady_now w) k q else q)"
  define w1 where "w1 = (if k \<noteq> 0 then set_idle c 0 (cancel_timer ?i k w) else w)"
  define e where "e = \<lparr>expiration = steady_now w + 10000000000, timer_id = next_id q, timer_cb = ?cb\<rparr>"
  have q1: "tq_inv q1" "next_id q1 = next_id q" using k(3) by (simp_all add: q1_def cancel_inv)
  have w1: "timer_queue (loops w1 ?i) = q1" "in_loop_thread ?i w1" "steady_now w1 = steady_now w" "loop_of c w1 = ?i"
    "stream c w1 = stream c w" "is_open c w1 = is_open c w" "input_buffer (conns w1 c) = input_buffer (conns w c)"
    "cn_state (conns w1 c) = cn_state (conns w c)"
    using il by (simp_all add: w1_def q1_def q_def set_idle_def cancel_timer_eq in_loop_thread_def stream_def is_open_def)
  have no: "e' \<notin> live q1" if "timer_cb e' = ?cb" for e'
    using that k(2,3) by (auto simp: q1_def kick_timers_def q_def live_cancel)
  define q2 where "q2 = add_timer_in_loop (steady_now w) e (q1\<lparr>next_id := next_id q1 + 1\<rparr>)"
  have new: "timer_id e \<notin> timer_id ` live (q1\<lparr>next_id := next_id q1 + 1\<rparr>)" "tq_inv (q1\<lparr>next_id := next_id q1 + 1\<rparr>)"
    "live (q1\<lparr>next_id := next_id q1 + 1\<rparr>) = live q1"
    using q1 by (auto simp: tq_inv_def live_def e_def)
  have q2: "tq_inv q2" "live q2 = insert e (live q1)" "next_id q2 = Suc (next_id q)"
    using add_timer_inv [OF new(2,1)] live_add_timer [OF new(1)] new(3) q1(2) by (simp_all add: e_def q2_def)
  have w': "w' = set_idle c (next_id q) (on_loop ?i (\<lambda>l. l\<lparr>timer_queue := q2\<rparr>) w1)"
    unfolding assms(3) arm_idle_timer_def k(1) option.case Let_def w1_def [symmetric]
    using w1(2,3) q1(2) by (simp add: run_after_def run_at_eq [OF alloc_timer_id_def] w1(1) kIdleTimeoutMs_def e_def q2_def)
  have f: "loop_of c w' = ?i" "timer_queue (loops w' ?i) = q2" "cn_context (conns w' c) = Some (next_id q)"
    using w1(4) by (simp_all add: w' set_idle_def)
  show "stream c w' = stream c w" "is_open c w' = is_open c w" "input_buffer (conns w' c) = input_buffer (conns w c)"
    "cn_state (conns w' c) = cn_state (conns w c)"
    using w1(5-8) by (simp_all add: w' set_idle_def stream_def is_open_def)
  have "timer_cb e = ?cb" by (simp add: e_def)
  then have kt: "kick_timers c w' = {e}" using no by (auto simp: kick_timers_def f q2(2))
  show "\<exists>k. cn_context (conns w' c) = Some k \<and> k \<noteq> 0 \<and> kick_timers c w'
       = {\<lparr>expiration = steady_now w + 10000000000, timer_id = k, timer_cb = ?cb\<rparr>}"
    using f(3) kt k(4) by (auto simp: e_def)
  show "idle_armed c w'" using kt k(4) q2 f by (auto simp: idle_armed_def e_def)
qed

text \<open>
  C32. The echo service: a message callback that leaves the connection open has sent back exactly the bytes
  that had arrived, has emptied the input buffer, and leaves the connection with exactly one idle timer,
  due ten seconds later: the one that was armed before is gone.
\<close>

theorem echo_message:
  assumes "conn_ok c w" "connected c w" "idle_armed c w" "w' = echo_on_message c w" "is_open c w'"
  shows "stream c w' = stream c w @ readable_view (input_buffer (conns w c)) \<and> readable_view (input_buffer (conns w' c)) = []
    \<and> connected c w' \<and> idle_armed c w'
    \<and> (\<exists>k. cn_context (conns w' c) = Some k \<and> kick_timers c w'
         = {\<lparr>expiration = steady_now w + 10000000000, timer_id = k, timer_cb = Some (Task (App (SrvApp (IdleKick c))))\<rparr>})"
proof -
  obtain v where v: "conn_adv c w v" "w' = arm_idle_timer c (conn_send echo_close_cb c (readable_view (input_buffer (conns w c))) v)"
    "cn_state (conns v c) = cn_state (conns w c)" "cn_context (conns v c) = cn_context (conns w c)" "loop_of c v = loop_of c w"
    "stream c v = stream c w" "readable_view (input_buffer (conns v c)) = []" "loops v = loops w" "steady_now v = steady_now w"
    using echo_on_message_alt [OF assms(1) refl] assms(4) by blast
  define u where "u = conn_send echo_close_cb c (readable_view (input_buffer (conns w c))) v"
  note ok = conn_adv_ok [OF v(1)]
  have w': "w' = arm_idle_timer c u" by (simp add: v(2) u_def)
  have oku: "conn_ok c u" using conn_adv_ok [OF echo_ccb.send_adv(1) [OF ok]] by (simp add: u_def)
  have op: "is_open c u" using assms(5) arm_adv [OF oku] by (simp add: w' conn_adv_def)
  note fr = echo_ccb.send_frame [OF ok op [unfolded u_def], folded u_def]
  have st: "stream c u = stream c w @ readable_view (input_buffer (conns w c))"
    using echo_ccb.send_adv(2) [OF ok op [unfolded u_def]] assms(2) v(3,6) by (simp add: connected_def u_def)
  have lo: "timer_queue (loops u i) = timer_queue (loops w i)" "loop_of c u = loop_of c w" "steady_now u = steady_now w" for i
    using echo_ccb.send_shape [OF ok op [unfolded u_def], folded u_def] v(5,8,9) by (auto simp: send_rest_more)
  have "idle_armed c u" using assms(3) fr(2) lo v(4) by (simp add: idle_armed_def kick_timers_def)
  note a = arm_exactly_one [OF oku this w']
  show ?thesis using a st fr v(3,7) assms(2) by (auto simp: connected_def lo(3))
qed

text \<open>The timer closes a connection that is still connected, and does nothing otherwise.\<close>

lemma idle_kick_closes:
  assumes "conn_ok c w"
  shows "cn_alive (conns w c) \<Longrightarrow> connected c w \<Longrightarrow> \<not> is_open c (run_echo_task (IdleKick c) w)"
    "\<not> cn_alive (conns w c) \<or> \<not> connected c w \<Longrightarrow> run_echo_task (IdleKick c) w = w"
  using echo_ccb.close_closes [OF conn_adv_ok [OF conn_adv_echo_log [OF assms]]] by (auto simp: idle_kick_def)

lemma arm_state: "cn_state (conns (arm_idle_timer c w) c) = cn_state (conns w c)" "sk (conns (arm_idle_timer c w) c) = sk (conns w c)"
  by (simp_all add: arm_idle_timer_def set_idle_def cancel_timer_eq run_after_def run_at_eq [OF alloc_timer_id_def] Let_def split: option.split)

text \<open>A connection that has sent ''hi''; its kernel buffer is full and its first idle timer is armed.\<close>

definition sample_echo_start :: echo_world where
  "sample_echo_start = \<lparr>loops = (\<lambda>i. new_event_loop i 5 6 []), this_thread = 0, steady_now = 100,
     conns = (\<lambda>_. (new_connection 0 9 [] [] [])\<lparr>has_message_cb := True, has_close_cb := True, cn_context := Some 0,
        input_buffer := buf_append new_buffer ''hi''\<rparr>),
     connections = Map.empty, thread_pool = pool_start (new_pool 0), next_cid = 4, accept_script = [], accept_channel = new_channel 4,
     srv_has_message_cb = True, srv_has_connection_cb = True, global_log = None, log_wakes = 0, null_context = False\<rparr>"

definition sample_echo :: echo_world where
  "sample_echo = arm_idle_timer 3 sample_echo_start"

lemma sample_echo_ok: "conn_ok 3 sample_echo" "connected 3 sample_echo" "idle_armed 3 sample_echo" "stream 3 sample_echo = []"
  "readable_view (input_buffer (conns sample_echo 3)) = ''hi''" "wr_script (sk (conns sample_echo 3)) = []"
proof -
  let ?w = sample_echo_start
  have ok: "conn_ok 3 ?w" "connected 3 ?w" "stream 3 ?w = []" "readable_view (input_buffer (conns ?w 3)) = ''hi''"
    by (simp_all add: conn_ok_def sample_echo_start_def new_connection_def registered_def new_event_loop_def channel_ops buf_append_inv stream_def
        update_channel_def epoll_add_def ctl_fault_def new_channel_def is_writing_def connected_def readable_view_append)
  have "idle_armed 3 ?w"
    by (simp add: idle_armed_def sample_echo_start_def new_connection_def kick_timers_def new_timer_queue_def live_def tq_inv_def)
  note a = arm_exactly_one [OF ok(1) this sample_echo_def]
  show "conn_ok 3 sample_echo" using conn_adv_ok [OF arm_adv [OF ok(1)]] by (simp add: sample_echo_def)
  show "connected 3 sample_echo" "idle_armed 3 sample_echo" "stream 3 sample_echo = []"
    "readable_view (input_buffer (conns sample_echo 3)) = ''hi''"
    using a ok by (simp_all add: connected_def)
  show "wr_script (sk (conns sample_echo 3)) = []"
    by (simp add: sample_echo_def arm_state) (simp add: sample_echo_start_def new_connection_def)
qed

theorem echo_message_witness:
  "stream 3 (echo_on_message 3 sample_echo) = ''hi''"
proof -
  let ?w = sample_echo
  obtain v where v: "conn_adv 3 ?w v" "echo_on_message 3 ?w = arm_idle_timer 3 (conn_send echo_close_cb 3 ''hi'' v)"
    "cn_state (conns v 3) = kConnected" "wr_script (sk (conns v 3)) = []"
    using echo_on_message_alt [OF sample_echo_ok(1) refl] sample_echo_ok(2,5,6) by (auto simp: connected_def)
  have "is_open 3 (echo_on_message 3 ?w)"
    using echo_ccb.send_blocked_open(1) [OF conn_adv_ok [OF v(1)] v(3,4)] by (simp add: v(2) is_open_def arm_state)
  from echo_message [OF sample_echo_ok(1-3) refl this] show ?thesis by (simp add: sample_echo_ok)
qed

end
