(* ===== verification/Log_Sender_Runs.thy ===== *)
theory Log_Sender_Runs
  imports Log_Sender_Props
begin

text \<open>
  Histories of the sender: what a sequence of pushes and ticks puts on the stream of the connection.
\<close>

section \<open>Runs\<close>

text \<open>A history of the sender: a thread pushes a line, or a tick fires.\<close>

fun sender_run :: "(bytes + unit) list \<Rightarrow> ('x, 'z) sender_world_scheme \<Rightarrow> ('x, 'z) sender_world_scheme" where
  "sender_run [] w = w"
| "sender_run (Inl msg # ops) w = sender_run ops (snd (sender_push msg w))"
| "sender_run (Inr _ # ops) w = sender_run ops (tick_fired w)"

fun pushed :: "(bytes + unit) list \<Rightarrow> bytes list" where
  "pushed [] = []"
| "pushed (Inl msg # ops) = msg # pushed ops"
| "pushed (Inr _ # ops) = pushed ops"

lemma sender_push_effect:
  assumes "mpsc_push msg (sd_queue (sd w)) = (r, q)"
  shows "sd (snd (sender_push msg w)) = (sd w)\<lparr>sd_queue := q\<rparr>" "conns (snd (sender_push msg w)) = conns w"
    "sender_linked n c w \<Longrightarrow> sender_linked n c (snd (sender_push msg w))"
proof -
  let ?w1 = "on_sd (\<lambda>s. s\<lparr>sd_queue := q\<rparr>) w"
  let ?w2 = "on_loop (snd_loop w) (queue_in_loop (this_thread w) (Task (App (CliApp WakeTask)))) ?w1"
  have w': "snd (sender_push msg w) = (if wake_up r then ?w2 else ?w1)" by (simp add: sender_push_def assms)
  show "sd (snd (sender_push msg w)) = (sd w)\<lparr>sd_queue := q\<rparr>" "conns (snd (sender_push msg w)) = conns w" by (simp_all add: w')
  assume "sender_linked n c w"
  then have l1: "sender_linked n c ?w1" by (rule sender_linked_queue)
  then have "conn_ok c ?w1" "client_inv n ?w1" by (simp_all add: sender_linked_def)
  then have "conn_adv c ?w1 ?w2" "client_inv n ?w2"
    using quiet_inv [OF quiet_drop_fd(3)] by (auto intro!: conn_adv_on_loop simp: queue_in_loop_def push_functor_def wakeup_def Let_def)
  with l1 show "sender_linked n c (snd (sender_push msg w))"
    using conn_adv_ok by (auto simp: w' sender_linked_def connected_def)
qed

lemma schedule_next_tick_linked:
  assumes "sender_linked n c w" "\<not> stopped (sd w)"
  shows "sender_linked n c (schedule_next_tick w)"
proof -
  let ?w = "schedule_next_tick w"
  have a: "client_inv n w" "conn_ok c w" "connection (cl w) = Some c" "snd_loop w = the_loop w" using assms(1) by (simp_all add: sender_linked_def)
  note D = client_invD [OF a(1)]
  let ?q = "timer_queue (loops w (snd_loop w))"
  define v where "v = snd (run_after (snd_loop w) (tick_interval_ms (sd_opts (sd w))) (Some (Task (App (CliApp TickTask)))) w)"
  have il: "in_loop_thread (snd_loop w) w" and tq: "tq_inv ?q" using D(1) by (simp_all add: client_base_def a(4))
  have v: "v = on_loop (snd_loop w) (\<lambda>l. l\<lparr>timer_queue := add_timer_in_loop (steady_now w) (next_tick w) (?q\<lparr>next_id := next_id ?q + 1\<rparr>)\<rparr>) w"
    using il by (simp add: v_def run_after_def run_at_eq [OF alloc_timer_id_def] next_tick_def)
  have w': "?w = on_sd (\<lambda>s. s\<lparr>tick_timer_id := next_id ?q\<rparr>) v"
    using il assms(2) by (simp add: schedule_next_tick_def v_def run_after_def run_at_eq [OF alloc_timer_id_def])
  have "tq_inv (add_timer_in_loop (steady_now w) (next_tick w) (?q\<lparr>next_id := next_id ?q + 1\<rparr>))"
    by (rule add_timer_inv) (use tq in \<open>auto simp: tq_inv_def live_def next_tick_def\<close>)
  then have "client_base v" using D(1) by (simp add: v client_base_def in_loop_thread_def a(4))
  moreover have "cl_state (cl w) = CliConnected" using D(5) a(3) by simp
  ultimately have "client_inv n v" by (intro client_inv_frame [OF a(1)]) (simp_all add: v is_open_def)
  then have "client_inv n ?w" unfolding w' by (rule quiet_inv [OF quiet_on_sd])
  moreover have "conn_ok c ?w" using conn_adv_ok [OF conn_adv_run_after [OF a(2)]] by (simp add: w' v_def)
  ultimately show ?thesis using assms(1) by (simp add: sender_linked_def w' v connected_def)
qed

lemma schedule_next_tick_sd:
  "sd_connection (sd (schedule_next_tick w)) = sd_connection (sd w)" "sd_queue (sd (schedule_next_tick w)) = sd_queue (sd w)"
  "stopped (sd (schedule_next_tick w)) = stopped (sd w)"
  by (simp_all add: schedule_next_tick_def run_after_def run_at_eq [OF alloc_timer_id_def])

lemma sender_run_unconnected:
  "sd_connection (sd w) = None \<Longrightarrow> conns (sender_run ops w) = conns w"
proof (induction ops w rule: sender_run.induct)
  case (2 msg ops w)
  obtain r q where "mpsc_push msg (sd_queue (sd w)) = (r, q)" by fastforce
  from sender_push_effect(1,2) [OF this] 2 show ?case by simp
next
  case (3 u ops w)
  have "sd_connection (sd (tick_fired w)) = None \<and> conns (tick_fired w) = conns w"
    using 3 by (simp add: tick_fired_def on_tick_def sender_ready_def loop_abort_def schedule_next_tick_sd)
  with 3 show ?case by simp
qed simp

lemma tick_fired_effect:
  assumes "sender_linked n c w" "mpsc_inv (sd_queue (sd w))" "\<not> stopped (sd w)" "dropped (sd_queue (sd w)) = 0" "w' = tick_fired w"
  shows "is_open c w' \<Longrightarrow> sender_linked n c w' \<and> mpsc_inv (sd_queue (sd w')) \<and> \<not> stopped (sd w') \<and> dropped (sd_queue (sd w')) = 0
      \<and> qcap (sd_queue (sd w')) = qcap (sd_queue (sd w))
      \<and> (\<exists>ms. contents (sd_queue (sd w)) = ms @ contents (sd_queue (sd w')) \<and> stream c w' = stream c w @ concat (map frame_encode ms))"
    "\<not> is_open c w' \<Longrightarrow> sd_connection (sd w') = None"
proof -
  define w1 where "w1 = on_sd (\<lambda>s. s\<lparr>tick_timer_id := 0\<rparr>) w"
  have l1: "sender_linked n c w1"
    using assms(1) by (auto simp: w1_def sender_linked_def intro: quiet_inv [OF quiet_on_sd])
  have s1: "sd_queue (sd w1) = sd_queue (sd w)" "stopped (sd w1) = stopped (sd w)" "stream c w1 = stream c w" by (simp_all add: w1_def)
  have il: "in_loop_thread (snd_loop w1) w1" using l1 client_invD(2) [of n w1] by (simp add: sender_linked_def)
  have op1: "is_open c w1" using l1 by (simp add: sender_linked_def connected_def is_open_def)
  define w2 where "w2 = (if sender_ready w1 \<and> \<not> paused (sd w1) then do_drain_and_send w1 else w1)"
  have w': "w' = schedule_next_tick w2"
    using il assms(3) by (simp add: assms(5) tick_fired_def on_tick_def s1(2) flip: w1_def w2_def)
  have sd': "sd_connection (sd w') = sd_connection (sd w2)" "sd_queue (sd w') = sd_queue (sd w2)" "stopped (sd w') = stopped (sd w2)"
    by (simp_all add: w' schedule_next_tick_sd)
  have op: "is_open c w' = is_open c w2" by (simp add: w' is_open_def)
  have two: "(is_open c w2 \<longrightarrow> sender_linked n c w2 \<and> mpsc_inv (sd_queue (sd w2)) \<and> \<not> stopped (sd w2) \<and> dropped (sd_queue (sd w2)) = 0
      \<and> qcap (sd_queue (sd w2)) = qcap (sd_queue (sd w))
      \<and> (\<exists>ms. contents (sd_queue (sd w)) = ms @ contents (sd_queue (sd w2)) \<and> stream c w2 = stream c w @ concat (map frame_encode ms)))
    \<and> (\<not> is_open c w2 \<longrightarrow> sd_connection (sd w2) = None)"
  proof (cases "sender_ready w1 \<and> \<not> paused (sd w1)")
    case True
    let ?m = "max_batch_per_tick (sd_opts (sd w1))" and ?q = "sd_queue (sd w1)"
    have q: "mpsc_inv ?q" using assms(2) by (simp add: s1)
    obtain q2 where d: "w2 = send_batch (take ?m (contents ?q)) (on_sd (\<lambda>s. s\<lparr>sd_queue := q2\<rparr>) w1)" "mpsc_inv q2" "dropped q2 = 0"
      "contents q2 = drop ?m (contents ?q)" "qcap q2 = qcap ?q"
      using do_drain_alt [OF l1 refl q refl] True assms(4) by (auto simp: w2_def s1 dropped_notice_def)
    from send_batch_cases [OF sender_linked_queue [OF l1] d(1)] d(2-5) show ?thesis
      by (cases "is_open c w2") (auto simp: s1 assms(3) intro!: exI [of _ "take ?m (contents ?q)"])
  next
    case False
    then have "w2 = w1" by (auto simp: w2_def)
    then show ?thesis using l1 assms(2-4) op1 by (simp add: s1)
  qed
  show "\<not> is_open c w' \<Longrightarrow> sd_connection (sd w') = None" using two op sd' by simp
  assume "is_open c w'"
  then show "sender_linked n c w' \<and> mpsc_inv (sd_queue (sd w')) \<and> \<not> stopped (sd w') \<and> dropped (sd_queue (sd w')) = 0
      \<and> qcap (sd_queue (sd w')) = qcap (sd_queue (sd w))
      \<and> (\<exists>ms. contents (sd_queue (sd w)) = ms @ contents (sd_queue (sd w')) \<and> stream c w' = stream c w @ concat (map frame_encode ms))"
    using two op schedule_next_tick_linked [of n c w2] unfolding sd' by (simp add: w' stream_def)
qed

text \<open>
  From \<open>push\<close> to the stream: over any history of pushes and ticks in which the queue has room for all
  lines, as long as the connection survives, the lines on its stream are exactly the first of the lines
  pushed, in the order of the pushes, framed, and the others are still in the queue.
\<close>

lemma sender_run_stream:
  assumes "sender_linked n c w" "mpsc_inv (sd_queue (sd w))" "\<not> stopped (sd w)" "dropped (sd_queue (sd w)) = 0"
    "length (contents (sd_queue (sd w))) + length (pushed ops) \<le> qcap (sd_queue (sd w))" "is_open c (sender_run ops w)"
  shows "\<exists>ms. contents (sd_queue (sd w)) @ pushed ops = ms @ contents (sd_queue (sd (sender_run ops w)))
    \<and> stream c (sender_run ops w) = stream c w @ concat (map frame_encode ms)"
  using assms
proof (induction ops w rule: sender_run.induct)
  case (1 w)
  then show ?case by auto
next
  case (2 msg ops w)
  let ?q = "sd_queue (sd w)" and ?w1 = "snd (sender_push msg w)"
  obtain r q where p: "mpsc_push msg ?q = (r, q)" by fastforce
  note e = sender_push_effect [OF p] and m = mpsc_push_spec [OF "2.prems"(2) p]
  have room: "qcount ?q < qcap ?q" using "2.prems"(5) by simp
  have c: "contents q = contents ?q @ [msg]" "dropped q = 0" "qcap q = qcap ?q" using m room "2.prems"(4) by simp_all
  have len: "length (contents (sd_queue (sd ?w1))) + length (pushed ops) \<le> qcap (sd_queue (sd ?w1))"
    using "2.prems"(5) arg_cong [OF c(1), of length] by (simp add: e(1) c(3))
  have "\<exists>ms. contents (sd_queue (sd ?w1)) @ pushed ops = ms @ contents (sd_queue (sd (sender_run ops ?w1)))
    \<and> stream c (sender_run ops ?w1) = stream c ?w1 @ concat (map frame_encode ms)"
    by (rule "2.IH" [OF e(3) [OF "2.prems"(1)] _ _ _ len]) (use "2.prems"(3,6) e(1) m(1) c(2) in simp_all)
  moreover have "stream c ?w1 = stream c w" by (simp add: stream_def e(2))
  ultimately show ?case by (simp add: e(1) c(1))
next
  case (3 u ops w)
  let ?w1 = "tick_fired w"
  note t = tick_fired_effect [OF "3.prems"(1-4) refl]
  have op: "is_open c ?w1"
    using "3.prems"(6) t(2) sender_run_unconnected [of ?w1 ops] by (auto simp: is_open_def)
  from t(1) [OF this] obtain ms where t1: "sender_linked n c ?w1" "mpsc_inv (sd_queue (sd ?w1))" "\<not> stopped (sd ?w1)"
    "dropped (sd_queue (sd ?w1)) = 0" "qcap (sd_queue (sd ?w1)) = qcap (sd_queue (sd w))"
    "contents (sd_queue (sd w)) = ms @ contents (sd_queue (sd ?w1))" "stream c ?w1 = stream c w @ concat (map frame_encode ms)" by blast
  have "length (contents (sd_queue (sd ?w1))) + length (pushed ops) \<le> qcap (sd_queue (sd ?w1))"
    using "3.prems"(5) arg_cong [OF t1(6), of length] by (simp only: t1(5)) simp
  from "3.IH" [OF t1(1-4) this] "3.prems"(6) obtain ms2 where
    "contents (sd_queue (sd ?w1)) @ pushed ops = ms2 @ contents (sd_queue (sd (sender_run ops ?w1)))"
    "stream c (sender_run ops ?w1) = stream c ?w1 @ concat (map frame_encode ms2)" by auto
  then show ?case using t1(6,7) by (intro exI [of _ "ms @ ms2"]) simp
qed

text \<open>With the kernel buffer full, everything stays in the output buffer.\<close>

lemma tick_blocked:
  assumes "sender_linked n c w" "mpsc_inv (sd_queue (sd w))" "\<not> stopped (sd w)" "wr_script (sk (conns w c)) = []"
  shows "is_open c (tick_fired w)"
proof -
  define w1 where "w1 = on_sd (\<lambda>s. s\<lparr>tick_timer_id := 0\<rparr>) w"
  have l1: "sender_linked n c w1"
    using assms(1) by (auto simp: w1_def sender_linked_def intro: quiet_inv [OF quiet_on_sd])
  have il: "in_loop_thread (snd_loop w1) w1" using l1 client_invD(2) [of n w1] by (simp add: sender_linked_def)
  have "is_open c (do_drain_and_send w1)" by (rule do_drain_blocked [OF l1]) (simp_all add: w1_def assms)
  moreover have "is_open c w1" using l1 by (simp add: sender_linked_def connected_def is_open_def)
  moreover have "tick_fired w = schedule_next_tick (if sender_ready w1 \<and> \<not> paused (sd w1) then do_drain_and_send w1 else w1)"
    using il assms(3) by (simp add: tick_fired_def on_tick_def w1_def)
  ultimately show ?thesis by (simp add: is_open_def)
qed

text \<open>The sample sender, given one more line, keeps its connection in a tick.\<close>

lemma sample_run_open: "is_open 0 (sender_run [Inl ''c'', Inr ()] (sample_sender [] False))" "qcap sample_queue = 4"
proof -
  let ?w = "sample_sender [] False"
  obtain r q where p: "mpsc_push ''c'' sample_queue = (r, q)" by fastforce
  note e = sender_push_effect [of "''c''" ?w, simplified, OF p] and m = mpsc_push_spec(1) [OF sample_queue_props(1) p]
  show "qcap sample_queue = 4" by code_simp
  have "is_open 0 (tick_fired (snd (sender_push ''c'' ?w)))"
    by (rule tick_blocked [OF e(3) [OF sample_sender_linked]]) (simp_all add: e(1,2) m)
  then show "is_open 0 (sender_run [Inl ''c'', Inr ()] ?w)" by simp
qed

end
