(* ===== verification/Log_Sender_Life.thy ===== *)
theory Log_Sender_Life
  imports Log_Sender_Runs
begin

text \<open>
  The life of a \<open>LogSender\<close>: every interleaving of \<open>start\<close>, pushes, ticks, wake-ups, handshakes, events
  of the connection, retries and \<open>stop\<close>. The sender and its \<open>TcpClient\<close> never disagree about the
  connection, and that connection always satisfies what \<open>Connection_Props\<close> asks for.
\<close>

section \<open>Histories\<close>

abbreviation sender_cbs :: "('x, 'z) sender_world_scheme conn_cbs" where
  "sender_cbs \<equiv> client_cbs (\<lambda>_ w. w) sender_on_connection on_high_water on_write_complete"

definition dial_fd :: "dial \<Rightarrow> int option" where
  "dial_fd d = (case d of SocketErr \<Rightarrow> None | NonblockErr fd \<Rightarrow> Some fd | ConnectErr fd \<Rightarrow> Some fd
     | ConnectNow fd _ _ _ \<Rightarrow> Some fd | InProgress fd _ _ _ \<Rightarrow> Some fd)"

text \<open>\<open>socket(2)\<close> gives out a number that is not in use, so it is not registered with the loop.\<close>

definition fresh_fd :: "('a, 'x, 'z) client_world_scheme \<Rightarrow> bool" where
  "fresh_fd w \<longleftrightarrow> (\<forall>d fd. dial_script w \<noteq> [] \<longrightarrow> hd (dial_script w) = d \<longrightarrow> dial_fd d = Some fd
     \<longrightarrow> interest (ep (loops w (the_loop w))) fd = None)"

text \<open>Work on the loops that concerns neither descriptors nor timers, and time that passes.\<close>

definition other_work :: "('x, 'z) sender_world_scheme \<Rightarrow> ('x, 'z) sender_world_scheme \<Rightarrow> bool" where
  "other_work w v \<longleftrightarrow> cl v = cl w \<and> sd v = sd w \<and> dial_script v = dial_script w \<and> cl_next_cid v = cl_next_cid w \<and> conns v = conns w
     \<and> this_thread v = this_thread w
     \<and> (\<forall>i. owner_tid (loops v i) = owner_tid (loops w i) \<and> ep (loops v i) = ep (loops w i) \<and> timer_queue (loops v i) = timer_queue (loops w i))"

text \<open>
  One step of the loop of the sender, or a push of another thread. A state is a world and the number of
  retry timers taken out of the queue but not yet run. Timers of the client fire only while the client
  exists.
\<close>

inductive sender_step :: "('x, 'z) sender_world_scheme \<times> nat \<Rightarrow> ('x, 'z) sender_world_scheme \<times> nat \<Rightarrow> bool" where
  SStart: "fresh_fd w \<Longrightarrow> sender_step (w, n) (start_in_loop w, n)"
| SPush: "sender_step (w, n) (snd (sender_push msg w), n)"
| STick: "sender_step (w, n) (tick_fired w, n)"
| SWake: "sender_step (w, n) (wake_fired w, n)"
| SHandshake: "connect_channel (cl w) \<noteq> None \<Longrightarrow> sender_step (w, n) (handle_connect_writable sender_on_connection w, n)"
| SConn: "connection (cl w) = Some c \<Longrightarrow> sender_step (w, n) (conn_event sender_cbs c ev w, n)"
| SConnTask: "t \<in> {HighWater c, WriteComplete c} \<Longrightarrow> sender_step (w, n) (run_conn_task sender_cbs app t w, n)"
| SExpire: "expire (steady_now w) (timer_queue (loops w (the_loop w))) = (x, q) \<Longrightarrow>
    sender_step (w, n) (on_loop (the_loop w) (\<lambda>l. l\<lparr>timer_queue := q\<rparr>) w, n + length (filter is_retry x))"
| SRetry: "fresh_fd w \<Longrightarrow> sd_client_alive (sd w) \<Longrightarrow> sender_step (w, Suc n) (retry_fired sender_on_connection w, n)"
| SStop: "sender_step (w, n) (stop_in_loop w, n)"
| SOther: "other_work w v \<Longrightarrow> sender_step (w, n) (v, n)"

inductive_cases sender_stepE: "sender_step s t"

text \<open>A sender that has just been constructed on a loop of the calling thread.\<close>

definition sender_init :: "('x, 'z) sender_world_scheme \<times> nat \<Rightarrow> bool" where
  "sender_init s \<longleftrightarrow> (\<exists>v i peer opts. s = (new_log_sender i peer opts v, 0) \<and> in_loop_thread i v \<and> tq_inv (timer_queue (loops v i))
     \<and> list_all dial_fd_ok (dial_script v) \<and> cl_next_cid v = 0)"

section \<open>The invariant\<close>

text \<open>What holds also in the middle of \<open>stop\<close>.\<close>

definition sender_core :: "nat \<Rightarrow> ('x, 'z) sender_world_scheme \<Rightarrow> bool" where
  "sender_core n w \<longleftrightarrow> client_inv n w \<and> cl_has_connection_cb (cl w) \<and> snd_loop w = the_loop w
     \<and> sd_connection (sd w) = connection (cl w) \<and> mpsc_inv (sd_queue (sd w))"

definition sender_live :: "nat \<Rightarrow> ('x, 'z) sender_world_scheme \<Rightarrow> bool" where
  "sender_live n w \<longleftrightarrow> sender_core n w
     \<and> (\<forall>c. connection (cl w) = Some c \<longrightarrow> conn_ok c w \<and> connected c w)
     \<and> (\<forall>ch. connect_channel (cl w) = Some ch \<longrightarrow> ch_fd ch = connecting_fd (cl w) \<and> registered ch (loops w (the_loop w)))"

definition sender_inv :: "nat \<Rightarrow> ('x, 'z) sender_world_scheme \<Rightarrow> bool" where
  "sender_inv n w \<longleftrightarrow> sender_live n w \<and> (sd_client_alive (sd w) \<longleftrightarrow> \<not> stopped (sd w))
     \<and> (stopped (sd w) \<longrightarrow> cl_state (cl w) = CliDisconnected)"

text \<open>No attempt is under way and the sender is not stopped.\<close>

definition sender_idle :: "('x, 'z) sender_world_scheme \<Rightarrow> bool" where
  "sender_idle w \<longleftrightarrow> idle w \<and> cl_has_connection_cb (cl w) \<and> snd_loop w = the_loop w \<and> sd_connection (sd w) = None
     \<and> mpsc_inv (sd_queue (sd w)) \<and> sd_client_alive (sd w) \<and> \<not> stopped (sd w)"

lemma sender_inv_linked:
  "sender_inv n w \<Longrightarrow> connection (cl w) = Some c \<Longrightarrow> sender_linked n c w"
  by (simp add: sender_inv_def sender_live_def sender_core_def sender_linked_def)

lemma sender_inv_init: "sender_init (w, n) \<Longrightarrow> sender_inv n w"
  by (auto simp: sender_init_def new_log_sender_def sender_inv_def sender_live_def sender_core_def client_inv_def client_base_def new_client_def
      backoff_ok_def in_loop_thread_def)

lemma conn_ok_cong:
  "conns v c = conns w c \<Longrightarrow> this_thread v = this_thread w \<Longrightarrow> (\<And>i. owner_tid (loops v i) = owner_tid (loops w i))
     \<Longrightarrow> (\<And>i. ep (loops v i) = ep (loops w i)) \<Longrightarrow> conn_ok c v = conn_ok c w"
  by (simp add: conn_ok_def registered_def Let_def)

text \<open>A step that touches no connection and no descriptor.\<close>

lemma sender_inv_frame:
  assumes "sender_inv n w" "client_inv m v" "cl v = cl w" "conns v = conns w" "this_thread v = this_thread w"
    "\<And>i. owner_tid (loops v i) = owner_tid (loops w i)" "\<And>i. ep (loops v i) = ep (loops w i)"
    "sd_connection (sd v) = sd_connection (sd w)" "snd_loop v = snd_loop w" "sd_client_alive (sd v) = sd_client_alive (sd w)"
    "stopped (sd v) = stopped (sd w)" "mpsc_inv (sd_queue (sd v))"
  shows "sender_inv m v"
proof -
  have "conn_ok c v = conn_ok c w" "connected c v = connected c w" for c
    using conn_ok_cong [of v c w] assms(4-7) by (simp_all add: connected_def)
  moreover have "registered ch (loops v i) = registered ch (loops w i)" for ch i by (simp add: registered_def assms(7))
  ultimately show ?thesis using assms by (simp add: sender_inv_def sender_live_def sender_core_def)
qed

lemma sender_inv_quiet:
  assumes "sender_inv n w" "quiet w v" "conns v = conns w" "\<And>i. ep (loops v i) = ep (loops w i)"
    "sd_connection (sd v) = sd_connection (sd w)" "snd_loop v = snd_loop w" "sd_client_alive (sd v) = sd_client_alive (sd w)"
    "stopped (sd v) = stopped (sd w)" "mpsc_inv (sd_queue (sd v))"
  shows "sender_inv n v"
proof -
  have "client_inv n w" using assms(1) by (simp add: sender_inv_def sender_live_def sender_core_def)
  from quiet_inv [OF assms(2) this] show ?thesis
    by (rule sender_inv_frame [OF assms(1)]) (use assms in \<open>simp_all add: quiet_def\<close>)
qed

lemma sender_invD:
  assumes "sender_inv n w"
  shows "client_inv n w" "in_loop_thread (snd_loop w) w" "mpsc_inv (sd_queue (sd w))" "snd_loop w = the_loop w" "cl_has_connection_cb (cl w)"
    "sd_connection (sd w) = connection (cl w)"
  using assms client_invD(2) [of n w] by (simp_all add: sender_inv_def sender_live_def sender_core_def)

lemma sender_inv_on_sd:
  assumes "sender_inv n w" "sd_connection (k (sd w)) = sd_connection (sd w)" "sender_loop (k (sd w)) = snd_loop w"
    "sd_client_alive (k (sd w)) = sd_client_alive (sd w)" "stopped (k (sd w)) = stopped (sd w)" "mpsc_inv (sd_queue (k (sd w)))"
  shows "sender_inv n (on_sd k w)"
  by (rule sender_inv_quiet [OF assms(1) quiet_on_sd]) (use assms in simp_all)


section \<open>Steps that open and close nothing\<close>

lemma push_inv:
  assumes "sender_inv n w"
  shows "sender_inv n (snd (sender_push msg w))"
proof -
  obtain r q where p: "mpsc_push msg (sd_queue (sd w)) = (r, q)" by fastforce
  note D = sender_invD [OF assms]
  have q: "mpsc_inv q" by (rule mpsc_push_spec(1) [OF D(3) p])
  then have i: "sender_inv n (on_sd (\<lambda>s. s\<lparr>sd_queue := q\<rparr>) w)" by (intro sender_inv_on_sd [OF assms]) simp_all
  from sender_inv_quiet [OF this quiet_drop_fd(3), of "snd_loop w" "this_thread w" "Task (App (CliApp WakeTask))"]
  show ?thesis using i q by (simp add: sender_push_def p queue_in_loop_def push_functor_def wakeup_def Let_def)
qed

lemma tasks_inv:
  assumes "sender_inv n w" "t \<in> {HighWater c, WriteComplete c}"
  shows "sender_inv n (run_conn_task sender_cbs app t w)"
proof -
  note D = sender_invD [OF assms(1)]
  have "sender_inv n (on_sd (\<lambda>s. s\<lparr>paused := p\<rparr>) w)" for p by (rule sender_inv_on_sd [OF assms(1)]) (simp_all add: D(3))
  then show ?thesis using assms D(2) by (auto simp: client_cbs_def on_high_water_def on_write_complete_def)
qed

lemma other_work_inv:
  assumes "sender_inv n w" "other_work w v"
  shows "sender_inv n v"
proof -
  have "quiet w v" using assms(2) by (simp add: other_work_def quiet_def is_open_def)
  then show ?thesis by (rule sender_inv_quiet [OF assms(1)]) (use assms sender_invD(3) [OF assms(1)] in \<open>simp_all add: other_work_def\<close>)
qed

lemma expire_inv:
  assumes "sender_inv n w" "expire (steady_now w) (timer_queue (loops w (the_loop w))) = (x, q)"
  shows "sender_inv (n + length (filter is_retry x)) (on_loop (the_loop w) (\<lambda>l. l\<lparr>timer_queue := q\<rparr>) w)"
  by (rule sender_inv_frame [OF assms(1) expire_adv(1) [OF sender_invD(1) [OF assms(1)] assms(2) refl refl]])
    (simp_all add: sender_invD(3) [OF assms(1)])

lemma set_insert_filter: "\<not> P e \<Longrightarrow> filter P (set_insert e es) = filter P es"
  by (induction es) auto

text \<open>Storing a timer that does not belong to the client.\<close>

lemma quiet_run_after:
  assumes "cb \<noteq> Some (Task (App RetryTimer))" "in_loop_thread i w"
  shows "quiet w (snd (run_after i d cb w))"
proof -
  let ?q = "timer_queue (loops w i)"
  let ?e = "\<lparr>expiration = steady_now w + d * 1000000, timer_id = next_id ?q, timer_cb = cb\<rparr>"
  let ?q1 = "add_timer_in_loop (steady_now w) ?e (?q\<lparr>next_id := next_id ?q + 1\<rparr>)"
  have w': "snd (run_after i d cb w) = on_loop i (\<lambda>l. l\<lparr>timer_queue := ?q1\<rparr>) w"
    using assms(2) by (simp add: run_after_def run_at_eq [OF alloc_timer_id_def])
  have "tq_inv ?q1" if "tq_inv ?q" by (rule add_timer_inv) (use that in \<open>auto simp: tq_inv_def live_def\<close>)
  moreover have "filter is_retry (timers ?q1) = filter is_retry (timers ?q)"
    using assms(1) by (simp add: add_timer_timers set_insert_filter is_retry_def)
  ultimately show ?thesis unfolding w' by (auto simp: quiet_def is_open_def)
qed

lemma schedule_next_tick_inv:
  assumes "sender_inv n w"
  shows "sender_inv n (schedule_next_tick w)"
proof (cases "stopped (sd w)")
  case False
  note D = sender_invD [OF assms]
  define v where "v = snd (run_after (snd_loop w) (tick_interval_ms (sd_opts (sd w))) (Some (Task (App (CliApp TickTask)))) w)"
  have v: "conns v = conns w" "sd v = sd w" "ep (loops v i) = ep (loops w i)" for i
    by (simp_all add: v_def run_after_def run_at_eq [OF alloc_timer_id_def] queue_in_loop_def push_functor_def wakeup_def Let_def)
  have "quiet w v" unfolding v_def by (rule quiet_run_after) (simp_all add: D(2))
  then have "sender_inv n v" by (rule sender_inv_quiet [OF assms]) (simp_all add: v D(3))
  then have "sender_inv n (on_sd (\<lambda>s. s\<lparr>tick_timer_id := k\<rparr>) v)" for k by (rule sender_inv_on_sd) (simp_all add: v D(3))
  then show ?thesis using D(2) False by (simp add: schedule_next_tick_def v_def split_beta)
qed (use assms sender_invD(2) [OF assms] in \<open>simp add: schedule_next_tick_def\<close>)


section \<open>Closing\<close>

lemma schedule_retry_cl [simp]:
  "cl_has_connection_cb (cl (schedule_retry w)) = cl_has_connection_cb (cl w)" "cl_loop (cl (schedule_retry w)) = the_loop w"
  "connection (cl (schedule_retry w)) = connection (cl w)" "connect_channel (cl (schedule_retry w)) = connect_channel (cl w)"
  "connecting_fd (cl (schedule_retry w)) = connecting_fd (cl w)" "cl_next_cid (schedule_retry w) = cl_next_cid w"
  by (simp_all add: schedule_retry_def Let_def loop_abort_def run_after_def run_at_eq [OF alloc_timer_id_def])

lemma sender_close_core:
  assumes "sender_core n w" "connection (cl w) = Some c" "w' = conn_close sender_close_cb c w"
  shows "sender_core n w'" "connection (cl w') = None" "connect_channel (cl w') = None" "cl_next_cid w' = cl_next_cid w"
    "sd w' = (sd w)\<lparr>sd_connection := None, paused := False\<rparr>"
proof -
  have a: "client_inv n w" "cl_has_connection_cb (cl w)" "snd_loop w = the_loop w" "sd_connection (sd w) = connection (cl w)"
    "mpsc_inv (sd_queue (sd w))" using assms(1) by (simp_all add: sender_core_def)
  note D = client_invD [OF a(1)]
  have "cl_state (cl w) = CliConnected" using D(5) assms(2) by blast
  then have "connecting_fd (cl w) < 0" "connect_channel (cl w) = None" using D(3,4) by auto
  moreover have "\<And>d. d < cl_next_cid w \<Longrightarrow> is_open d w \<Longrightarrow> d = c" using D(9) assms(2) by force
  ultimately obtain v where v: "w' = schedule_retry v" "idle v" "cl v = (cl w)\<lparr>connection := None\<rparr>" "cl_next_cid v = cl_next_cid w"
    using sender_ccb.close_schedules [OF D(1) D(7,8) [OF assms(2)]] assms(3) by blast
  show sd: "sd w' = (sd w)\<lparr>sd_connection := None, paused := False\<rparr>"
    using sender_close_clears [OF a(1) assms(2) a(2,3)] by (simp add: assms(3))
  show cn: "connection (cl w') = None" "connect_channel (cl w') = None" "cl_next_cid w' = cl_next_cid w"
    using v(2) by (simp_all add: v(1,4) idle_def)
  show "sender_core n w'"
    using schedule_retry_inv(1) [OF v(2), of n] a by (simp add: sender_core_def sd cn) (simp add: v(1,3))
qed

lemma sender_inv_closed:
  "sender_core n w \<Longrightarrow> connection (cl w) = None \<Longrightarrow> connect_channel (cl w) = None \<Longrightarrow> sd_client_alive (sd w) \<Longrightarrow> \<not> stopped (sd w)
     \<Longrightarrow> sender_inv n w"
  by (simp add: sender_inv_def sender_live_def)

lemma sender_inv_core: "sender_inv n w \<Longrightarrow> sender_core n w"
  by (simp add: sender_inv_def sender_live_def)

text \<open>While there is a connection the sender is not stopped and no attempt is under way.\<close>

lemma sender_inv_connected:
  assumes "sender_inv n w" "connection (cl w) = Some c"
  shows "\<not> stopped (sd w)" "sd_client_alive (sd w)" "connect_channel (cl w) = None" "c < cl_next_cid w" "retry_enabled (cl w)"
proof -
  note D = client_invD [OF sender_invD(1) [OF assms(1)]]
  have st: "cl_state (cl w) = CliConnected" using D(5) assms(2) by blast
  then show "\<not> stopped (sd w)" "sd_client_alive (sd w)" using assms(1) by (auto simp: sender_inv_def sender_live_def)
  show "connect_channel (cl w) = None" "c < cl_next_cid w" "retry_enabled (cl w)" using D(4) D(6) [OF assms(2)] D(10) st by auto
qed

lemma sender_close_inv:
  assumes "sender_inv n w" "connection (cl w) = Some c"
  shows "sender_inv n (conn_close sender_close_cb c w)"
  using sender_close_core [OF sender_inv_core [OF assms(1)] assms(2) refl] sender_inv_connected [OF assms]
  by (intro sender_inv_closed) simp_all

section \<open>Events of the connection\<close>

text \<open>
  The callbacks of one event may find the connection already closed by an earlier one; a new connection
  cannot appear in between.
\<close>

definition event_core :: "nat \<Rightarrow> nat \<Rightarrow> ('x, 'z) sender_world_scheme \<Rightarrow> bool" where
  "event_core n c w \<longleftrightarrow> sender_core n w \<and> c < cl_next_cid w \<and> connect_channel (cl w) = None \<and> sd_client_alive (sd w) \<and> \<not> stopped (sd w)
     \<and> (connection (cl w) = None \<or> connection (cl w) = Some c)"

definition event_inv :: "nat \<Rightarrow> nat \<Rightarrow> ('x, 'z) sender_world_scheme \<Rightarrow> bool" where
  "event_inv n c w \<longleftrightarrow> event_core n c w \<and> (connection (cl w) = Some c \<longrightarrow> conn_ok c w \<and> connected c w)"

lemma event_inv_sender: "event_inv n c w \<Longrightarrow> sender_inv n w"
  by (auto simp: event_inv_def event_core_def sender_inv_def sender_live_def)

lemma event_inv_close:
  assumes "event_core n c w"
  shows "event_inv n c (conn_close sender_close_cb c w)"
proof (cases "connection (cl w)")
  case None
  then have "\<not> is_open c w" using assms client_invD(9) [of n w c] by (auto simp: event_core_def sender_core_def)
  then show ?thesis using assms None by (simp add: conn_close_def is_open_def event_inv_def)
next
  case (Some d)
  then have "sender_core n w" "connection (cl w) = Some c" using assms by (auto simp: event_core_def)
  from sender_close_core [OF this refl] assms show ?thesis by (simp add: event_inv_def event_core_def)
qed

text \<open>A step that changes only the connection and its registration.\<close>

lemma event_core_calm:
  assumes "event_core n c w" "quiet w v" "sd v = sd w"
  shows "event_core n c v"
proof -
  have cl: "cl v = cl w" "cl_next_cid v = cl_next_cid w" using assms(2) by (simp_all add: quiet_def)
  have "client_inv n v" using quiet_inv [OF assms(2)] assms(1) by (simp add: event_core_def sender_core_def)
  then show ?thesis using assms(1,3) by (simp add: event_core_def sender_core_def cl)
qed

lemma event_inv_calm:
  assumes "event_inv n c w" "quiet w v" "sd v = sd w" "cn_state (conns v c) = cn_state (conns w c)" "conn_ok c w \<Longrightarrow> conn_ok c v"
  shows "event_inv n c v"
  using event_core_calm [OF _ assms(2,3)] assms(1,4,5) assms(2) by (simp add: event_inv_def connected_def quiet_def)

lemma event_read_inv:
  assumes "event_inv n c w"
  shows "event_inv n c (conn_handle_read sender_cbs c w)"
proof -
  obtain r b s where l: "read_loop (input_buffer (conns w c)) (sk (conns w c)) = (r, b, s)" by (metis prod_cases3)
  define w1 where "w1 = on_conn c (\<lambda>cn. cn\<lparr>input_buffer := b, sk := s\<rparr>) w"
  have e: "conn_handle_read sender_cbs c w = (if r = Drained then w1 else conn_close sender_close_cb c w1)"
    by (cases r) (simp_all add: conn_handle_read_def l w1_def client_cbs_def deliver_def Let_def)
  have w1: "quiet w w1" "sd w1 = sd w" "cn_state (conns w1 c) = cn_state (conns w c)" by (simp_all add: w1_def quiet_on_conn)
  have "event_core n c w1" using event_core_calm [OF _ w1(1,2)] assms by (simp add: event_inv_def)
  then have "event_inv n c (conn_close sender_close_cb c w1)" by (rule event_inv_close)
  moreover have "event_inv n c w1" if "r = Drained"
    using event_inv_calm [OF assms w1] conn_adv_ok [OF sender_user.handle_read_adv [of c w]] that by (simp add: e)
  ultimately show ?thesis by (simp add: e)
qed

lemma event_write_inv:
  assumes "event_inv n c w"
  shows "event_inv n c (conn_handle_write sender_cbs c w)"
proof -
  let ?w' = "conn_handle_write sender_cbs c w"
  have "\<exists>v. quiet w v \<and> sd v = sd w \<and> cn_state (conns v c) = cn_state (conns w c) \<and> (?w' = v \<or> ?w' = conn_close sender_close_cb c v)"
  proof (cases "buf_empty (output_buffer (conns w c))")
    case True
    have "cn_state (conns (with_channel c disable_writing w) c) = cn_state (conns w c)" by (simp add: with_channel_def split_beta Let_def)
    with True show ?thesis
      by (intro exI [of _ "if is_writing (cn_channel (conns w c)) then with_channel c disable_writing w else w"])
        (simp add: conn_handle_write_def)
  next
    case False
    obtain r b s where l: "write_loop (output_buffer (conns w c)) (sk (conns w c)) = (r, b, s)" by (metis prod_cases3)
    define w1 where "w1 = on_conn c (\<lambda>cn. cn\<lparr>output_buffer := b, sk := s\<rparr>) w"
    define w2 where "w2 = (if is_writing (cn_channel (conns w1 c)) then with_channel c disable_writing w1 else w1)"
    define w3 where "w3 = (if shutdown_pending (conns w2 c)
        then on_conn c (\<lambda>cn. cn\<lparr>shutdown_pending := False, sk := sys_shutdown_wr (sk cn)\<rparr>) w2 else w2)"
    define w4 where "w4 = (if has_write_complete_cb (conns w3 c)
        then on_loop (loop_of c w3) (queue_in_loop (this_thread w3) (Task (WriteComplete c))) w3 else w3)"
    have q: "quiet w w1" "quiet w1 w2" "quiet w2 w3" "quiet w3 w4"
      by (simp_all add: w1_def w2_def w3_def w4_def quiet_on_conn)
    then have q4: "quiet w w4" by (blast intro: quiet_trans)
    have s: "sd w1 = sd w" "sd w4 = sd w" "cn_state (conns w1 c) = cn_state (conns w c)" "cn_state (conns w4 c) = cn_state (conns w c)"
      by (simp_all add: w1_def w2_def w3_def w4_def with_channel_def split_beta Let_def)
    have "?w' = (case r of Drained \<Rightarrow> w1 | IoError \<Rightarrow> conn_close sender_close_cb c w1 | EndOfStream \<Rightarrow> w4)"
      using False unfolding conn_handle_write_def l Let_def prod.case w1_def [symmetric] w2_def [symmetric] w3_def [symmetric] w4_def [symmetric]
      by (cases r) (simp_all add: client_cbs_def)
    then show ?thesis using q(1) q4 s by (cases r) auto
  qed
  then obtain v where v: "quiet w v" "sd v = sd w" "cn_state (conns v c) = cn_state (conns w c)" "?w' = v \<or> ?w' = conn_close sender_close_cb c v"
    by blast
  have "event_core n c v" using event_core_calm [OF _ v(1,2)] assms by (simp add: event_inv_def)
  then have "event_inv n c (conn_close sender_close_cb c v)" by (rule event_inv_close)
  moreover have "event_inv n c v" if "?w' = v"
    using event_inv_calm [OF assms v(1-3)] conn_adv_ok [OF sender_user.handle_write_adv [of c w]] by (simp add: that)
  ultimately show ?thesis using v(4) by auto
qed

lemma conn_event_inv:
  assumes "sender_inv n w" "connection (cl w) = Some c"
  shows "sender_inv n (conn_event sender_cbs c ev w)"
proof -
  have step: "event_inv n c ((case conn_channel_cbs sender_cbs c k of None \<Rightarrow> id | Some f \<Rightarrow> f) w)"
    if "event_inv n c w" for k and w :: "('a, 'b) sender_world_scheme"
    using event_read_inv [OF that] event_write_inv [OF that] event_inv_close [of n c w] that
    by (cases k) (simp_all add: client_cbs_def event_inv_def)
  have "event_inv n c w"
    using assms sender_inv_connected [OF assms] by (simp add: event_inv_def event_core_def sender_inv_def sender_live_def)
  then have "event_inv n c (fold (\<lambda>k. case conn_channel_cbs sender_cbs c k of None \<Rightarrow> id | Some f \<Rightarrow> f) ks w)" for ks
    by (induction ks arbitrary: w) (simp_all add: step)
  then show ?thesis
    using event_inv_sender assms(1) by (auto simp: conn_event_def handle_event_def handle_event_with_guard_def)
qed


section \<open>Sending\<close>

lemma linked_live:
  assumes "sender_linked n c w" "mpsc_inv (sd_queue (sd w))"
  shows "sender_live n w"
proof -
  have a: "client_inv n w" "connection (cl w) = Some c" using assms(1) by (simp_all add: sender_linked_def)
  have "connect_channel (cl w) = None" using client_invD(4,5) [OF a(1)] a(2) by auto
  then show ?thesis using assms by (simp add: sender_live_def sender_core_def sender_linked_def)
qed

lemma send_payload_live:
  assumes "sender_live n w" "w' = send_payload p w"
  shows "sender_live n w'" "stopped (sd w') = stopped (sd w)" "sd_client_alive (sd w') = sd_client_alive (sd w)"
    "connection (cl w) = None \<Longrightarrow> cl w' = cl w"
proof -
  have D: "sd_connection (sd w) = connection (cl w)" "mpsc_inv (sd_queue (sd w))" using assms(1) by (simp_all add: sender_live_def sender_core_def)
  have "sender_live n w' \<and> stopped (sd w') = stopped (sd w) \<and> sd_client_alive (sd w') = sd_client_alive (sd w)
    \<and> (connection (cl w) = None \<longrightarrow> cl w' = cl w)"
  proof (cases "connection (cl w)")
    case None
    let ?w = "on_sd (\<lambda>s. s\<lparr>sd_null_call := True\<rparr>) w"
    have "w' = ?w" using None by (simp add: assms(2) send_payload_def D(1))
    moreover have "client_inv n ?w" by (rule quiet_inv [OF quiet_on_sd]) (use assms(1) in \<open>simp add: sender_live_def sender_core_def\<close>)
    ultimately show ?thesis using assms(1) by (simp add: sender_live_def sender_core_def)
  next
    case (Some c)
    have l: "sender_linked n c w" using assms(1) Some by (simp add: sender_live_def sender_core_def sender_linked_def)
    show ?thesis
    proof (cases "is_open c w'")
      case True
      from send_payload_step(1) [OF l assms(2) True] linked_live [of n c w'] D(2) Some show ?thesis by auto
    next
      case False
      have st: "cn_state (conns w c) = kConnected" using l by (simp add: sender_linked_def connected_def)
      have w': "w' = conn_send sender_close_cb c (frame_encode p) w" by (simp add: assms(2) send_payload_def D(1) Some)
      obtain r rest s where sl: "send_loop (frame_encode p) (sk (conns w c)) = (r, rest, s)" by (metis prod_cases3)
      let ?w1 = "on_conn c (\<lambda>cn. cn\<lparr>sk := s\<rparr>) w"
      have "is_open c ?w1" "is_open c w" using st by (simp_all add: is_open_def)
      moreover have "is_open c (send_rest c d v) = is_open c v" for d and v :: "('a, 'b) sender_world_scheme" by (simp add: is_open_def)
      ultimately have e: "w' = conn_close sender_close_cb c ?w1"
        using False st by (auto simp: w' conn_send_def sl Let_def split: if_splits)
      have "sender_core n ?w1"
        using quiet_inv [of w ?w1 n] assms(1) by (simp add: sender_live_def sender_core_def quiet_on_conn)
      from sender_close_core [OF this _ e] Some show ?thesis by (simp add: sender_live_def)
    qed
  qed
  then show "sender_live n w'" "stopped (sd w') = stopped (sd w)" "sd_client_alive (sd w') = sd_client_alive (sd w)"
    "connection (cl w) = None \<Longrightarrow> cl w' = cl w" by simp_all
qed

lemma send_batch_live:
  assumes "sender_live n w" "w' = send_batch ps w"
  shows "sender_live n w' \<and> stopped (sd w') = stopped (sd w) \<and> sd_client_alive (sd w') = sd_client_alive (sd w)
    \<and> (connection (cl w) = None \<longrightarrow> cl w' = cl w)"
  using assms unfolding send_batch_def
proof (induction ps arbitrary: w)
  case (Cons p ps)
  note s = send_payload_live [OF Cons.prems(1) refl, of p]
  from Cons.IH [OF s(1)] Cons.prems(2) s(2-4) show ?case by auto
qed simp

lemma do_drain_live:
  assumes "sender_live n w" "w' = do_drain_and_send w"
  shows "sender_live n w' \<and> stopped (sd w') = stopped (sd w) \<and> sd_client_alive (sd w') = sd_client_alive (sd w)
    \<and> (connection (cl w) = None \<longrightarrow> cl w' = cl w)"
proof -
  have D: "client_inv n w" "snd_loop w = the_loop w" "mpsc_inv (sd_queue (sd w))" using assms(1) by (simp_all add: sender_live_def sender_core_def)
  let ?q = "(sd_queue (sd w))\<lparr>dropped := 0\<rparr>" and ?n = "dropped_notice (dropped (sd_queue (sd w)))" and ?m = "max_batch_per_tick (sd_opts (sd w))"
  obtain took batch q2 where d: "mpsc_drain ?n ?m ?q = (took, batch, q2)" by (metis prod_cases3)
  let ?w1 = "on_sd (\<lambda>s. s\<lparr>sd_queue := q2\<rparr>) w"
  have "mpsc_inv q2" using mpsc_drain_spec(3) [OF _ d] D(3) by simp
  then have i: "sender_live n ?w1"
    using assms(1) quiet_inv [OF quiet_on_sd, of n w] by (simp add: sender_live_def sender_core_def)
  have "w' = (if took = 0 \<and> dropped (sd_queue (sd w)) = 0 then ?w1 else send_batch batch ?w1)"
    using client_invD(2) [OF D(1)] D(2) by (simp add: assms(2) do_drain_and_send_def take_dropped_def d Let_def)
  with i send_batch_live [OF i refl, of batch] show ?thesis by simp
qed

lemma do_drain_inv:
  assumes "sender_inv n w"
  shows "sender_inv n (do_drain_and_send w)"
proof -
  have l: "sender_live n w" using assms by (simp add: sender_inv_def)
  have "cl (do_drain_and_send w) = cl w" if "stopped (sd w)"
    using do_drain_live [OF l refl] that assms client_invD(5) [OF sender_invD(1) [OF assms]] by (auto simp: sender_inv_def)
  then show ?thesis using do_drain_live [OF l refl] assms by (auto simp: sender_inv_def)
qed

lemma linked_sender_inv:
  "sender_linked n c w \<Longrightarrow> mpsc_inv (sd_queue (sd w)) \<Longrightarrow> \<not> stopped (sd w) \<Longrightarrow> sd_client_alive (sd w) \<Longrightarrow> sender_inv n w"
  by (simp add: sender_inv_def linked_live)

lemma on_tick_inv:
  assumes "sender_inv n w"
  shows "sender_inv n (on_tick w)"
  using sender_invD(2) [OF assms] assms do_drain_inv [OF assms] by (simp add: on_tick_def schedule_next_tick_inv)

lemma tick_fired_inv:
  assumes "sender_inv n w"
  shows "sender_inv n (tick_fired w)"
  unfolding tick_fired_def by (intro on_tick_inv sender_inv_on_sd [OF assms]) (simp_all add: sender_invD(3) [OF assms])

section \<open>Dialling\<close>

lemma sender_idle_core: "sender_idle w \<Longrightarrow> client_inv n w \<Longrightarrow> sender_core n w"
  by (simp add: sender_idle_def sender_core_def idle_def)

lemma idle_retry_inv:
  assumes "sender_idle w"
  shows "sender_inv n (schedule_retry w)"
proof -
  have "client_inv n (schedule_retry w)" using assms schedule_retry_inv(1) [of w n] by (simp add: sender_idle_def)
  then show ?thesis using assms by (intro sender_inv_closed) (simp_all add: sender_core_def sender_idle_def idle_def)
qed

lemma adopt_inv:
  assumes "sender_idle w" "retry_enabled (cl w)" "0 \<le> fd" "registered (new_channel fd) (loops w (the_loop w))"
  shows "sender_inv n (adopt_connection sender_on_connection fd rs ws w)"
proof -
  let ?c = "cl_next_cid w"
  define w1 where "w1 = on_conn ?c (\<lambda>_. (new_connection (the_loop w) fd (cl_peer (cl w)) rs ws)
      \<lparr>has_message_cb := cl_has_message_cb (cl w), has_close_cb := True\<rparr>) (w\<lparr>cl_next_cid := ?c + 1\<rparr>)"
  define w2 where "w2 = on_cl (\<lambda>k. k\<lparr>cl_state := CliConnected, backoff_ms := kInitialBackoffMs, connection := Some ?c\<rparr>) w1"
  define w3 where "w3 = sender_on_connection ?c w2"
  have i: "idle w" "cl_has_connection_cb (cl w)" "snd_loop w = the_loop w" using assms(1) by (simp_all add: sender_idle_def)
  have a: "adopt_connection sender_on_connection fd rs ws w = conn_start ?c w3"
    using i(2) unfolding adopt_connection_def Let_def w1_def [symmetric] w2_def [symmetric] by (simp add: w3_def) (simp add: w2_def w1_def)
  have own: "owner_tid (loops w (the_loop w)) = this_thread w" using i(1) by (simp add: idle_def client_base_def in_loop_thread_def)
  have ok2: "conn_ok ?c w2" "connected ?c w2"
    using assms(3,4) own by (simp_all add: w2_def w1_def conn_ok_def new_connection_def is_writing_def new_channel_def connected_def)
  have s2: "cl w2 = (cl w)\<lparr>cl_state := CliConnected, backoff_ms := kInitialBackoffMs, connection := Some ?c\<rparr>" "sd w2 = sd w"
    "in_loop_thread (snd_loop w2) w2" using own i(3) by (simp_all add: w2_def w1_def in_loop_thread_def)
  have ok3: "conn_ok ?c w3" using conn_adv_ok [OF sender_callbacks_conn(1) [OF ok2(1)]] by (simp add: w3_def)
  have s3: "sd w3 = (sd w)\<lparr>sd_connection := Some ?c, paused := False\<rparr>" "cl w3 = cl w2" "connected ?c w3"
    using s2 ok2(2) by (simp_all add: w3_def sender_on_connection_def Let_def) (simp add: connected_def set_high_water_mark_callback_def)
  have op3: "is_open ?c w3" using s3(3) by (simp add: connected_def is_open_def)
  note st = conn_start_adv [OF ok3 op3]
  have cl: "cl (conn_start ?c w3) = cl w3" "sd (conn_start ?c w3) = sd w3"
    by (simp_all add: conn_start_def with_channel_def loop_abort_def split_beta Let_def)
  have "connected ?c (conn_start ?c w3)" using st(2) s3(3) by (simp add: connected_def)
  moreover have "client_inv n (conn_start ?c w3)" using sender_ccb.adopt_connection_inv(1) [OF i(1) assms(2), of n fd rs ws] by (simp add: a)
  ultimately have "sender_linked n ?c (conn_start ?c w3)"
    using conn_adv_ok [OF st(1)] i(2,3) by (simp add: sender_linked_def cl s3(1,2) s2(1))
  then show ?thesis unfolding a by (rule linked_sender_inv) (use assms(1) in \<open>simp_all add: cl s3(1) sender_idle_def\<close>)
qed


text \<open>The end of an attempt, from a state that is idle but for the descriptor and the temporary channel.\<close>

lemma handshake_inv:
  assumes "sender_idle (on_cl (\<lambda>k. k\<lparr>connecting_fd := -1, connect_channel := None\<rparr>) w)" "0 \<le> connecting_fd (cl w)" "retry_enabled (cl w)"
    "case connect_channel (cl w) of None \<Rightarrow> registered (new_channel (connecting_fd (cl w))) (loops w (the_loop w))
       | Some ch \<Rightarrow> ch_fd ch = connecting_fd (cl w) \<and> registered ch (loops w (the_loop w))"
  shows "sender_inv n (handle_connect_writable sender_on_connection w)"
proof -
  let ?fd = "connecting_fd (cl w)"
  define w1 where "w1 = drop_connect_channel (on_cl (\<lambda>k. k\<lparr>connecting_fd := -1\<rparr>) w)"
  have own: "owner_tid (loops w (the_loop w)) = this_thread w"
    using assms(1) by (simp add: sender_idle_def idle_def client_base_def in_loop_thread_def)
  have "sender_idle w1 \<and> retry_enabled (cl w1) \<and> the_loop w1 = the_loop w \<and> registered (new_channel ?fd) (loops w1 (the_loop w))"
  proof (cases "connect_channel (cl w)")
    case None
    have "w1 = on_cl (\<lambda>k. k\<lparr>connecting_fd := -1, connect_channel := None\<rparr>) w"
      using None by (cases "cl w") (simp add: w1_def drop_connect_channel_def on_cl_def)
    then show ?thesis using None assms by simp
  next
    case (Some ch)
    obtain ch' l where d: "detach_channel (this_thread w) ch (loops w (the_loop w)) = (ch', l)" by fastforce
    have w1: "w1 = on_cl (\<lambda>k. k\<lparr>connect_channel := None\<rparr>) (on_loop (the_loop w) (\<lambda>_. l) (on_cl (\<lambda>k. k\<lparr>connecting_fd := -1\<rparr>) w))"
      using Some d by (simp add: w1_def drop_connect_channel_def)
    have ch: "ch_fd ch = ?fd" "registered ch (loops w (the_loop w))" using assms(4) Some by simp_all
    show ?thesis
      using assms(1,3) detach_registered [OF d own ch(2)] detach_channel_timers [of "this_thread w" ch "loops w (the_loop w)"]
      by (simp add: w1 d ch(1) sender_idle_def idle_def client_base_def in_loop_thread_def is_open_def)
  qed
  then have i: "sender_idle w1" "retry_enabled (cl w1)" "registered (new_channel ?fd) (loops w1 (the_loop w1))" by simp_all
  obtain err rs ws where h: "handshake w1 = (err, rs, ws)" by (metis prod_cases3)
  have e: "handle_connect_writable sender_on_connection w =
      (if err \<noteq> 0 then schedule_retry (on_loop (the_loop w1) (fd_close ?fd) w1) else adopt_connection sender_on_connection ?fd rs ws w1)"
    using assms(2) own by (simp add: handle_connect_writable_def in_loop_thread_def h flip: w1_def)
  have "sender_idle (on_loop (the_loop w1) (fd_close ?fd) w1)"
    using i(1) quiet_idle [OF quiet_drop_fd(1), of w1 "the_loop w1" ?fd] by (simp add: sender_idle_def)
  from idle_retry_inv [OF this] adopt_inv [OF i(1,2) assms(2) i(3)] show ?thesis by (simp add: e)
qed

lemma start_connect_sender_inv:
  assumes "sender_idle w" "fresh_fd w" "retry_enabled (cl w)"
  shows "sender_inv n (start_connect sender_on_connection w)"
proof -
  let ?w0 = "w\<lparr>dial_script := tl (dial_script w)\<rparr>"
  define d where "d = (case dial_script w of [] \<Rightarrow> SocketErr | d # _ \<Rightarrow> d)"
  have i: "idle w" using assms(1) by (simp add: sender_idle_def)
  have il: "in_loop_thread (the_loop w) w" using i by (simp add: idle_def client_base_def)
  have ok: "dial_fd_ok d" using i by (cases "dial_script w") (simp_all add: idle_def client_base_def d_def dial_fd_ok_def)
  have fr: "interest (ep (loops w (the_loop w))) fd = None" if "dial_fd d = Some fd" for fd
    using assms(2) that by (cases "dial_script w") (simp_all add: fresh_fd_def d_def dial_fd_def)
  have i0: "sender_idle ?w0" using assms(1) idle_dial_tl [OF i] by (simp add: sender_idle_def)
  define v where "v fd h = on_cl (\<lambda>k. k\<lparr>connecting_fd := fd, cl_state := CliConnecting\<rparr>) ((take_fd fd ?w0)\<lparr>handshake := h\<rparr>)" for fd h
  have v: "sender_idle (on_cl (\<lambda>k. k\<lparr>connecting_fd := -1, connect_channel := None\<rparr>) (v fd h))" "connecting_fd (cl (v fd h)) = fd"
    "retry_enabled (cl (v fd h))" "connect_channel (cl (v fd h)) = None" "the_loop (v fd h) = the_loop w" "this_thread (v fd h) = this_thread w" for fd h
    using i0 assms(3) by (auto simp: v_def take_fd_def sender_idle_def idle_def client_base_def in_loop_thread_def is_open_def fd_open_def)
  have reg: "registered (new_channel fd) (loops (v fd h) (the_loop w))" if "dial_fd d = Some fd" for fd h
    using fr [OF that] by (simp add: v_def take_fd_def fd_open_def registered_def new_channel_def)
  have st: "start_connect sender_on_connection w = (case d of SocketErr \<Rightarrow> schedule_retry ?w0
      | NonblockErr fd \<Rightarrow> schedule_retry (on_loop (the_loop w) (fd_close fd) (take_fd fd ?w0))
      | ConnectErr fd \<Rightarrow> schedule_retry (on_loop (the_loop w) (fd_close fd) (take_fd fd ?w0))
      | ConnectNow fd err rs ws \<Rightarrow> handle_connect_writable sender_on_connection (v fd (err, rs, ws))
      | InProgress fd err rs ws \<Rightarrow>
          let (ch, l) = enable_writing (this_thread (v fd (err, rs, ws))) (new_channel fd) (loops (v fd (err, rs, ws)) (the_loop w))
          in on_cl (\<lambda>k. k\<lparr>connect_channel := Some ch\<rparr>) (on_loop (the_loop w) (\<lambda>_. l) (v fd (err, rs, ws))))"
    using il assms(3) by (simp add: start_connect_def d_def [symmetric] v_def take_fd_def Let_def cong: dial.case_cong)
  have fail: "sender_inv n (schedule_retry (on_loop (the_loop w) (fd_close fd) (take_fd fd ?w0)))" for fd
    using i0 idle_take_fd [of ?w0 "the_loop w" fd] by (intro idle_retry_inv) (simp add: sender_idle_def take_fd_def)
  show ?thesis
  proof (cases d)
    case (InProgress fd err rs ws)
    let ?v = "v fd (err, rs, ws)"
    obtain ch l where u: "enable_writing (this_thread ?v) (new_channel fd) (loops ?v (the_loop w)) = (ch, l)" by fastforce
    let ?w' = "on_cl (\<lambda>k. k\<lparr>connect_channel := Some ch\<rparr>) (on_loop (the_loop w) (\<lambda>_. l) ?v)"
    have e: "start_connect sender_on_connection w = ?w'" by (simp add: st InProgress u)
    have up: "update_channel (this_thread w) ((new_channel fd)\<lparr>ch_events := ch_events (new_channel fd) OR EPOLLOUT\<rparr>) (loops ?v (the_loop w)) = (ch, l)"
      using u by (simp add: enable_writing_def v(6))
    have own: "owner_tid (loops ?v (the_loop w)) = this_thread w" using il by (simp add: v_def take_fd_def fd_open_def in_loop_thread_def)
    have "registered ((new_channel fd)\<lparr>ch_events := ch_events (new_channel fd) OR EPOLLOUT\<rparr>) (loops ?v (the_loop w))"
      using reg [of fd] InProgress by (simp add: dial_fd_def registered_def)
    note rg = update_channel_registered(1) [OF up own this] and fd = update_channel_frame(1) [OF up]
    have "client_inv n ?w'" using sender_ccb.start_connect_inv(1) [OF i, of n] by (simp add: e)
    then have "sender_core n ?w'" using i0 by (simp add: sender_core_def sender_idle_def v_def take_fd_def) (simp add: idle_def)
    moreover have "connection (cl ?w') = None" using i0 by (simp add: v_def take_fd_def sender_idle_def idle_def)
    ultimately show ?thesis unfolding e
      using rg fd i0 by (simp add: sender_inv_def sender_live_def v(5) registered_def) (simp add: v_def take_fd_def sender_idle_def new_channel_def)
  next
    case (ConnectNow fd err rs ws)
    have "sender_inv n (handle_connect_writable sender_on_connection (v fd (err, rs, ws)))"
      by (rule handshake_inv [OF v(1)]) (use ok ConnectNow reg v(2-5) in \<open>simp_all add: dial_fd_ok_def dial_fd_def\<close>)
    then show ?thesis by (simp add: st ConnectNow)
  qed (use idle_retry_inv [OF i0] fail st in simp_all)
qed


lemma inv_sender_idle:
  assumes "sender_inv n w" "cl_state (cl w) = CliDisconnected \<or> cl_state (cl w) = CliRetrying" "\<not> stopped (sd w)"
  shows "sender_idle w"
proof -
  have "idle w" using inv_idle [OF sender_invD(1) [OF assms(1)] assms(2)] .
  then show ?thesis using assms(1,3) by (simp add: sender_idle_def sender_inv_def sender_live_def sender_core_def) (simp add: idle_def)
qed

lemma connect_inv:
  assumes "sender_inv n w" "fresh_fd w" "\<not> stopped (sd w)"
  shows "sender_inv n (client_connect sender_on_connection w)"
proof -
  note D = sender_invD [OF assms(1)]
  let ?w1 = "on_cl (\<lambda>k. k\<lparr>retry_enabled := True, backoff_ms := kInitialBackoffMs\<rparr>) w"
  have "sender_inv n (start_connect sender_on_connection ?w1)" if "cl_state (cl w) \<noteq> CliConnecting" "cl_state (cl w) \<noteq> CliConnected"
  proof (rule start_connect_sender_inv)
    have "cl_state (cl w) = CliDisconnected \<or> cl_state (cl w) = CliRetrying" using that by (cases "cl_state (cl w)") simp_all
    from inv_sender_idle [OF assms(1) this assms(3)] show "sender_idle ?w1"
      by (simp add: sender_idle_def idle_def client_base_def backoff_ok_def kInitialBackoffMs_def)
    show "fresh_fd ?w1" using assms(2) by (simp add: fresh_fd_def)
  qed simp
  then show ?thesis using assms(1) D(2,4) by (simp add: client_connect_def run_in_loop_def connect_in_loop_def)
qed

lemma start_inv:
  assumes "sender_inv n w" "fresh_fd w"
  shows "sender_inv n (start_in_loop w)"
proof -
  note D = sender_invD [OF assms(1)]
  let ?w1 = "on_sd (\<lambda>s. s\<lparr>started := True\<rparr>) w"
  have i1: "sender_inv n ?w1" by (rule sender_inv_on_sd [OF assms(1)]) (simp_all add: D(3))
  have "sender_inv n (on_sd (\<lambda>s. s\<lparr>sd_null_call := True\<rparr>) ?w1)" by (rule sender_inv_on_sd [OF i1]) (simp_all add: D(3))
  moreover have "sender_inv n (client_connect sender_on_connection ?w1)" if "sd_client_alive (sd ?w1)"
  proof (rule connect_inv [OF i1])
    show "fresh_fd ?w1" using assms(2) by (simp add: fresh_fd_def)
    show "\<not> stopped (sd ?w1)" using i1 that by (simp add: sender_inv_def sender_live_def)
  qed
  ultimately show ?thesis using assms(1) D(2) by (simp add: start_in_loop_def Let_def schedule_next_tick_inv)
qed

lemma retry_inv:
  assumes "sender_inv (Suc n) w" "fresh_fd w" "sd_client_alive (sd w)"
  shows "sender_inv n (retry_fired sender_on_connection w)"
proof (cases "cl_state (cl w) = CliRetrying")
  case True
  have "\<not> stopped (sd w)" using assms(1,3) by (simp add: sender_inv_def sender_live_def)
  with inv_sender_idle [OF assms(1)] True have "sender_idle w" by blast
  moreover have "retry_enabled (cl w)" using client_invD(10) [OF sender_invD(1) [OF assms(1)]] True by simp
  ultimately show ?thesis using start_connect_sender_inv [OF _ assms(2)] True by (simp add: retry_fired_def)
next
  case False
  then have "client_inv n w" by (intro client_inv_frame [OF sender_invD(1) [OF assms(1)] client_invD(1) [OF sender_invD(1) [OF assms(1)]]]) simp_all
  from sender_inv_frame [OF assms(1) this] sender_invD(3) [OF assms(1)] False show ?thesis by (simp add: retry_fired_def)
qed

lemma handshake_step_inv:
  assumes "sender_inv n w" "connect_channel (cl w) = Some ch"
  shows "sender_inv n (handle_connect_writable sender_on_connection w)"
proof -
  note D = client_invD [OF sender_invD(1) [OF assms(1)]]
  have st: "cl_state (cl w) = CliConnecting" using D(4) assms(2) by blast
  then have c: "0 \<le> connecting_fd (cl w)" "connection (cl w) = None" "retry_enabled (cl w)" "\<not> stopped (sd w)"
    using D(3,5,10) assms(1) by (auto simp: sender_inv_def sender_live_def)
  moreover have "\<not> is_open d w" if "d < cl_next_cid w" for d using D(9) [OF that] c(2) by auto
  ultimately have "sender_idle (on_cl (\<lambda>k. k\<lparr>connecting_fd := -1, connect_channel := None\<rparr>) w)"
    using assms(1) D(1) by (simp add: sender_idle_def idle_def client_base_def sender_inv_def sender_live_def sender_core_def)
  from handshake_inv [OF this c(1,3)] assms show ?thesis by (simp add: sender_inv_def sender_live_def)
qed


section \<open>Stopping\<close>

text \<open>
  Cancelling a timer keeps everything but the promise that a client waiting for a retry has a timer;
  the larger number makes that promise void.
\<close>

lemma cancel_live:
  assumes "sender_live n w" "w' = cancel_timer (snd_loop w) k w"
  shows "sender_live (Suc n) w'" "cl w' = cl w"
proof -
  have a: "client_inv n w" "snd_loop w = the_loop w" using assms(1) by (simp_all add: sender_live_def sender_core_def)
  show cl: "cl w' = cl w" by (simp add: assms(2) cancel_timer_eq)
  have "client_base w'"
    using client_invD(1) [OF a(1)] by (auto simp: assms(2) client_base_def cancel_timer_eq in_loop_thread_def cancel_inv)
  then have "client_inv (Suc n) w'"
    by (rule client_inv_frame [OF a(1)]) (simp_all add: cl, simp_all add: assms(2) is_open_def cancel_timer_eq)
  moreover have "this_thread w' = this_thread w" "owner_tid (loops w' i) = owner_tid (loops w i)" "ep (loops w' i) = ep (loops w i)" for i
    by (auto simp: assms(2) cancel_timer_eq queue_in_loop_def push_functor_def wakeup_def Let_def)
  moreover have "conns w' = conns w" "sd w' = sd w" by (simp_all add: assms(2))
  ultimately show "sender_live (Suc n) w'"
    using assms(1) conn_ok_cong [of w' _ w] by (auto simp: sender_live_def sender_core_def cl connected_def registered_def)
qed

lemma shutdown_core:
  assumes "sender_core n w" "w' = conn_shutdown c w"
  shows "sender_core n w'" "sd w' = sd w"
proof -
  have q: "quiet w (on_conn c (\<lambda>cn. cn\<lparr>cn_state := kDisconnecting\<rparr>) w)" if "cn_state (conns w c) = kConnected"
    using that by (simp add: quiet_on_conn)
  have "quiet v (shutdown_in_loop c v)" for v :: "('a, 'b) sender_world_scheme"
    by (auto simp: shutdown_in_loop_def loop_abort_def intro: quiet_on_conn quiet_on_loop)
  then have w': "quiet w w'" using quiet_trans [OF q] by (simp add: assms(2) conn_shutdown_def run_in_loop_def)
  show sd: "sd w' = sd w" by (simp add: assms(2) conn_shutdown_def run_in_loop_def shutdown_in_loop_def)
  from w' assms(1) quiet_inv [OF w'] show "sender_core n w'" by (simp add: sender_core_def sd) (simp add: quiet_def)
qed

lemma drop_attempt_frame [simp]:
  "sd (drop_connect_channel w) = sd w" "sd (close_connecting_fd w) = sd w"
  "cl_has_connection_cb (cl (drop_connect_channel w)) = cl_has_connection_cb (cl w)" "the_loop (drop_connect_channel w) = the_loop w"
  "cl_has_connection_cb (cl (close_connecting_fd w)) = cl_has_connection_cb (cl w)" "the_loop (close_connecting_fd w) = the_loop w"
  by (simp_all add: drop_connect_channel_def close_connecting_fd_def split_beta split: option.split)

text \<open>\<open>disconnect\<close> brings the client to rest.\<close>

lemma disconnect_core:
  assumes "sender_core n w" "w' = client_disconnect sender_on_connection w"
  shows "sender_core n w'" "cl_state (cl w') = CliDisconnected" "stopped (sd w') = stopped (sd w)" "sd_client_alive (sd w') = sd_client_alive (sd w)"
proof -
  have a: "client_inv n w" "cl_has_connection_cb (cl w)" "snd_loop w = the_loop w" "sd_connection (sd w) = connection (cl w)"
    "mpsc_inv (sd_queue (sd w))" using assms(1) by (simp_all add: sender_core_def)
  note D = client_invD [OF a(1)]
  let ?w1 = "on_cl (\<lambda>k. k\<lparr>retry_enabled := False\<rparr>) w"
  have w': "w' = disconnect_in_loop sender_on_connection w" using D(2) by (simp add: assms(2) client_disconnect_def run_in_loop_def)
  note e = sender_ccb.disconnect_in_loop_effect [OF a(1) w']
  show st: "cl_state (cl w') = CliDisconnected" using client_invD(10) [OF e(1)] e(2) by blast
  then have none: "connection (cl w') = None" using client_invD(5) [OF e(1)] by simp
  have "sd_connection (sd w') = None \<and> sd_queue (sd w') = sd_queue (sd w) \<and> snd_loop w' = snd_loop w \<and> stopped (sd w') = stopped (sd w)
    \<and> sd_client_alive (sd w') = sd_client_alive (sd w) \<and> cl_has_connection_cb (cl w') \<and> the_loop w' = the_loop w"
  proof (cases "connection (cl w)")
    case (Some c)
    then have s: "cl_state (cl w) = CliConnected" using D(5) by blast
    have c: "connecting_fd (cl w) < 0" "connect_channel (cl w) = None" using D(3,4) s by auto
    have x: "w' = conn_close sender_close_cb c ?w1" using D(2) s Some by (simp add: w' disconnect_in_loop_def)
    have b: "client_base ?w1" using D(1) by (simp add: client_base_def)
    have "\<And>d. d < cl_next_cid ?w1 \<Longrightarrow> is_open d ?w1 \<Longrightarrow> d = c" using D(9) Some by force
    then obtain v where v: "w' = schedule_retry v" "cl v = (cl ?w1)\<lparr>connection := None\<rparr>"
      using sender_ccb.close_schedules [OF b, of c] D(7,8) [OF Some] c unfolding x by auto
    have "has_close_cb (conns ?w1 c)" "is_open c ?w1" using D(7,8) [OF Some] by simp_all
    then have "sd w' = (sd ?w1)\<lparr>sd_connection := None, paused := False\<rparr>" using D(2) a(2,3) unfolding x by (intro close_sd) simp_all
    then show ?thesis using v a(2) by simp
  next
    case None
    then have "cl_state (cl w) \<noteq> CliConnected" using D(5) by blast
    then show ?thesis using D(2) None a by (cases "cl_state (cl w)")
      (simp_all add: w' disconnect_in_loop_def Let_def)
  qed
  then show "sender_core n w'" "stopped (sd w') = stopped (sd w)" "sd_client_alive (sd w') = sd_client_alive (sd w)"
    using e(1) a none by (auto simp: sender_core_def)
qed


lemma destroy_at_rest:
  assumes "sender_core n w" "cl_state (cl w) = CliDisconnected" "w' = client_destroy sender_on_connection w"
  shows "sender_core n w'" "cl_state (cl w') = CliDisconnected" "connect_channel (cl w') = None" "sd w' = sd w"
proof -
  have a: "client_inv n w" using assms(1) by (simp add: sender_core_def)
  note D = client_invD [OF a]
  let ?w1 = "on_cl (\<lambda>k. k\<lparr>retry_enabled := False\<rparr>) w"
  have r: "connection (cl w) = None" "connect_channel (cl w) = None" "connecting_fd (cl w) < 0" "\<not> retry_enabled (cl w)"
    using D(3-5,10) assms(2) by auto
  have "(cl w)\<lparr>retry_enabled := False\<rparr> = cl w" using r(4) by (cases "cl w") simp
  then have cl: "cl ?w1 = cl w" by simp
  have w': "w' = ?w1" using D(2) r by (simp add: assms(3) client_destroy_def drop_connect_channel_def close_connecting_fd_def)
  have "client_base ?w1" using D(1) by (simp add: client_base_def)
  then have "client_inv n ?w1" by (rule client_inv_frame [OF a _ cl]) (use assms(2) in simp_all)
  then show "sender_core n w'" "cl_state (cl w') = CliDisconnected" "connect_channel (cl w') = None" "sd w' = sd w"
    using assms(1,2) r(2) by (simp_all add: w' sender_core_def)
qed

lemma client_inv_mono:
  assumes "client_inv m w" "cl_state (cl w) = CliRetrying \<longrightarrow> m \<le> n"
  shows "client_inv n w"
  by (rule client_inv_frame [OF assms(1) client_invD(1) [OF assms(1)]]) (use assms(2) in auto)

lemma stop_inv:
  assumes "sender_inv n w"
  shows "sender_inv n (stop_in_loop w)"
proof (cases "stopped (sd w)")
  case False
  note D = sender_invD [OF assms]
  define w1 where "w1 = on_sd (\<lambda>s. s\<lparr>stopped := True\<rparr>) w"
  define w2 where "w2 = (if tick_timer_id (sd w1) \<noteq> 0
      then on_sd (\<lambda>s. s\<lparr>tick_timer_id := 0\<rparr>) (cancel_timer (snd_loop w1) (tick_timer_id (sd w1)) w1) else w1)"
  define w3 where "w3 = (if sender_ready w2 then do_drain_and_send w2 else w2)"
  define w4 where "w4 = (case sd_connection (sd w3) of None \<Rightarrow> w3 | Some c \<Rightarrow> conn_shutdown c w3)"
  define w5 where "w5 = client_disconnect sender_on_connection w4"
  define w6 where "w6 = client_destroy sender_on_connection (on_sd (\<lambda>s. s\<lparr>sd_connection := None\<rparr>) w5)"
  have e: "stop_in_loop w = on_sd (\<lambda>s. s\<lparr>sd_client_alive := False\<rparr>) w6"
    using D(2) False unfolding stop_in_loop_def Let_def w1_def [symmetric] w2_def [symmetric] w3_def [symmetric] w4_def [symmetric]
      w5_def [symmetric] w6_def [symmetric] by simp
  have on_sd: "sender_live m v \<Longrightarrow> sd_connection (k (sd v)) = sd_connection (sd v) \<Longrightarrow> sender_loop (k (sd v)) = snd_loop v
      \<Longrightarrow> mpsc_inv (sd_queue (k (sd v))) \<Longrightarrow> sender_live m (on_sd k v)" for m k and v :: "('a, 'b) sender_world_scheme"
    using quiet_inv [OF quiet_on_sd, of m v k] by (simp add: sender_live_def sender_core_def)
  have mono: "sender_live (Suc n) v" if "sender_live n v" for v :: "('a, 'b) sender_world_scheme"
    using that client_inv_mono [of n v "Suc n"] by (simp add: sender_live_def sender_core_def)
  have "sender_live n w1" using assms D(3) unfolding w1_def by (intro on_sd) (simp_all add: sender_inv_def)
  moreover have "mpsc_inv (sd_queue (sd w1))" by (simp add: w1_def D(3))
  ultimately have l2: "sender_live (Suc n) w2"
    using cancel_live(1) [of n w1] mono unfolding w2_def by (auto intro!: on_sd)
  have "stopped (sd w2)" by (simp add: w2_def w1_def)
  then have l3: "sender_live (Suc n) w3" "stopped (sd w3)" using do_drain_live [OF l2 refl] l2 by (simp_all add: w3_def)
  have "sender_core (Suc n) w3" using l3(1) by (simp add: sender_live_def)
  then have c4: "sender_core (Suc n) w4" "stopped (sd w4)"
    using shutdown_core(1,2) [OF \<open>sender_core (Suc n) w3\<close> refl] l3(2) by (cases "sd_connection (sd w3)"; simp add: w4_def)+
  note c5 = disconnect_core [OF c4(1) w5_def]
  have i5: "client_inv (Suc n) w5" using c5(1) by (simp add: sender_core_def)
  have "connection (cl w5) = None" using client_invD(5) [OF i5] c5(2) by simp
  moreover have "client_inv (Suc n) (on_sd (\<lambda>s. s\<lparr>sd_connection := None\<rparr>) w5)"
    by (rule quiet_inv [OF quiet_on_sd i5])
  ultimately have "sender_core (Suc n) (on_sd (\<lambda>s. s\<lparr>sd_connection := None\<rparr>) w5)" using c5(1) by (simp add: sender_core_def)
  note c6 = destroy_at_rest [OF this _ w6_def, simplified, OF c5(2)]
  have "client_inv n w6" by (rule client_inv_mono [of "Suc n"]) (use c6(1,2) in \<open>simp_all add: sender_core_def\<close>)
  then have "sender_core n w6" using c6(1) by (simp add: sender_core_def)
  moreover have "connection (cl w6) = None" using client_invD(5) [OF \<open>client_inv n w6\<close>] c6(2) by simp
  moreover have "client_inv n (on_sd (\<lambda>s. s\<lparr>sd_client_alive := False\<rparr>) w6)"
    by (rule quiet_inv [OF quiet_on_sd \<open>client_inv n w6\<close>])
  ultimately show ?thesis using c6(2-4) c5(3) c4(2) by (simp add: e sender_inv_def sender_live_def sender_core_def)
qed (use assms sender_invD(2) [OF assms] in \<open>simp add: stop_in_loop_def\<close>)


section \<open>Every reachable state\<close>

lemma sender_step_inv:
  assumes "sender_step s t" "case s of (w, n) \<Rightarrow> sender_inv n w"
  shows "case t of (w, n) \<Rightarrow> sender_inv n w"
  using assms
proof (induction rule: sender_step.induct)
  case (SHandshake w n)
  then show ?case using handshake_step_inv by auto
next
  case (SWake w n)
  then show ?case by (simp add: wake_fired_def on_tick_inv)
qed (simp_all add: start_inv push_inv tick_fired_inv conn_event_inv expire_inv retry_inv stop_inv other_work_inv tasks_inv
    del: run_conn_task.simps)

interpretation sender_sys: invariant_system sender_init sender_step "\<lambda>(w, n). sender_inv n w"
  by unfold_locales (auto intro: sender_inv_init dest: sender_step_inv)

lemma reach_sender_inv: "reach sender_init sender_step (w, n) \<Longrightarrow> sender_inv n w"
  using sender_sys.reach_inv [of "(w, n)"] by simp

end
