(* ===== verification/Log_Sender_Guarantees.thy ===== *)
theory Log_Sender_Guarantees
  imports Log_Sender_Life
begin

text \<open>
  What follows for a \<open>LogSender\<close> from the invariant of its life: sender and client agree on the connection,
  ticks empty the queue, and what \<open>stop\<close> leaves behind. The sample states are reached from a fresh sender.
\<close>

section \<open>The life of a sender\<close>


section \<open>A sender that connects\<close>

lemma adopt_connects:
  assumes "c = cl_next_cid w" "in_loop_thread (snd_loop w) w" "cl_has_connection_cb (cl w)" "w' = adopt_connection sender_on_connection fd rs ws w"
  shows "connection (cl w') = Some c" "sk (conns w' c) = sk (new_connection (the_loop w) fd (cl_peer (cl w)) rs ws)"
    "output_buffer (conns w' c) = new_buffer" "sd_queue (sd w') = sd_queue (sd w)" "sd_opts (sd w') = sd_opts (sd w)" "\<not> paused (sd w')"
proof -
  have "conns (with_channel c enable_reading v) c = (conns v c)\<lparr>cn_channel := cn_channel (conns (with_channel c enable_reading v) c)\<rparr>"
    for v :: "('a, 'b) sender_world_scheme" by (simp add: with_channel_def split_beta Let_def)
  then have c: "sk (conns (conn_start c v) c) = sk (conns v c)" "output_buffer (conns (conn_start c v) c) = output_buffer (conns v c)"
    "cl (conn_start c v) = cl v" "sd (conn_start c v) = sd v"
    for v :: "('a, 'b) sender_world_scheme"
    by (simp_all add: conn_start_def loop_abort_def with_channel_def split_beta Let_def)
  have b: "sk (conns (sender_on_connection c v) c) = sk (conns v c)" "output_buffer (conns (sender_on_connection c v) c) = output_buffer (conns v c)"
    "cl (sender_on_connection c v) = cl v" "sd_queue (sd (sender_on_connection c v)) = sd_queue (sd v)"
    "sd_opts (sd (sender_on_connection c v)) = sd_opts (sd v)" "in_loop_thread (snd_loop v) v \<Longrightarrow> \<not> paused (sd (sender_on_connection c v))"
    for v :: "('a, 'b) sender_world_scheme"
    by (simp_all add: sender_on_connection_def loop_abort_def set_high_water_mark_callback_def Let_def)
  show "connection (cl w') = Some c" "sk (conns w' c) = sk (new_connection (the_loop w) fd (cl_peer (cl w)) rs ws)"
    "output_buffer (conns w' c) = new_buffer" "sd_queue (sd w') = sd_queue (sd w)" "sd_opts (sd w') = sd_opts (sd w)" "\<not> paused (sd w')"
    using assms(2,3) unfolding assms(4) adopt_connection_def Let_def assms(1) [symmetric] in_loop_thread_def
    by (simp_all add: c b in_loop_thread_def) (simp_all add: new_connection_def)
qed

text \<open>A sender on a fresh loop, for the answers to its attempts; and one whose first attempt succeeds.\<close>

definition fresh_sender :: "dial list \<Rightarrow> unit sender_world" where
  "fresh_sender ds = new_log_sender 0 [] default_options ((sample_sender [] False)\<lparr>dial_script := ds, cl_next_cid := 0\<rparr>)"

definition linked_sender :: "wr_result list \<Rightarrow> unit sender_world" where
  "linked_sender ws = handle_connect_writable sender_on_connection (start_in_loop (fresh_sender [InProgress 7 0 [] ws]))"

lemma sample_loop_ep:
  "ep (new_event_loop i 5 6 []) = \<lparr>interest = [5 \<mapsto> kReadEvent OR EPOLLET, 6 \<mapsto> kReadEvent OR EPOLLET], closed_fds = {}, ctl_faults = []\<rparr>"
  by (simp add: new_event_loop_def channel_ops update_channel_def epoll_add_def ctl_fault_def new_channel_def Let_def)

lemma fresh_sender_reach:
  assumes "list_all dial_fd_ok ds"
  shows "reach sender_init sender_step (fresh_sender ds, 0)"
proof -
  let ?v = "(sample_sender [] False)\<lparr>dial_script := ds, cl_next_cid := 0\<rparr>"
  have "in_loop_thread 0 ?v \<and> tq_inv (timer_queue (loops ?v 0)) \<and> list_all dial_fd_ok (dial_script ?v) \<and> cl_next_cid ?v = 0"
    using assms by (simp add: sample_sender_def in_loop_thread_def)
  then have "sender_init (fresh_sender ds, 0)" unfolding sender_init_def fresh_sender_def by blast
  then show ?thesis by (rule reach.intros(1))
qed

lemma started_reach:
  assumes "dial_fd_ok d" "\<And>fd. dial_fd d = Some fd \<Longrightarrow> fd \<noteq> 5 \<and> fd \<noteq> 6"
  shows "reach sender_init sender_step (start_in_loop (fresh_sender [d]), 0)"
proof -
  have "fresh_fd (fresh_sender [d])"
    using assms(2) by (simp add: fresh_fd_def fresh_sender_def new_log_sender_def new_client_def sample_sender_def sample_loop_ep)
  moreover have "reach sender_init sender_step (fresh_sender [d], 0)" by (rule fresh_sender_reach) (simp add: assms(1))
  ultimately show ?thesis by (blast intro: reach.intros(2) SStart)
qed

lemma start_fresh:
  "start_in_loop (fresh_sender ds) = schedule_next_tick (client_connect sender_on_connection (on_sd (\<lambda>s. s\<lparr>started := True\<rparr>) (fresh_sender ds)))"
  by (simp add: start_in_loop_def) (simp add: fresh_sender_def new_log_sender_def sample_sender_def in_loop_thread_def)

lemma schedule_next_tick_frame:
  "cl (schedule_next_tick w) = cl w" "handshake (schedule_next_tick w) = handshake w" "cl_next_cid (schedule_next_tick w) = cl_next_cid w"
  "sd_opts (sd (schedule_next_tick w)) = sd_opts (sd w)"
proof -
  have h: "handshake (on_sd k u) = handshake u" for k and u :: "('a, 'b) sender_world_scheme" by (simp add: on_sd_def)
  show "cl (schedule_next_tick w) = cl w" "handshake (schedule_next_tick w) = handshake w" "cl_next_cid (schedule_next_tick w) = cl_next_cid w"
    "sd_opts (sd (schedule_next_tick w)) = sd_opts (sd w)"
    by (simp_all add: schedule_next_tick_def loop_abort_def run_after_def run_at_eq [OF alloc_timer_id_def] h)
qed

lemma started_sender:
  assumes "w = start_in_loop (fresh_sender [InProgress 7 0 [] ws])"
  shows "connect_channel (cl w) \<noteq> None" "connecting_fd (cl w) = 7" "handshake w = (0, [], ws)" "cl_next_cid w = 0"
    "sd_queue (sd w) = new_mpsc [] 10000" "sd_opts (sd w) = default_options"
  unfolding assms start_fresh schedule_next_tick_frame schedule_next_tick_sd
  by (simp_all add: client_connect_def run_in_loop_def connect_in_loop_def start_connect_def fresh_sender_def new_log_sender_def new_client_def
      sample_sender_def in_loop_thread_def take_fd_def fd_open_def on_cl_def on_loop_def on_sd_def split_beta default_options_def Let_def)

lemma started_sender_reach: "reach sender_init sender_step (start_in_loop (fresh_sender [InProgress 7 0 [] ws]), 0)"
  by (rule started_reach) (simp_all add: dial_fd_ok_def dial_fd_def)

lemma linked_sender_reach: "reach sender_init sender_step (linked_sender ws, 0)"
  unfolding linked_sender_def
  by (rule reach.intros(2) [OF started_sender_reach]) (rule SHandshake [OF started_sender(1) [OF refl]])

lemma linked_sender_props:
  "connection (cl (linked_sender ws)) = Some 0" "wr_script (sk (conns (linked_sender ws) 0)) = ws" "stream 0 (linked_sender ws) = []"
  "sd_queue (sd (linked_sender ws)) = new_mpsc [] 10000" "sd_opts (sd (linked_sender ws)) = default_options" "\<not> paused (sd (linked_sender ws))"
proof -
  define w where "w = start_in_loop (fresh_sender [InProgress 7 0 [] ws])"
  note s = started_sender [OF w_def]
  note S = sender_invD [OF reach_sender_inv [OF started_sender_reach [of ws, folded w_def]]]
  define w1 where "w1 = drop_connect_channel (on_cl (\<lambda>k. k\<lparr>connecting_fd := -1\<rparr>) w)"
  have w1: "handshake w1 = (0, [], ws)" "cl_next_cid w1 = 0" "sd w1 = sd w" "in_loop_thread (snd_loop w1) w1" "cl_has_connection_cb (cl w1)"
    using s(3,4) S(2,4,5) detach_channel_timers [of "this_thread w" _ "loops w (the_loop w)"]
    by (simp_all add: w1_def drop_connect_channel_def split_beta in_loop_thread_def split: option.split)
  have "linked_sender ws = adopt_connection sender_on_connection 7 [] ws w1"
    using S(2,4) by (simp add: linked_sender_def handle_connect_writable_def s(2) w1(1) flip: w_def w1_def)
  note a = adopt_connects [OF w1(2) [symmetric] w1(4,5) this]
  show "connection (cl (linked_sender ws)) = Some 0" "wr_script (sk (conns (linked_sender ws) 0)) = ws" "stream 0 (linked_sender ws) = []"
    "sd_queue (sd (linked_sender ws)) = new_mpsc [] 10000" "sd_opts (sd (linked_sender ws)) = default_options" "\<not> paused (sd (linked_sender ws))"
    using a s(5,6) by (simp_all add: stream_def new_connection_def w1(3))
qed



section \<open>Ticks empty the queue\<close>

lemma tick_drains:
  assumes "sender_linked n c w" "mpsc_inv (sd_queue (sd w))" "\<not> stopped (sd w)" "\<not> paused (sd w)" "is_open c (tick_fired w)" "w' = tick_fired w"
  shows "sender_linked n c w'" "mpsc_inv (sd_queue (sd w'))" "\<not> stopped (sd w')" "\<not> paused (sd w')" "sd_opts (sd w') = sd_opts (sd w)"
    "dropped (sd_queue (sd w')) = 0" "contents (sd_queue (sd w')) = drop (max_batch_per_tick (sd_opts (sd w))) (contents (sd_queue (sd w)))"
    "stream c w' = stream c w @ concat (map frame_encode (dropped_notice (dropped (sd_queue (sd w)))
       @ take (max_batch_per_tick (sd_opts (sd w))) (contents (sd_queue (sd w)))))"
proof -
  let ?q = "sd_queue (sd w)" and ?m = "max_batch_per_tick (sd_opts (sd w))"
  let ?batch = "dropped_notice (dropped ?q) @ take ?m (contents ?q)"
  define w1 where "w1 = on_sd (\<lambda>s. s\<lparr>tick_timer_id := 0\<rparr>) w"
  have l1: "sender_linked n c w1" using assms(1) by (auto simp: w1_def sender_linked_def intro: quiet_inv [OF quiet_on_sd])
  have s1: "sd w1 = (sd w)\<lparr>tick_timer_id := 0\<rparr>" "stream c w1 = stream c w" by (simp_all add: w1_def)
  have "sender_ready w1" using l1 by (simp add: sender_ready_def sender_linked_def)
  moreover have "in_loop_thread (snd_loop w1) w1" using l1 client_invD(2) [of n w1] by (simp add: sender_linked_def)
  ultimately have w': "w' = schedule_next_tick (do_drain_and_send w1)"
    using assms(3,4) by (simp add: assms(6) tick_fired_def on_tick_def s1(1) flip: w1_def)
  obtain q2 where d: "do_drain_and_send w1 = send_batch ?batch (on_sd (\<lambda>s. s\<lparr>sd_queue := q2\<rparr>) w1)" "mpsc_inv q2" "dropped q2 = 0"
    "contents q2 = drop ?m (contents ?q)"
    using do_drain_alt [OF l1 refl _ refl] assms(2) by (auto simp: s1(1))
  have "is_open c w'" using assms(5,6) by simp
  then have op: "is_open c (do_drain_and_send w1)" by (simp add: w' is_open_def)
  from send_batch_cases [OF sender_linked_queue [OF l1] d(1)] op
  have b: "sender_linked n c (do_drain_and_send w1)" "sd (do_drain_and_send w1) = (sd w1)\<lparr>sd_queue := q2\<rparr>"
    "stream c (do_drain_and_send w1) = stream c w1 @ concat (map frame_encode ?batch)" by simp_all
  have ns: "\<not> stopped (sd (do_drain_and_send w1))" using assms(3) by (simp add: b(2) s1(1))
  have il: "in_loop_thread (snd_loop (do_drain_and_send w1)) (do_drain_and_send w1)"
    using b(1) client_invD(2) [of n "do_drain_and_send w1"] by (simp add: sender_linked_def)
  note sn = schedule_next_tick_effect [OF il ns w']
  show "sender_linked n c w'" unfolding w' by (rule schedule_next_tick_linked [OF b(1) ns])
  show "mpsc_inv (sd_queue (sd w'))" "\<not> stopped (sd w')" "\<not> paused (sd w')" "sd_opts (sd w') = sd_opts (sd w)" "dropped (sd_queue (sd w')) = 0"
    "contents (sd_queue (sd w')) = drop ?m (contents ?q)" using assms(3,4) d(2-4) by (simp_all add: sn(2) b(2) s1(1))
  show "stream c w' = stream c w @ concat (map frame_encode ?batch)" using b(3) by (simp add: stream_def sn(3) s1(2) [unfolded stream_def])
qed

lemma ticks_drain:
  "sender_linked n c w \<Longrightarrow> mpsc_inv (sd_queue (sd w)) \<Longrightarrow> \<not> stopped (sd w) \<Longrightarrow> \<not> paused (sd w) \<Longrightarrow> dropped (sd_queue (sd w)) = 0
    \<Longrightarrow> (\<And>j. j \<le> k \<Longrightarrow> is_open c ((tick_fired ^^ j) w)) \<Longrightarrow> w' = (tick_fired ^^ k) w
    \<Longrightarrow> m = k * max_batch_per_tick (sd_opts (sd w))
    \<Longrightarrow> contents (sd_queue (sd w')) = drop m (contents (sd_queue (sd w)))
      \<and> stream c w' = stream c w @ concat (map frame_encode (take m (contents (sd_queue (sd w)))))"
proof (induction k arbitrary: w m)
  case (Suc k)
  let ?b = "max_batch_per_tick (sd_opts (sd w))" and ?x = "contents (sd_queue (sd w))"
  have op: "is_open c (tick_fired w)" using Suc.prems(6) [of 1] by simp
  note t = tick_drains [OF Suc.prems(1-4) op refl]
  have "is_open c ((tick_fired ^^ j) (tick_fired w))" if "j \<le> k" for j
    using Suc.prems(6) [of "Suc j"] that by (simp only: funpow_Suc_right comp_def Suc_le_mono)
  note ih = Suc.IH [OF t(1-4,6) this]
  have w': "w' = (tick_fired ^^ k) (tick_fired w)" using Suc.prems(7) by (simp only: funpow_Suc_right comp_def)
  have "take m ?x = take ?b ?x @ take (k * ?b) (drop ?b ?x)" by (simp add: Suc.prems(8) take_add)
  then show ?case
    using ih [OF _ w' refl] Suc.prems(5,8) by (simp add: t(5,7,8) dropped_notice_def add.commute)
qed simp



section \<open>What stopping leaves behind\<close>

text \<open>
  A sender that was never started does not stop in its destructor; its client is then destroyed by the
  destructor of the member, on whatever thread that is, and off the loop this aborts.
\<close>

lemma unstarted_sender_aborts:
  assumes "\<not> started (sd w)" "sd_client_alive (sd w)" "\<not> in_loop_thread (the_loop w) w"
  shows "loop_aborted (loops (destroy_log_sender await w) (the_loop w))"
  using assms by (simp add: destroy_log_sender_def client_destroy_def loop_abort_def)

text \<open>\<open>start\<close> after a \<open>stop\<close> that came first calls through the null \<open>tcp_client_\<close>.\<close>

lemma start_after_stop_null_call:
  assumes "reach sender_init sender_step (w, n)" "\<not> started (sd w)" "stopped (sd w)"
  shows "sd_null_call (sd (start_in_loop w))"
proof -
  have i: "sender_inv n w" by (rule reach_sender_inv [OF assms(1)])
  then have "\<not> sd_client_alive (sd w)" using assms(3) by (simp add: sender_inv_def)
  then show ?thesis using assms(2,3) sender_invD(2) [OF i] by (simp add: start_in_loop_def schedule_next_tick_def Let_def)
qed

text \<open>
  \<open>stop\<close> while the client waits for a retry destroys the client and leaves its retry timer in the queue of
  the loop: the only timer \<open>stop\<close> cancels is the tick, which has another number. The lambda of the retry timer
  still refers to the client.
\<close>

theorem stop_leaves_retry_timer:
  assumes "reach sender_init sender_step (w, n)" "cl_state (cl w) = CliRetrying" "e \<in> set (retry_timers w)" "timer_id e \<noteq> tick_timer_id (sd w)"
    "w' = stop_in_loop w"
  shows "e \<in> set (retry_timers w') \<and> \<not> sd_client_alive (sd w')"
proof -
  have i: "sender_inv n w" by (rule reach_sender_inv [OF assms(1)])
  note D = client_invD [OF sender_invD(1) [OF i]] and S = sender_invD [OF i]
  have st: "\<not> stopped (sd w)" using i assms(2) by (auto simp: sender_inv_def)
  have r: "connection (cl w) = None" "connect_channel (cl w) = None" "connecting_fd (cl w) < 0" using D(3-5) assms(2) by auto
  define w1 where "w1 = on_sd (\<lambda>s. s\<lparr>stopped := True\<rparr>) w"
  define w2 where "w2 = (if tick_timer_id (sd w1) \<noteq> 0
      then on_sd (\<lambda>s. s\<lparr>tick_timer_id := 0\<rparr>) (cancel_timer (snd_loop w1) (tick_timer_id (sd w1)) w1) else w1)"
  have w2: "cl w2 = cl w" "sd_connection (sd w2) = None" "in_loop_thread (the_loop w) w2" "snd_loop w2 = the_loop w"
    using S(2,4,6) r(1) by (auto simp: w2_def w1_def cancel_timer_eq in_loop_thread_def)
  have e: "w' = on_sd (\<lambda>s. s\<lparr>sd_client_alive := False\<rparr>) (client_destroy sender_on_connection
      (on_sd (\<lambda>s. s\<lparr>sd_connection := None\<rparr>) (client_disconnect sender_on_connection w2)))"
    using S(2) st unfolding assms(5) stop_in_loop_def Let_def w1_def [symmetric] w2_def [symmetric] by (simp add: sender_ready_def w2(2))
  have fin: "retry_timers w' = filter is_retry (timers (timer_queue (loops w2 (the_loop w))))"
    using w2 assms(2) r by (simp add: e client_destroy_def client_disconnect_def run_in_loop_def disconnect_in_loop_def drop_connect_channel_def
        close_connecting_fd_def retry_timers_def)
  have tq: "tq_inv (timer_queue (loops w (the_loop w)))" using D(1) by (simp add: client_base_def)
  have "e \<in> live (timer_queue (loops w2 (the_loop w)))"
    using assms(3,4) S(2,4) live_cancel [OF tq, of "steady_now w" "tick_timer_id (sd w)"]
    by (auto simp: w2_def w1_def cancel_timer_eq retry_timers_def live_def)
  moreover have "is_retry e" using assms(3) by (simp add: retry_timers_def)
  ultimately have "e \<in> set (retry_timers w')" unfolding fin by (simp add: live_def)
  then show ?thesis by (simp add: e)
qed


theorem stop_leaves_retry_timer_witness:
  "\<exists>e. e \<in> set (retry_timers (stop_in_loop (start_in_loop (fresh_sender [SocketErr]))))
     \<and> \<not> sd_client_alive (sd (stop_in_loop (start_in_loop (fresh_sender [SocketErr]))))"
proof -
  define v where "v = client_connect sender_on_connection (on_sd (\<lambda>s. s\<lparr>started := True\<rparr>) (fresh_sender [SocketErr]))"
  define w where "w = start_in_loop (fresh_sender [SocketErr])"
  have w: "w = schedule_next_tick v" by (simp add: w_def v_def start_fresh)
  have r: "reach sender_init sender_step (w, 0)" unfolding w_def by (rule started_reach) (simp_all add: dial_fd_ok_def dial_fd_def)
  note i = reach_sender_inv [OF r] and S = sender_invD [OF reach_sender_inv [OF r]]
  let ?f = "on_sd (\<lambda>s. s\<lparr>started := True\<rparr>) (fresh_sender [SocketErr])"
  have "sender_inv 0 (fresh_sender [SocketErr])" by (rule reach_sender_inv [OF fresh_sender_reach]) (simp add: dial_fd_ok_def)
  then have f: "sender_inv 0 ?f" by (rule sender_inv_on_sd) (simp_all add: fresh_sender_def new_log_sender_def)
  have "sender_inv 0 v" unfolding v_def
    by (rule connect_inv [OF f]) (simp_all add: fresh_fd_def dial_fd_def fresh_sender_def new_log_sender_def on_sd_def)
  note V = sender_invD [OF this]
  have sv: "cl_state (cl v) = CliRetrying" "\<not> stopped (sd v)"
    by (simp_all add: v_def client_connect_def run_in_loop_def connect_in_loop_def start_connect_def schedule_retry_def fresh_sender_def
        new_log_sender_def new_client_def sample_sender_def in_loop_thread_def on_cl_def on_loop_def on_sd_def run_after_def run_at_def
        add_timer_task_def alloc_timer_id_def split_beta Let_def)
  obtain e where e: "e \<in> set (retry_timers v)" using client_invD(11) [OF V(1) sv(1)] hd_in_set [of "retry_timers v"] by blast
  note sn = schedule_next_tick_effect [OF V(2) sv(2) w]
  have tq: "tq_inv (timer_queue (loops v (the_loop v)))" using client_invD(1) [OF V(1)] by (simp add: client_base_def)
  have "e \<in> live (timer_queue (loops v (the_loop v)))" using e by (simp add: retry_timers_def live_def)
  then have "timer_id e \<noteq> tick_timer_id (sd w)" using tq sn(2) V(4) by (auto simp: next_tick_def tq_inv_def live_def)
  moreover have "the_loop w = the_loop v" by (simp add: w schedule_next_tick_frame)
  then have "e \<in> set (retry_timers w)"
    using e sn(1) V(4) by (simp add: retry_timers_def set_insert_filter is_retry_def next_tick_def flip: filter_set)
  moreover have "cl_state (cl w) = CliRetrying" using sv(1) by (simp add: w schedule_next_tick_frame)
  ultimately show ?thesis using stop_leaves_retry_timer [OF r _ _ _ refl] unfolding w_def by blast
qed

section \<open>A run of the connected sender\<close>

lemma sender_push_conns [simp]: "conns (snd (sender_push msg w)) = conns w"
  by (simp add: sender_push_def split_beta Let_def)

text \<open>With the kernel buffer full the connection of the sample survives two pushes and a tick.\<close>

lemma linked_run_open: "is_open 0 (sender_run [Inl a, Inl b, Inr ()] (linked_sender []))"
proof -
  let ?w = "snd (sender_push b (snd (sender_push a (linked_sender []))))"
  have i: "sender_inv 0 ?w" by (intro push_inv reach_sender_inv [OF linked_sender_reach])
  have "sd_connection (sd ?w) = Some 0"
    using sender_invD(6) [OF reach_sender_inv [OF linked_sender_reach]] linked_sender_props(1) by (simp add: sender_push_def split_beta Let_def)
  then have c: "connection (cl ?w) = Some 0" using sender_invD(6) [OF i] by simp
  have "is_open 0 (tick_fired ?w)"
    by (rule tick_blocked [OF sender_inv_linked [OF i c] sender_invD(3) [OF i] sender_inv_connected(1) [OF i c]]) (simp add: linked_sender_props)
  then show ?thesis by simp
qed

end
