(* ===== verification/Programs.thy ===== *)
theory Programs
  imports Server_Setup Echo_Server Log_Sender_Guarantees "HOL-Library.Sublist"
begin

text \<open>
  The programs: \<open>main\<close> of \<open>src/main.cpp\<close> (the echo server with its logging thread) and of
  \<open>src/http/http_demo_main.cpp\<close>, with the constructor and \<open>run\<close> of \<open>HttpServer\<close>. The third program, the log
  server, is in \<open>Log_Server\<close>.
\<close>

section \<open>The HTTP demo\<close>

text \<open>The cast of \<open>num_threads\<close> to \<open>size_t\<close>.\<close>

definition new_http_server :: "u16 \<Rightarrow> int \<Rightarrow> setup_answers \<Rightarrow> ('a, http_context, 'z) server_world_scheme
    \<Rightarrow> string + ('a, http_context, 'z) server_world_scheme" where
  "new_http_server port threads a w =
     map_sum id (\<lambda>v. v\<lparr>srv_has_connection_cb := True, srv_has_message_cb := True\<rparr>)
       (new_tcp_server port (nat (threads mod 2 ^ 64)) a w)"

definition http_demo_port :: "string list \<Rightarrow> u16" where
  "http_demo_port args = (if length args \<ge> 1 then of_int (atoi (args ! 0)) else 8080)"

definition http_demo_main :: "string list \<Rightarrow> setup_answers \<Rightarrow> ('a, http_context, 'z) server_world_scheme
    \<Rightarrow> string + ('a, http_context, 'z) server_world_scheme" where
  "http_demo_main args a w = new_http_server (http_demo_port args) 2 a w"

section \<open>The echo server\<close>

text \<open>The two halves of the process: the server with its IO threads, and the sender on its own loop.\<close>

record 'x program =
  io :: echo_world
  logger :: "'x sender_world"

definition kPort :: u16 where
  "kPort = 8888"

definition kIoThreads :: nat where
  "kIoThreads = 4"

text \<open>\<open>LogSender::set_global\<close>: the macros then push to the queue of that sender.\<close>

definition set_global :: "bytes mpsc option \<Rightarrow> 'z echo_world_scheme \<Rightarrow> 'z echo_world_scheme" where
  "set_global q w = w\<lparr>global_log := q\<rparr>"

definition echo_main_start :: "nat \<Rightarrow> setup_answers \<Rightarrow> 'x program \<Rightarrow> string + 'x program" where
  "echo_main_start log_loop a p =
     (let s = sender_start (new_log_sender log_loop ''127.0.0.1:9099'' default_options (logger p))
      in case new_tcp_server kPort kIoThreads a (set_global (Some (sd_queue (sd s))) (io p)) of
           Inl msg \<Rightarrow> Inl msg
         | Inr v \<Rightarrow> Inr \<lparr>io = v\<lparr>srv_has_connection_cb := True, srv_has_message_cb := True\<rparr>, logger = s\<rparr>)"

text \<open>The handler of \<open>SIGINT\<close> and \<open>SIGTERM\<close>.\<close>

definition echo_handle_signal :: "'x program \<Rightarrow> 'x program" where
  "echo_handle_signal p = p\<lparr>io := on_loop main_loop (quit (this_thread (io p))) (io p)\<rparr>"

text \<open>
  After \<open>run\<close> has returned: unregister, stop the sender, then the destructors in the reverse order of the
  declarations, the server first. \<open>nodes\<close> are the connections in the order of the iteration.
\<close>

definition echo_main_exit :: "('x sender_world \<Rightarrow> 'x sender_world) \<Rightarrow> (int \<times> nat) list \<Rightarrow> 'x program \<Rightarrow> bool \<times> 'x program" where
  "echo_main_exit await nodes p =
     (let w1 = set_global None (io p);
          s1 = sender_stop await (logger p);
          (ok, w2) = destroy_loop echo_on_connection nodes w1
      in (ok, \<lparr>io = server_teardown w2, logger = destroy_log_sender await s1\<rparr>))"

section \<open>The number of threads\<close>

text \<open>
  \<open>HttpServer\<close> takes an \<open>int\<close>: a number of threads in range is kept, and a negative one asks for nearly
  \<open>2\<^sup>6\<^sup>4\<close> threads.
\<close>

lemma http_server_threads:
  assumes "new_http_server port n a w = Inr v" "- (2 ^ 31) \<le> n" "n < 2 ^ 31"
  shows "num_threads (thread_pool v) = (if 0 \<le> n then nat n else 2 ^ 64 - nat (- n))"
proof -
  obtain u where u: "new_tcp_server port (nat (n mod 2 ^ 64)) a w = Inr u" "thread_pool v = thread_pool u"
    using assms(1) by (cases "new_tcp_server port (nat (n mod 2 ^ 64)) a w") (auto simp: new_http_server_def)
  have "thread_pool u = new_pool (nat (n mod 2 ^ 64))"
    using u(1) by (auto simp: new_tcp_server_def server_listen_def on_loop_def split_beta Let_def split: sum.splits)
  moreover have "n mod 2 ^ 64 = (if 0 \<le> n then n else 2 ^ 64 + n)"
    using assms(2,3) mod_add_self1 [of "2 ^ 64" n] mod_pos_pos_trivial [of "2 ^ 64 + n" "2 ^ 64"] by auto
  moreover have "nat (2 ^ 64 + n) = 2 ^ 64 - nat (- n)" if "\<not> 0 \<le> n" using that assms(2) by (simp add: nat_eq_iff)
  ultimately show ?thesis by (simp add: u(2) new_pool_def)
qed

section \<open>Logging reaches the sender\<close>

text \<open>The two halves agree on the queue.\<close>

definition joined :: "'z echo_world_scheme \<Rightarrow> ('x, 'y) sender_world_scheme \<Rightarrow> bool" where
  "joined w s \<longleftrightarrow> global_log w = Some (sd_queue (sd s))"

definition push_all :: "bytes list \<Rightarrow> ('x, 'y) sender_world_scheme \<Rightarrow> ('x, 'y) sender_world_scheme" where
  "push_all ms s = fold (\<lambda>m. snd \<circ> sender_push m) ms s"

text \<open>A \<open>LOG_*\<close> in the echo server is a \<open>push\<close> on the sender.\<close>

lemma echo_log_pushes:
  assumes "joined w s"
  shows "joined (echo_log l n body w) (push_all [format_log l ''src/main.cpp'' n (Some body)] s)"
proof -
  obtain r q where p: "mpsc_push (format_log l ''src/main.cpp'' n (Some body)) (sd_queue (sd s)) = (r, q)" by fastforce
  with assms show ?thesis
    by (simp add: joined_def echo_log_def push_all_def sender_push_effect [OF p])
qed

lemma push_all_effect:
  assumes "mpsc_inv (sd_queue (sd s))" "length (contents (sd_queue (sd s))) + length ms \<le> qcap (sd_queue (sd s))" "s' = push_all ms s"
  shows "contents (sd_queue (sd s')) = contents (sd_queue (sd s)) @ ms \<and> dropped (sd_queue (sd s')) = dropped (sd_queue (sd s))
    \<and> sd_connection (sd s') = sd_connection (sd s) \<and> paused (sd s') = paused (sd s) \<and> sd_opts (sd s') = sd_opts (sd s) \<and> conns s' = conns s"
  using assms
proof (induction ms arbitrary: s)
  case (Cons m ms)
  obtain r q where p: "mpsc_push m (sd_queue (sd s)) = (r, q)" by fastforce
  note e = sender_push_effect [OF p] and m = mpsc_push_spec [OF Cons.prems(1) p]
  have s': "s' = push_all ms (snd (sender_push m s))" using Cons.prems(3) by (simp add: push_all_def)
  show ?case using Cons.IH [OF _ _ s'] Cons.prems(2) m e by (simp add: push_all_def)
qed (simp add: push_all_def)

lemma push_all_reach:
  "reach sender_init sender_step (s, n) \<Longrightarrow> reach sender_init sender_step (push_all ms s, n)"
proof (induction ms arbitrary: s)
  case (Cons m ms)
  have "reach sender_init sender_step (snd (sender_push m s), n)" by (rule reach_step [OF Cons.prems SPush])
  from Cons.IH [OF this] show ?case by (simp add: push_all_def)
qed (simp add: push_all_def)

lemma global_log_frame [simp]:
  "global_log (on_loop i f w) = global_log w" "global_log (on_conn c g w) = global_log w" "global_log (set_idle c k w) = global_log w"
  by (simp_all add: on_loop_def on_conn_def set_idle_def)

lemma global_log_timers [simp]:
  "global_log (arm_idle_timer c w) = global_log w"
  by (simp add: arm_idle_timer_def cancel_timer_eq run_after_def run_at_eq [OF alloc_timer_id_def] Let_def split: option.split)

lemma global_log_release [simp]: "global_log (conn_release c w) = global_log w" "global_log (send_rest c d w) = global_log w"
  by (simp_all add: conn_release_def send_rest_def with_channel_def Let_def split_beta)

text \<open>On an IO thread the close callback only hands a functor to the main loop.\<close>

lemma global_log_close:
  assumes "loop_of c w \<noteq> main_loop" "\<not> in_loop_thread main_loop w"
  shows "global_log (conn_close echo_close_cb c w) = global_log w"
proof -
  define w1 where "w1 = conn_release c (on_conn c (\<lambda>cn. cn\<lparr>cn_state := kDisconnected\<rparr>) w)"
  have "\<not> in_loop_thread main_loop w1"
    using assms by (simp add: w1_def conn_release_def with_channel_def in_loop_thread_def Let_def split_beta)
  moreover have "global_log w1 = global_log w" by (simp add: w1_def)
  ultimately show ?thesis
    unfolding conn_close_def w1_def [symmetric] by (simp add: server_close_cb_def run_in_loop_def Let_def)
qed

lemma global_log_send:
  assumes "loop_of c w \<noteq> main_loop" "\<not> in_loop_thread main_loop w"
  shows "global_log (conn_send echo_close_cb c data w) = global_log w"
proof -
  obtain r rest s where sl: "send_loop data (sk (conns w c)) = (r, rest, s)" by (metis prod_cases3)
  have "global_log (conn_close echo_close_cb c (on_conn c (\<lambda>cn. cn\<lparr>sk := s\<rparr>) w)) = global_log w"
    using global_log_close [where c = c and w = "on_conn c (\<lambda>cn. cn\<lparr>sk := s\<rparr>) w"] assms by (simp add: in_loop_thread_def)
  then show ?thesis by (simp add: conn_send_def sl Let_def)
qed

text \<open>The lines one message gives.\<close>

definition message_lines :: "nat \<Rightarrow> bytes \<Rightarrow> 'z echo_world_scheme \<Rightarrow> bytes list" where
  "message_lines c data w = format_log DEBUG ''src/main.cpp'' 138 (Some (recv_line c data w))
     # (if has_sub ''BOOM'' data then [format_log ERROR ''src/main.cpp'' 145 (Some (boom_line c w))] else [])"

lemma line_cong:
  assumes "conns w' c = (conns w c)\<lparr>input_buffer := b\<rparr>"
  shows "recv_line c data w' = recv_line c data w" "boom_line c w' = boom_line c w"
  using assms by (simp_all add: recv_line_def boom_line_def log_peer_def)

lemma echo_on_message_joined:
  assumes "joined w s" "conn_ok c w" "\<not> in_loop_thread main_loop w" "data = readable_view (input_buffer (conns w c))"
  shows "joined (echo_on_message c w) (push_all (message_lines c data w) s)"
proof -
  obtain d b where r: "retrieve_all_as_string (input_buffer (conns w c)) = (d, b)" by fastforce
  have "buffer_inv (input_buffer (conns w c))" using assms(2) by (simp add: conn_ok_def Let_def)
  then have d: "d = data" using retrieve_all_string(1) [OF _ r] assms(4) by simp
  define w1 where "w1 = on_conn c (\<lambda>cn. cn\<lparr>input_buffer := b\<rparr>) w"
  define w2 where "w2 = echo_log DEBUG 138 (recv_line c data w1) w1"
  define w3 where "w3 = (if has_sub ''BOOM'' data then echo_log ERROR 145 (boom_line c w2) w2 else w2)"
  have m: "echo_on_message c w = arm_idle_timer c (conn_send echo_close_cb c data w3)"
    by (simp only: echo_on_message_def r Let_def prod.case d w1_def w2_def w3_def)
  have lines: "recv_line c data w1 = recv_line c data w" "boom_line c w2 = boom_line c w"
    by (simp_all add: line_cong [where w = w and b = b] w1_def w2_def)
  have j1: "joined w1 s" using assms(1) by (simp add: joined_def w1_def)
  note j2 = echo_log_pushes [OF j1, of DEBUG 138 "recv_line c data w1", folded w2_def, unfolded lines]
  from echo_log_pushes [OF j2, of ERROR 145 "boom_line c w2"] j2
  have j3: "joined w3 (push_all (message_lines c data w) s)"
    by (auto simp: w3_def message_lines_def lines push_all_def)
  have "loop_of c w \<noteq> main_loop" using conn_ok_in_loop [OF assms(2)] assms(3) by auto
  then have "global_log (conn_send echo_close_cb c data w3) = global_log w3"
    using assms(3) by (intro global_log_send) (simp_all add: w3_def w2_def w1_def in_loop_thread_def)
  with j3 show ?thesis by (simp add: joined_def m)
qed

section \<open>Start and end of the echo server\<close>

text \<open>
  When \<open>main\<close> has set everything up, the server is joined to the queue of the sender, which is empty, the
  start of the sender waits on its loop with a wake-up, and the listening descriptor is registered.
\<close>

lemma echo_main_start_joined:
  assumes "echo_main_start log_loop a p = Inr p'" "\<not> in_loop_thread log_loop (logger p)" "in_loop_thread main_loop (io p)"
    "interest (ep (loops (io p) main_loop)) (ans_socket a) = None" "ctl_faults (ep (loops (io p) main_loop)) = []"
  shows "joined (io p') (logger p')" "contents (sd_queue (sd (logger p'))) = []"
    "pending_functors (loops (logger p') log_loop) = pending_functors (loops (logger p) log_loop) @ [Task (App (CliApp StartTask))]"
    "wakeup_cnt (loops (logger p') log_loop) > 0" "acceptor_ready (ans_socket a) (io p')" "thread_pool (io p') = new_pool 4"
proof -
  define s where "s = sender_start (new_log_sender log_loop ''127.0.0.1:9099'' default_options (logger p))"
  let ?w = "set_global (Some (sd_queue (sd s))) (io p)"
  obtain v where v: "new_tcp_server kPort kIoThreads a ?w = Inr v" "p' = \<lparr>io = v\<lparr>srv_has_connection_cb := True, srv_has_message_cb := True\<rparr>, logger = s\<rparr>"
    using assms(1) by (auto simp: echo_main_start_def Let_def split: sum.splits simp flip: s_def)
  have "in_loop_thread main_loop ?w" "interest (ep (loops ?w main_loop)) (ans_socket a) = None" "ctl_faults (ep (loops ?w main_loop)) = []"
    using assms(3-5) by (simp_all add: set_global_def in_loop_thread_def)
  note e = new_tcp_server_effect [OF v(1) this]
  have "global_log v = Some (sd_queue (sd s))"
    using v(1) by (auto simp: new_tcp_server_def server_listen_def set_global_def split_beta Let_def split: sum.splits)
  then show "joined (io p') (logger p')" by (simp add: joined_def v(2))
  have s: "s = on_loop log_loop (queue_in_loop (this_thread (logger p)) (Task (App (CliApp StartTask))))
      (new_log_sender log_loop ''127.0.0.1:9099'' default_options (logger p))"
    using assms(2) by (simp add: s_def sender_start_def run_in_loop_def new_log_sender_def in_loop_thread_def)
  show "contents (sd_queue (sd (logger p'))) = []" by (simp add: v(2) s) (simp add: new_log_sender_def)
  show "pending_functors (loops (logger p') log_loop) = pending_functors (loops (logger p) log_loop) @ [Task (App (CliApp StartTask))]"
    by (simp add: v(2) s) (simp add: new_log_sender_def)
  show "wakeup_cnt (loops (logger p') log_loop) > 0"
    using assms(2) by (simp add: v(2) s queue_in_loop_wakes new_log_sender_def in_loop_thread_def)
  show "acceptor_ready (ans_socket a) (io p')" "thread_pool (io p') = new_pool 4"
    using e(1,2) by (simp_all add: v(2) acceptor_ready_def kIoThreads_def)
qed

text \<open>After \<open>set_global(nullptr)\<close> the macros do nothing, also while the server closes its connections.\<close>

lemma unregistered_log: "echo_log l n body (set_global None w) = set_global None w"
  by (simp add: echo_log_def set_global_def)

lemma destroy_loop_global:
  assumes "\<forall>(fd, c)\<in>set ns. connections w fd = Some c \<and> owner_tid (loops w (loop_of c w)) \<noteq> this_thread w"
  shows "global_log (snd (destroy_loop echo_on_connection ns w)) = global_log w"
  using assms
proof (induction ns arbitrary: w)
  case (Cons n ns)
  obtain fd c where n: "n = (fd, c)" by fastforce
  let ?w1 = "on_loop (loop_of c w) (queue_in_loop (this_thread w) (Task (App (CloseConn c)))) w"
  have d: "destroy_loop echo_on_connection (n # ns) w = destroy_loop echo_on_connection ns ?w1"
    using Cons.prems by (simp add: n run_in_loop_def in_loop_thread_def)
  have "global_log (snd (destroy_loop echo_on_connection ns ?w1)) = global_log ?w1"
    by (rule Cons.IH) (use Cons.prems in \<open>auto simp: on_loop_def\<close>)
  then show ?case by (simp add: d)
qed simp

section \<open>Stopping\<close>

text \<open>Once stopped, a sender stays stopped, and its queue only grows.\<close>

lemma stopped_step:
  assumes "sender_step s t" "sender_inv (snd s) (fst s)" "stopped (sd (fst s))"
  shows "stopped (sd (fst t)) \<and> prefix (contents (sd_queue (sd (fst s)))) (contents (sd_queue (sd (fst t))))"
  using assms
proof (induction rule: sender_step.induct)
  case (SPush w n msg)
  obtain r q where p: "mpsc_push msg (sd_queue (sd w)) = (r, q)" by fastforce
  have "mpsc_inv (sd_queue (sd w))" using sender_invD(3) SPush(1) by simp
  from mpsc_push_spec(3) [OF this p] SPush(2) show ?case by (simp add: sender_push_effect [OF p])
next
  case (SStart w n)
  then have "\<not> sd_client_alive (sd w)" by (simp add: sender_inv_def)
  then show ?case using SStart by (simp add: start_in_loop_def schedule_next_tick_def loop_abort_def Let_def)
next
  case (SHandshake w n)
  then have "cl_state (cl w) = CliDisconnected" "client_inv n w" using sender_invD(1) by (auto simp: sender_inv_def)
  then show ?case using client_invD(4) SHandshake(1) by fastforce
next
  case (SConn w c n ev)
  then have "cl_state (cl w) = CliDisconnected" "client_inv n w" using sender_invD(1) by (auto simp: sender_inv_def)
  then show ?case using client_invD(5) SConn(1) by fastforce
next
  case (SConnTask t c w n app)
  then show ?case by (auto simp: client_cbs_def on_high_water_def on_write_complete_def loop_abort_def)
next
  case (SRetry w n)
  then show ?case by (simp add: sender_inv_def)
next
  case (STick w n)
  then show ?case by (simp add: tick_fired_def on_tick_def loop_abort_def)
next
  case (SWake w n)
  then show ?case by (simp add: wake_fired_def)
next
  case (SStop w n)
  then show ?case by (simp add: stop_in_loop_def loop_abort_def)
next
  case (SOther w v n)
  then show ?case by (simp add: other_work_def)
qed simp

lemma stopped_steps:
  assumes "sender_step\<^sup>*\<^sup>* s t" "reach sender_init sender_step s" "stopped (sd (fst s))"
  shows "reach sender_init sender_step t \<and> stopped (sd (fst t)) \<and> prefix (contents (sd_queue (sd (fst s)))) (contents (sd_queue (sd (fst t))))"
  using assms
proof (induction rule: rtranclp_induct)
  case (step t u)
  have ih: "reach sender_init sender_step t" "stopped (sd (fst t))" "prefix (contents (sd_queue (sd (fst s)))) (contents (sd_queue (sd (fst t))))"
    using step.IH [OF step.prems] by simp_all
  have "sender_inv (snd t) (fst t)" by (rule reach_sender_inv) (simp add: ih(1))
  note u = stopped_step [OF step.hyps(2) this ih(2)]
  show ?case using reach_step [OF ih(1) step.hyps(2)] u prefix_order.trans [OF ih(3)] by simp
qed simp

text \<open>
  C39. A line logged after \<open>stop\<close> is stranded. \<open>main\<close> unregisters and stops the sender while the IO threads of
  the server still run (they are joined by the destructor of the server, which comes later), so a thread that
  has read the global pointer before can push afterwards. The push reports success and counts nothing as
  dropped, and whatever happens to the sender from then on, the line stays in its queue: it is never sent.
\<close>

theorem push_after_stop_stranded:
  assumes "reach sender_init sender_step (s, n)" "stopped (sd s)" "qcount (sd_queue (sd s)) < qcap (sd_queue (sd s))"
    "sender_step\<^sup>*\<^sup>* (snd (sender_push m s), n) (s', n')"
  shows "fst (sender_push m s) \<and> dropped (sd_queue (sd (snd (sender_push m s)))) = dropped (sd_queue (sd s))
    \<and> prefix (contents (sd_queue (sd s)) @ [m]) (contents (sd_queue (sd s')))"
proof -
  obtain r q where p: "mpsc_push m (sd_queue (sd s)) = (r, q)" by fastforce
  note e = sender_push_effect [OF p] and k = mpsc_push_spec [OF sender_invD(3) [OF reach_sender_inv [OF assms(1)]] p]
  have ok: "fst (sender_push m s) = push_ok r" by (simp add: sender_push_def p Let_def)
  have "reach sender_init sender_step (snd (sender_push m s), n)" by (rule reach_step [OF assms(1) SPush])
  from stopped_steps [OF assms(4) this] show ?thesis using e k assms(2,3) ok by simp
qed

text \<open>A sender that was stopped before it was started.\<close>

theorem push_after_stop_stranded_witness:
  "prefix [''late''] (contents (sd_queue (sd (snd (sender_push ''late'' (stop_in_loop (fresh_sender []))))))) \<and> fst (sender_push ''late'' (stop_in_loop (fresh_sender [])))"
proof -
  let ?f = "fresh_sender []"
  have r: "reach sender_init sender_step (?f, 0)" by (rule fresh_sender_reach) simp
  then have rs: "reach sender_init sender_step (stop_in_loop ?f, 0)" by (rule reach_step) (rule SStop)
  have sd: "stopped (sd (stop_in_loop ?f))" "sd_queue (sd (stop_in_loop ?f)) = new_mpsc [] 10000"
    by (simp_all add: stop_in_loop_def fresh_sender_def new_log_sender_def sample_sender_def in_loop_thread_def new_client_def on_sd_def sender_ready_def
        client_disconnect_def run_in_loop_def disconnect_in_loop_def client_destroy_def on_cl_def drop_connect_channel_def close_connecting_fd_def
        default_options_def Let_def)
  have "qcount (sd_queue (sd (stop_in_loop ?f))) < qcap (sd_queue (sd (stop_in_loop ?f)))"
    by (simp add: sd new_mpsc_def Let_def)
  from push_after_stop_stranded [OF rs sd(1) this rtranclp.rtrancl_refl, of "''late''"] show ?thesis by (simp add: sd)
qed

end
