(* ===== verification/Quit_Signal.thy ===== *)
theory Quit_Signal
  imports Loop_Histories
begin

text \<open>
  How \<open>EventLoop::loop\<close> learns that it shall end: \<open>quit\<close> called by another thread, by a callback of the
  loop itself, or by the signal handlers of the two server programs, which run on the thread of the loop
  when the kernel delivers the signal there. The steps of the loop thread are those between the points
  where a signal can interrupt it.
\<close>

section \<open>Interleavings\<close>

text \<open>
  \<open>AtTest\<close>: about to read \<open>quit_\<close>. \<open>BeforeWait\<close>: has read false, not yet inside \<open>epoll_wait\<close>. \<open>InWait\<close>: blocked
  or about to be woken. \<open>InBatch\<close>: dispatching events and running functors. \<open>Returned\<close>: \<open>loop()\<close> has returned.
\<close>

datatype quit_phase = AtTest | BeforeWait | InWait | InBatch | Returned

record 'f quit_sys =
  qs_loop :: "'f event_loop"
  qs_phase :: quit_phase
  writers :: "nat set"

definition quit_init :: "nat \<Rightarrow> 'f quit_sys \<Rightarrow> bool" where
  "quit_init t s \<longleftrightarrow> owner_tid (qs_loop s) = t \<and> \<not> quit_flag (qs_loop s) \<and> wakeup_cnt (qs_loop s) = 0 \<and> qs_phase s = AtTest \<and> writers s = {}"

text \<open>The loop thread.\<close>

inductive loop_thread_step :: "'f quit_sys \<Rightarrow> 'f quit_sys \<Rightarrow> bool" where
  test: "qs_phase s = AtTest \<Longrightarrow>
    loop_thread_step s (s\<lparr>qs_phase := (if quit_flag (qs_loop s) then Returned else BeforeWait)\<rparr>)"
| enter_wait: "qs_phase s = BeforeWait \<Longrightarrow> loop_thread_step s (s\<lparr>qs_phase := InWait\<rparr>)"
| io_ready: "qs_phase s = InWait \<Longrightarrow> loop_thread_step s (s\<lparr>qs_phase := InBatch\<rparr>)"
| wake_ready: "qs_phase s = InWait \<Longrightarrow> wakeup_cnt (qs_loop s) > 0 \<Longrightarrow>
    loop_thread_step s (s\<lparr>qs_loop := handle_wakeup (qs_loop s), qs_phase := InBatch\<rparr>)"
| callback_quits: "qs_phase s = InBatch \<Longrightarrow>
    loop_thread_step s (s\<lparr>qs_loop := quit (owner_tid (qs_loop s)) (qs_loop s)\<rparr>)"
| end_batch: "qs_phase s = InBatch \<Longrightarrow> loop_thread_step s (s\<lparr>qs_phase := AtTest\<rparr>)"

text \<open>Another thread calls \<open>quit\<close>: the flag first, then the write to the event descriptor.\<close>

inductive other_thread_step :: "'f quit_sys \<Rightarrow> 'f quit_sys \<Rightarrow> bool" where
  set_flag: "t \<noteq> owner_tid (qs_loop s) \<Longrightarrow>
    other_thread_step s (s\<lparr>qs_loop := (qs_loop s)\<lparr>quit_flag := True\<rparr>, writers := insert t (writers s)\<rparr>)"
| write_event: "t \<in> writers s \<Longrightarrow> other_thread_step s (s\<lparr>qs_loop := wakeup (qs_loop s), writers := writers s - {t}\<rparr>)"

text \<open>
  A signal on the thread of the loop: the handler calls \<open>quit\<close> there. Inside \<open>epoll_wait\<close> it also ends the
  call with \<open>EINTR\<close>, since the handlers are installed without \<open>SA_RESTART\<close>.
\<close>

inductive signal_step :: "'f quit_sys \<Rightarrow> 'f quit_sys \<Rightarrow> bool" where
  signal: "qs_phase s \<noteq> Returned \<Longrightarrow>
    signal_step s (s\<lparr>qs_loop := quit (owner_tid (qs_loop s)) (qs_loop s),
                     qs_phase := (if qs_phase s = InWait then AtTest else qs_phase s)\<rparr>)"

definition quit_step :: "'f quit_sys \<Rightarrow> 'f quit_sys \<Rightarrow> bool" where
  "quit_step s t \<longleftrightarrow> loop_thread_step s t \<or> other_thread_step s t"

definition quit_step_sig :: "'f quit_sys \<Rightarrow> 'f quit_sys \<Rightarrow> bool" where
  "quit_step_sig s t \<longleftrightarrow> quit_step s t \<or> signal_step s t"

section \<open>Without signals\<close>

definition quit_inv :: "'f quit_sys \<Rightarrow> bool" where
  "quit_inv s \<longleftrightarrow> (quit_flag (qs_loop s) \<and> (qs_phase s = BeforeWait \<or> qs_phase s = InWait) \<longrightarrow> wakeup_cnt (qs_loop s) > 0 \<or> writers s \<noteq> {})
     \<and> (writers s \<noteq> {} \<longrightarrow> quit_flag (qs_loop s)) \<and> (qs_phase s = Returned \<longrightarrow> quit_flag (qs_loop s))"

lemma quit_flag_frame [simp]:
  "quit_flag (wakeup l) = quit_flag l" "quit_flag (handle_wakeup l) = quit_flag l" "quit_flag (quit t l)"
  by (simp_all add: wakeup_def handle_wakeup_def quit_def Let_def)

lemma quit_inv_step:
  assumes "quit_inv s" "quit_step s t"
  shows "quit_inv t"
  using assms(2) unfolding quit_step_def
proof
  assume "loop_thread_step s t"
  then show ?thesis using assms(1) by cases (auto simp: quit_inv_def)
next
  assume "other_thread_step s t"
  then show ?thesis using assms(1) by cases (auto simp: quit_inv_def)
qed

interpretation quit_ts: invariant_system "quit_init t" quit_step quit_inv for t
  by unfold_locales (simp add: quit_init_def quit_inv_def, rule quit_inv_step)

text \<open>The loop thread alone, taking the step it can take; \<open>io_ready\<close> is left to the kernel.\<close>

definition loop_next :: "'f quit_sys \<Rightarrow> 'f quit_sys" where
  "loop_next s = (case qs_phase s of
       AtTest \<Rightarrow> s\<lparr>qs_phase := (if quit_flag (qs_loop s) then Returned else BeforeWait)\<rparr>
     | BeforeWait \<Rightarrow> s\<lparr>qs_phase := InWait\<rparr>
     | InWait \<Rightarrow> if wakeup_cnt (qs_loop s) > 0 then s\<lparr>qs_loop := handle_wakeup (qs_loop s), qs_phase := InBatch\<rparr> else s
     | InBatch \<Rightarrow> s\<lparr>qs_phase := AtTest\<rparr>
     | Returned \<Rightarrow> s)"

lemma loop_next_step: "loop_next s = s \<or> loop_thread_step s (loop_next s)"
  using loop_thread_step.intros [of s] by (cases "qs_phase s") (simp_all add: loop_next_def)

text \<open>
  C18. \<open>quit\<close> from other threads or from callbacks of the loop ends it: in every reachable state in which the
  flag is set and no thread is between setting it and writing to the event descriptor, the loop thread is
  never blocked; it returns from \<open>loop()\<close> within four of its own steps, without any event from outside.
\<close>

theorem quit_ends_loop:
  assumes "reach (quit_init t) quit_step s" "quit_flag (qs_loop s)" "writers s = {}"
  shows "qs_phase ((loop_next ^^ 4) s) = Returned"
proof -
  have "quit_inv s" by (rule quit_ts.reach_inv [OF assms(1)])
  then show ?thesis
    using assms(2,3) by (cases "qs_phase s") (simp_all add: quit_inv_def loop_next_def eval_nat_numeral)
qed

definition quit_loop0 :: "nat event_loop" where
  "quit_loop0 = new_event_loop 1 5 6 []"

definition quit_at :: "nat event_loop \<Rightarrow> quit_phase \<Rightarrow> nat set \<Rightarrow> nat quit_sys" where
  "quit_at l p W = \<lparr>qs_loop = l, qs_phase = p, writers = W\<rparr>"

lemma quit_loop0_sel:
  "owner_tid quit_loop0 = 1" "\<not> quit_flag quit_loop0" "wakeup_cnt quit_loop0 = 0"
  by (simp_all add: quit_loop0_def new_event_loop_def channel_ops update_channel_def epoll_add_def ctl_fault_def new_channel_def Let_def)

lemma quit_at_init: "quit_init 1 (quit_at quit_loop0 AtTest {})"
  using quit_loop0_sel by (simp add: quit_init_def quit_at_def)

text \<open>The steps of the two sample runs, on states written as \<open>quit_at\<close>.\<close>

lemma quit_at_steps:
  "\<not> quit_flag l \<Longrightarrow> quit_step (quit_at l AtTest W) (quit_at l BeforeWait W)"
  "quit_step (quit_at l BeforeWait W) (quit_at l InWait W)"
  "t \<noteq> owner_tid l \<Longrightarrow> quit_step (quit_at l p W) (quit_at (l\<lparr>quit_flag := True\<rparr>) p (insert t W))"
  "quit_step (quit_at l p {t}) (quit_at (wakeup l) p {})"
  using loop_thread_step.test [of "quit_at l AtTest W"] loop_thread_step.enter_wait [of "quit_at l BeforeWait W"]
    other_thread_step.set_flag [of t "quit_at l p W"] other_thread_step.write_event [of t "quit_at l p {t}"]
  by (simp_all add: quit_step_def quit_at_def)

theorem quit_ends_loop_witness:
  "qs_phase ((loop_next ^^ 4) (quit_at (wakeup (quit_loop0\<lparr>quit_flag := True\<rparr>)) InWait {})) = Returned"
proof -
  have "reach (quit_init 1) quit_step (quit_at quit_loop0 AtTest {})" by (rule reach_init) (rule quit_at_init)
  then have "reach (quit_init 1) quit_step (quit_at quit_loop0 BeforeWait {})"
    by (rule reach_step) (rule quit_at_steps(1) [OF quit_loop0_sel(2)])
  then have "reach (quit_init 1) quit_step (quit_at quit_loop0 InWait {})"
    by (rule reach_step) (rule quit_at_steps(2))
  moreover have "quit_step (quit_at quit_loop0 InWait {}) (quit_at (quit_loop0\<lparr>quit_flag := True\<rparr>) InWait {2})"
    by (rule quit_at_steps(3)) (simp add: quit_loop0_sel)
  ultimately have "reach (quit_init 1) quit_step (quit_at (quit_loop0\<lparr>quit_flag := True\<rparr>) InWait {2})"
    by (rule reach_step)
  then have "reach (quit_init 1) quit_step (quit_at (wakeup (quit_loop0\<lparr>quit_flag := True\<rparr>)) InWait {})"
    by (rule reach_step) (rule quit_at_steps(4))
  from quit_ends_loop [OF this] show ?thesis by (simp add: quit_at_def)
qed

section \<open>With signals\<close>

text \<open>
  C40. A signal can be lost: if the handler runs after the loop has read the flag and before it enters
  \<open>epoll_wait\<close>, then \<open>quit\<close> sees that it is on the thread of the loop and writes nothing, and \<open>epoll_wait\<close> is
  not interrupted, since it has not begun. A state is reachable in which the loop is blocked although the
  flag is set, and only an event from outside can end the wait.
\<close>

theorem signal_quit_lost:
  "\<exists>s. reach (quit_init 1) quit_step_sig (s :: nat quit_sys) \<and> quit_flag (qs_loop s) \<and> qs_phase s = InWait \<and> wakeup_cnt (qs_loop s) = 0
     \<and> writers s = {} \<and> (loop_next ^^ 4) s = s"
proof -
  let ?q = "quit 1 quit_loop0"
  let ?s = "quit_at ?q InWait {}"
  have "reach (quit_init 1) quit_step_sig (quit_at quit_loop0 AtTest {})" by (rule reach_init) (rule quit_at_init)
  moreover have "quit_step_sig (quit_at quit_loop0 AtTest {}) (quit_at quit_loop0 BeforeWait {})"
    using quit_at_steps(1) [OF quit_loop0_sel(2)] by (simp add: quit_step_sig_def)
  ultimately have "reach (quit_init 1) quit_step_sig (quit_at quit_loop0 BeforeWait {})" by (rule reach_step)
  moreover have "quit_step_sig (quit_at quit_loop0 BeforeWait {}) (quit_at ?q BeforeWait {})"
    using signal_step.signal [of "quit_at quit_loop0 BeforeWait {}"]
    by (simp add: quit_step_sig_def quit_at_def quit_loop0_sel)
  ultimately have "reach (quit_init 1) quit_step_sig (quit_at ?q BeforeWait {})" by (rule reach_step)
  moreover have "quit_step_sig (quit_at ?q BeforeWait {}) ?s"
    using quit_at_steps(2) by (simp add: quit_step_sig_def)
  ultimately have r: "reach (quit_init 1) quit_step_sig ?s" by (rule reach_step)
  have w: "wakeup_cnt ?q = 0" using quit_loop0_sel by (simp add: quit_def)
  then have "loop_next ?s = ?s" by (simp add: loop_next_def quit_at_def)
  then have "(loop_next ^^ 4) ?s = ?s" by (simp add: eval_nat_numeral)
  with r w show ?thesis by (intro exI [of _ ?s]) (simp add: quit_at_def)
qed

end
