(* ===== verification/Buffer_Histories.thy ===== *)
theory Buffer_Histories
  imports Buffer
begin

text \<open>
  Histories of a \<open>Buffer\<close>: any sequence of calls of its public operations behaves like the same
  sequence on a plain queue of bytes, the cursors stay in the order of the layout comment, and the
  vector stays within twice the amount of live data.
\<close>

section \<open>Histories\<close>

text \<open>
  The calls of the class. \<open>BFill n xs\<close> is the pattern of \<open>handle_read\<close>: \<open>ensure_writable(n)\<close>, a system
  call that stores \<open>xs\<close> at \<open>begin_write()\<close>, \<open>has_written\<close>.
\<close>

datatype buf_op = BAppend bytes | BRetrieve nat | BRetrieveAll | BTakeAll | BTake nat | BUntil nat | BFill nat bytes

fun buf_step :: "buf_op \<Rightarrow> buffer \<Rightarrow> bytes list \<times> buffer" where
  "buf_step (BAppend xs) b = ([], buf_append b xs)"
| "buf_step (BRetrieve n) b = ([], retrieve b n)"
| "buf_step BRetrieveAll b = ([], retrieve_all b)"
| "buf_step BTakeAll b = (let (s, b1) = retrieve_all_as_string b in ([s], b1))"
| "buf_step (BTake n) b = (let (s, b1) = retrieve_as_string b n in ([s], b1))"
| "buf_step (BUntil n) b = ([], retrieve_until b n)"
| "buf_step (BFill n xs) b = ([], has_written (store_at_writer (ensure_writable b n) xs) (length xs))"

text \<open>The same calls on a queue.\<close>

fun queue_step :: "buf_op \<Rightarrow> bytes \<Rightarrow> bytes list \<times> bytes" where
  "queue_step (BAppend xs) q = ([], q @ xs)"
| "queue_step (BRetrieve n) q = ([], drop n q)"
| "queue_step BRetrieveAll q = ([], [])"
| "queue_step BTakeAll q = ([q], [])"
| "queue_step (BTake n) q = ([take n q], drop n q)"
| "queue_step (BUntil n) q = ([], drop n q)"
| "queue_step (BFill n xs) q = ([], q @ xs)"

fun run_ops :: "('o \<Rightarrow> 's \<Rightarrow> 'a list \<times> 's) \<Rightarrow> 'o list \<Rightarrow> 's \<Rightarrow> 'a list \<times> 's" where
  "run_ops step [] s = ([], s)"
| "run_ops step (x # xs) s = (let (out, s1) = step x s; (rest, s2) = run_ops step xs s1 in (out @ rest, s2))"

text \<open>
  What the comments of the class ask of the caller: a string or a position is taken from the readable
  bytes only, and \<open>has_written\<close> stays within the space asked for.
\<close>

fun op_ok :: "buf_op \<Rightarrow> bytes \<Rightarrow> bool" where
  "op_ok (BTake n) q \<longleftrightarrow> n \<le> length q"
| "op_ok (BUntil n) q \<longleftrightarrow> n \<le> length q"
| "op_ok (BFill n xs) q \<longleftrightarrow> length xs \<le> n"
| "op_ok _ _ \<longleftrightarrow> True"

fun ops_ok :: "buf_op list \<Rightarrow> bytes \<Rightarrow> bool" where
  "ops_ok [] q \<longleftrightarrow> True"
| "ops_ok (x # xs) q \<longleftrightarrow> op_ok x q \<and> ops_ok xs (snd (queue_step x q))"

text \<open>The most space a history asks for at once: the live bytes and the request.\<close>

fun op_space :: "buf_op \<Rightarrow> nat" where
  "op_space (BAppend xs) = length xs"
| "op_space (BFill n xs) = n"
| "op_space _ = 0"

fun ops_fit :: "nat \<Rightarrow> buf_op list \<Rightarrow> bytes \<Rightarrow> bool" where
  "ops_fit m [] q \<longleftrightarrow> True"
| "ops_fit m (x # xs) q \<longleftrightarrow> length q + op_space x \<le> m \<and> ops_fit m xs (snd (queue_step x q))"

section \<open>One call\<close>

lemma mem_read_readable: "n \<le> readable_bytes b \<Longrightarrow> mem_read b (reader_index b) n = take n (readable_view b)"
  by (simp add: mem_read_def readable_view_def)

lemma buf_step_refines:
  assumes "buffer_inv b" "op_ok x (readable_view b)" "buf_step x b = (out, b')"
  shows "buffer_inv b'" "queue_step x (readable_view b) = (out, readable_view b')"
proof -
  have len: "length (readable_view b) = readable_bytes b" by (rule length_readable_view [OF assms(1)])
  have room: "n \<le> writable_bytes (ensure_writable b n)" "buffer_inv (ensure_writable b n)" for n
    by (simp_all add: writable_ensure_writable ensure_writable_inv assms(1))
  have fill: "length xs \<le> n \<Longrightarrow> length xs \<le> writable_bytes (ensure_writable b n)" for xs :: bytes and n
    using room(1) [of n] by simp
  show "buffer_inv b'"
    using assms room fill by (cases x) (auto simp: retrieve_all_as_string_def retrieve_as_string_def retrieve_until_def
        buf_append_inv retrieve_inv retrieve_all_inv intro: fill_inv)
  show "queue_step x (readable_view b) = (out, readable_view b')"
    using assms len fill by (cases x) (auto simp: retrieve_all_as_string_def retrieve_as_string_def retrieve_until_def readable_view_append
        readable_view_retrieve mem_read_readable readable_view_fill room readable_view_ensure_writable)
qed

text \<open>The vector grows only when the live bytes and the request do not fit.\<close>

lemma ensure_writable_size:
  assumes "buffer_inv b" "readable_bytes b + n \<le> m" "length (bdata b) \<le> 2 * m + kPrependSize"
  shows "length (bdata (ensure_writable b n)) \<le> 2 * m + kPrependSize" "length (bdata b) \<le> length (bdata (ensure_writable b n))"
  using assms by (auto simp: ensure_writable_def buffer_inv_def Let_def buffer_defs overwrite_def)

lemma buf_step_size:
  assumes "buffer_inv b" "op_ok x (readable_view b)" "length (readable_view b) + op_space x \<le> m" "length (bdata b) \<le> 2 * m + kPrependSize"
  shows "length (bdata (snd (buf_step x b))) \<le> 2 * m + kPrependSize" "length (bdata b) \<le> length (bdata (snd (buf_step x b)))"
proof -
  have fit: "readable_bytes b + op_space x \<le> m" using assms(3) length_readable_view [OF assms(1)] by simp
  have store: "length (bdata (has_written (store_at_writer v xs) (length xs))) = length (bdata v)"
    if "buffer_inv v" "length xs \<le> writable_bytes v" for v xs
    using that by (auto simp: buffer_defs buffer_inv_def intro!: length_overwrite)
  have grow: "length xs \<le> n \<Longrightarrow> length (bdata (has_written (store_at_writer (ensure_writable b n) xs) (length xs)))
      = length (bdata (ensure_writable b n))" for xs n
    using store [OF ensure_writable_inv [OF assms(1)]] writable_ensure_writable [OF assms(1), of n] by simp
  note e = ensure_writable_size [OF assms(1) fit assms(4)]
  show "length (bdata (snd (buf_step x b))) \<le> 2 * m + kPrependSize" "length (bdata b) \<le> length (bdata (snd (buf_step x b)))"
    using assms(2,4) e grow by (cases x; simp add: buf_append_def retrieve_def retrieve_all_def retrieve_all_as_string_def
        retrieve_as_string_def retrieve_until_def)+
qed

section \<open>All histories\<close>

lemma buf_run_refines:
  "buffer_inv b \<Longrightarrow> ops_ok ops (readable_view b) \<Longrightarrow> run_ops buf_step ops b = (outs, b')
     \<Longrightarrow> buffer_inv b' \<and> run_ops queue_step ops (readable_view b) = (outs, readable_view b')"
proof (induction ops arbitrary: b outs)
  case (Cons x ops)
  obtain out b1 where s: "buf_step x b = (out, b1)" by fastforce
  obtain rest b2 where r: "run_ops buf_step ops b1 = (rest, b2)" by fastforce
  note st = buf_step_refines [OF Cons.prems(1) _ s]
  from Cons st r show ?case by (auto simp: s)
qed simp

lemma buf_run_size:
  "buffer_inv b \<Longrightarrow> ops_ok ops (readable_view b) \<Longrightarrow> ops_fit m ops (readable_view b) \<Longrightarrow> length (bdata b) \<le> 2 * m + kPrependSize
     \<Longrightarrow> length (bdata (snd (run_ops buf_step ops b))) \<le> 2 * m + kPrependSize
       \<and> length (bdata b) \<le> length (bdata (snd (run_ops buf_step ops b)))"
proof (induction ops arbitrary: b)
  case (Cons x ops)
  obtain out b1 where s: "buf_step x b = (out, b1)" by fastforce
  have ok: "op_ok x (readable_view b)" using Cons.prems(2) by simp
  note st = buf_step_refines [OF Cons.prems(1) ok s] and sz = buf_step_size [OF Cons.prems(1) ok _ Cons.prems(4)]
  have "length (bdata (snd (run_ops buf_step ops b1))) \<le> 2 * m + kPrependSize \<and> length (bdata b1) \<le> length (bdata (snd (run_ops buf_step ops b1)))"
    by (rule Cons.IH) (use Cons.prems(2,3) st sz s in auto)
  then show ?case using sz Cons.prems(3) by (auto simp: s split_beta)
qed simp

text \<open>
  C8. A buffer is a queue of bytes: over any history of calls, including the reads of a socket into it, the
  strings it hands out and the bytes it holds are those of the same history on a plain queue. Moving the
  readable bytes to the front and growing the vector are not observable.
\<close>

theorem buffer_refines_queue:
  assumes "ops_ok ops []" "run_ops buf_step ops new_buffer = (outs, b)"
  shows "run_ops queue_step ops [] = (outs, readable_view b)"
  using buf_run_refines [OF buffer_inv_new _ assms(2)] assms(1) by simp

theorem buffer_refines_queue_witness:
  "fst (run_ops buf_step [BAppend ''abc'', BTake 2, BFill 4096 ''de'', BTakeAll] new_buffer) = [''ab'', ''cde'']"
proof -
  let ?ops = "[BAppend ''abc'', BTake 2, BFill 4096 ''de'', BTakeAll]"
  obtain outs b where r: "run_ops buf_step ?ops new_buffer = (outs, b)" by fastforce
  have "ops_ok ?ops []" by simp
  from buffer_refines_queue [OF this r] have "outs = [''ab'', ''cde'']" by simp
  with r show ?thesis by (simp only: fst_conv)
qed

text \<open>
  C35. The layout of a buffer is well formed after any history: the prepend area, the reader, the writer and
  the end of the vector stay in this order, so every access of the class is inside the vector; the vector
  never shrinks below its initial size, and it holds at most twice the largest amount of live and
  requested bytes, however much data has passed through.
\<close>

theorem buffer_wellformed:
  assumes "ops_ok ops []" "ops_fit m ops []" "512 \<le> m" "b = snd (run_ops buf_step ops new_buffer)"
  shows "8 \<le> reader_index b \<and> reader_index b \<le> writer_index b \<and> writer_index b \<le> length (bdata b)
    \<and> 1032 \<le> length (bdata b) \<and> length (bdata b) \<le> 2 * m + 8"
proof -
  obtain outs c where r: "run_ops buf_step ops new_buffer = (outs, c)" by fastforce
  have new: "length (bdata new_buffer) = 1032" by (simp add: new_buffer_def kPrependSize_def kInitialSize_def)
  have "buffer_inv b" using buf_run_refines [OF buffer_inv_new _ r] assms(1,4) r by simp
  moreover have "1032 \<le> length (bdata b) \<and> length (bdata b) \<le> 2 * m + 8"
    using buf_run_size [OF buffer_inv_new, of ops m] assms new by (simp add: kPrependSize_def)
  ultimately show ?thesis by (simp add: buffer_inv_def kPrependSize_def)
qed

theorem buffer_wellformed_witness:
  "length (bdata (snd (run_ops buf_step [BFill 4096 ''x'', BRetrieve 1, BFill 4096 ''y''] new_buffer))) \<le> 2 * 4097 + 8"
  using buffer_wellformed [of "[BFill 4096 ''x'', BRetrieve 1, BFill 4096 ''y'']" 4097, OF _ _ _ refl] by simp

end
