(* ===== verification/Io_Loops.thy ===== *)
theory Io_Loops
  imports Connection_Props
begin

text \<open>
  When the \<open>while (true)\<close> loops of \<open>src/src/connection.cpp\<close> end. Here the kernel answers an unbounded
  number of calls: \<open>k i\<close> is what it answers to call number \<open>i\<close>. The loops are translated as they stand,
  as partial functions; \<open>None\<close> means that the loop runs forever. The theorems say exactly when they return,
  and that they then compute what the loops of \<open>Connection\<close> compute on the finite script of the answers.
\<close>

section \<open>The loops\<close>

text \<open>The loop of \<open>handle_read\<close>; \<open>None\<close> is \<open>EAGAIN\<close>, an empty \<open>RBytes\<close> the end of the stream.\<close>

partial_function (option) read_while :: "(nat \<Rightarrow> rd_result option) \<Rightarrow> nat \<Rightarrow> buffer \<Rightarrow> (io_outcome \<times> buffer \<times> nat) option" where
  "read_while k i b =
     (let b1 = ensure_writable b 4096
      in case k i of
           None \<Rightarrow> Some (Drained, b1, Suc i)
         | Some (RBytes bs) \<Rightarrow>
             (let xs = take (writable_bytes b1) bs
              in if xs = [] then Some (EndOfStream, b1, Suc i)
                 else read_while k (Suc i) (has_written (store_at_writer b1 xs) (length xs)))
         | Some RIntr \<Rightarrow> read_while k (Suc i) b1
         | Some RErr \<Rightarrow> Some (IoError, b1, Suc i))"

text \<open>The loop of \<open>send\<close> over the bytes that are left.\<close>

partial_function (option) send_while :: "(nat \<Rightarrow> wr_result) \<Rightarrow> nat \<Rightarrow> bytes \<Rightarrow> (io_outcome \<times> bytes \<times> nat) option" where
  "send_while k i data =
     (if data = [] then Some (EndOfStream, data, i)
      else case k i of
             WCount n \<Rightarrow> (if min n (length data) > 0 then send_while k (Suc i) (drop (min n (length data)) data) else send_while k (Suc i) data)
           | WIntr \<Rightarrow> send_while k (Suc i) data
           | WAgain \<Rightarrow> Some (Drained, data, Suc i)
           | WErr \<Rightarrow> Some (IoError, data, Suc i))"

section \<open>When reading ends\<close>

definition rd_final :: "rd_result option \<Rightarrow> bool" where
  "rd_final r \<longleftrightarrow> r = None \<or> r = Some RErr \<or> r = Some (RBytes [])"

lemma read_room: "buffer_inv b \<Longrightarrow> take (writable_bytes (ensure_writable b 4096)) bs = [] \<longleftrightarrow> bs = []"
  using writable_ensure_writable [of b 4096] by auto

text \<open>One round of the loop keeps the buffer well formed and goes on exactly if the answer is not final.\<close>

definition read_round :: "rd_result option \<Rightarrow> buffer \<Rightarrow> buffer" where
  "read_round r b =
     (let b1 = ensure_writable b 4096
      in case r of Some (RBytes bs) \<Rightarrow> (let xs = take (writable_bytes b1) bs in has_written (store_at_writer b1 xs) (length xs)) | _ \<Rightarrow> b1)"

lemma read_round_inv:
  assumes "buffer_inv b"
  shows "buffer_inv (read_round r b)"
proof -
  let ?b = "ensure_writable b 4096"
  have e: "buffer_inv ?b" by (rule ensure_writable_inv [OF assms])
  have "buffer_inv (has_written (store_at_writer ?b (take (writable_bytes ?b) bs)) (length (take (writable_bytes ?b) bs)))" for bs
    by (rule fill_inv [OF e]) simp
  with e show ?thesis by (simp add: read_round_def Let_def split: option.split rd_result.split)
qed

lemma read_body_next:
  assumes "buffer_inv b" "\<not> rd_final (k i)"
  shows "(let b1 = ensure_writable b 4096
      in case k i of
           None \<Rightarrow> Some (Drained, b1, Suc i)
         | Some (RBytes bs) \<Rightarrow>
             (let xs = take (writable_bytes b1) bs
              in if xs = [] then Some (EndOfStream, b1, Suc i)
                 else rw k (Suc i) (has_written (store_at_writer b1 xs) (length xs)))
         | Some RIntr \<Rightarrow> rw k (Suc i) b1
         | Some RErr \<Rightarrow> Some (IoError, b1, Suc i)) = rw k (Suc i) (read_round (k i) b)"
proof (cases "k i")
  case (Some r)
  show ?thesis
  proof (cases r)
    case (RBytes bs)
    then have "bs \<noteq> []" using assms(2) Some by (auto simp: rd_final_def)
    then have "take (writable_bytes (ensure_writable b 4096)) bs \<noteq> []" using read_room [OF assms(1)] by blast
    then show ?thesis by (simp only: Some RBytes read_round_def Let_def option.case rd_result.case if_False)
  qed (use assms(2) Some in \<open>simp_all add: rd_final_def read_round_def Let_def\<close>)
qed (use assms(2) in \<open>simp add: rd_final_def\<close>)

lemma read_while_next:
  assumes "buffer_inv b" "\<not> rd_final (k i)"
  shows "read_while k i b = read_while k (Suc i) (read_round (k i) b)"
  using read_body_next [of b k i read_while, OF assms] by (simp only: read_while.simps [symmetric])

lemma read_loop_next:
  assumes "buffer_inv b" "k i = Some r" "\<not> rd_final (k i)" "\<And>bs. k i = Some (RBytes bs) \<Longrightarrow> length bs \<le> 4096" "\<not> sk_closed s"
  shows "read_loop b (s\<lparr>rd_script := r # rs\<rparr>) = read_loop (read_round (k i) b) (s\<lparr>rd_script := rs\<rparr>)"
proof -
  have room: "4096 \<le> writable_bytes (ensure_writable b 4096)" by (rule writable_ensure_writable [OF assms(1)])
  show ?thesis
  proof (cases r)
    case (RBytes bs)
    then have "bs \<noteq> []" "length bs \<le> writable_bytes (ensure_writable b 4096)"
      using assms(2-4) room by (auto simp: rd_final_def intro: le_trans)
    moreover have "writable_bytes (ensure_writable b 4096) \<noteq> 0" using room by simp
    ultimately show ?thesis using assms(2,5) RBytes by (subst read_loop.simps) (simp add: sys_read_def read_round_def Let_def)
  qed (use assms(2,3,5) in \<open>subst read_loop.simps, simp add: sys_read_def read_round_def rd_final_def Let_def\<close>)+
qed

lemma read_while_last:
  assumes "rd_final (k i)" "\<not> sk_closed s"
  shows "\<exists>r. read_while k i b = Some (r, ensure_writable b 4096, Suc i)
    \<and> read_loop b (s\<lparr>rd_script := List.map_filter k [i..<Suc i]\<rparr>) = (r, ensure_writable b 4096, s\<lparr>rd_script := []\<rparr>)"
  using assms
  by (subst read_while.simps, subst read_loop.simps) (auto simp: rd_final_def sys_read_def map_filter_simps Let_def)

lemma read_while_returns:
  "buffer_inv b \<Longrightarrow> rd_final (k (i + d)) \<Longrightarrow> (\<And>j bs. k j = Some (RBytes bs) \<Longrightarrow> length bs \<le> 4096) \<Longrightarrow> \<not> sk_closed s
    \<Longrightarrow> \<exists>r b' j. read_while k i b = Some (r, b', j) \<and> i < j
      \<and> read_loop b (s\<lparr>rd_script := List.map_filter k [i..<j]\<rparr>) = (r, b', s\<lparr>rd_script := []\<rparr>)"
proof (induction d arbitrary: i b)
  case 0
  then show ?case using read_while_last [of k i s b] by auto
next
  case (Suc d)
  show ?case
  proof (cases "rd_final (k i)")
    case True
    then show ?thesis using read_while_last [of k i s b] Suc.prems(4) by blast
  next
    case False
    then obtain x where x: "k i = Some x" by (auto simp: rd_final_def)
    have "\<exists>r b' j. read_while k (Suc i) (read_round (k i) b) = Some (r, b', j) \<and> Suc i < j
      \<and> read_loop (read_round (k i) b) (s\<lparr>rd_script := List.map_filter k [Suc i..<j]\<rparr>) = (r, b', s\<lparr>rd_script := []\<rparr>)"
      by (rule Suc.IH [OF read_round_inv [OF Suc.prems(1)] _ Suc.prems(3,4)]) (use Suc.prems(2) in simp_all)
    then obtain r b' j where j: "read_while k (Suc i) (read_round (k i) b) = Some (r, b', j)" "Suc i < j"
      "read_loop (read_round (k i) b) (s\<lparr>rd_script := List.map_filter k [Suc i..<j]\<rparr>) = (r, b', s\<lparr>rd_script := []\<rparr>)" by blast
    have "List.map_filter k [i..<j] = x # List.map_filter k [Suc i..<j]" using j(2) x by (simp add: upt_conv_Cons map_filter_simps)
    then show ?thesis
      using j read_while_next [of b k i, OF Suc.prems(1) False] read_loop_next [of b k i, OF Suc.prems(1) x False Suc.prems(3,4)] by auto
  qed
qed

lemma read_while_final:
  assumes "read_while k i b = Some r"
  shows "buffer_inv b \<longrightarrow> (\<exists>j\<ge>i. rd_final (k j))"
proof (rule read_while.raw_induct [where P = "\<lambda>k i b r. buffer_inv b \<longrightarrow> (\<exists>j\<ge>i. rd_final (k j))", OF _ assms])
  fix rw k i b and r :: "io_outcome \<times> buffer \<times> nat"
  assume ih: "\<And>k i b r. rw k i b = Some r \<Longrightarrow> buffer_inv b \<longrightarrow> (\<exists>j\<ge>i. rd_final (k j))"
    and rw: "(let b1 = ensure_writable b 4096
      in case k i of
           None \<Rightarrow> Some (Drained, b1, Suc i)
         | Some (RBytes bs) \<Rightarrow>
             (let xs = take (writable_bytes b1) bs
              in if xs = [] then Some (EndOfStream, b1, Suc i)
                 else rw k (Suc i) (has_written (store_at_writer b1 xs) (length xs)))
         | Some RIntr \<Rightarrow> rw k (Suc i) b1
         | Some RErr \<Rightarrow> Some (IoError, b1, Suc i)) = Some r"
  show "buffer_inv b \<longrightarrow> (\<exists>j\<ge>i. rd_final (k j))"
  proof (cases "rd_final (k i)", blast, rule impI)
    assume False: "\<not> rd_final (k i)" and b: "buffer_inv b"
    have "rw k (Suc i) (read_round (k i) b) = Some r" using rw unfolding read_body_next [of b k i rw, OF b False] .
    from ih [OF this] read_round_inv [OF b] obtain j where "Suc i \<le> j" "rd_final (k j)" by blast
    then show "\<exists>j\<ge>i. rd_final (k j)" by (intro exI [of _ j]) simp
  qed
qed



section \<open>When sending ends\<close>

text \<open>The bytes an answer takes, and the answers that end the loop at once.\<close>

fun wr_taken :: "wr_result \<Rightarrow> nat" where
  "wr_taken (WCount n) = n"
| "wr_taken _ = 0"

definition wr_final :: "wr_result \<Rightarrow> bool" where
  "wr_final r \<longleftrightarrow> r = WAgain \<or> r = WErr"

definition taken :: "(nat \<Rightarrow> wr_result) \<Rightarrow> nat \<Rightarrow> nat \<Rightarrow> nat" where
  "taken k i j = sum_list (map (wr_taken \<circ> k) [i..<j])"

lemma taken_rec [simp]: "taken k i i = 0" "i < j \<Longrightarrow> taken k i j = wr_taken (k i) + taken k (Suc i) j"
  by (simp_all add: taken_def upt_conv_Cons)

lemma send_while_next:
  assumes "data \<noteq> []" "\<not> wr_final (k i)"
  shows "send_while k i data = send_while k (Suc i) (drop (wr_taken (k i)) data)"
proof (cases "k i")
  case (WCount n)
  have "drop (min n (length data)) data = drop n data" by (simp add: min_def)
  with assms(1) WCount show ?thesis by (subst send_while.simps) simp
qed (use assms in \<open>simp_all add: send_while.simps [of k i data] wr_final_def\<close>)

lemma send_loop_next:
  assumes "data \<noteq> []" "\<not> wr_final x" "\<not> sk_closed s" "\<not> shut_wr s"
  shows "\<exists>s1. send_loop data (s\<lparr>wr_script := x # ws\<rparr>) = send_loop (drop (wr_taken x) data) (s1\<lparr>wr_script := ws\<rparr>)
    \<and> \<not> sk_closed s1 \<and> \<not> shut_wr s1"
proof (cases x)
  case (WCount n)
  have d: "drop (min n (length data)) data = drop n data" by (simp add: min_def)
  let ?s = "s\<lparr>wire := wire s @ take (min n (length data)) data\<rparr>"
  have "send_loop data (s\<lparr>wr_script := x # ws\<rparr>) = send_loop (drop n data) (?s\<lparr>wr_script := ws\<rparr>)"
  proof -
    have "send_loop data (s\<lparr>wr_script := x # ws\<rparr>)
        = send_loop (drop n data) (s\<lparr>wr_script := ws, wire := wire s @ take (min n (length data)) data\<rparr>)"
      using assms WCount d by (simp add: send_loop.simps [of data "s\<lparr>wr_script := WCount n # ws\<rparr>"] sys_write_def Let_def)
    also have "s\<lparr>wr_script := ws, wire := wire s @ take (min n (length data)) data\<rparr> = ?s\<lparr>wr_script := ws\<rparr>" by (cases s) simp
    finally show ?thesis .
  qed
  then show ?thesis using assms(3,4) WCount by (intro exI [of _ ?s]) simp
next
  case WIntr
  have "send_loop data (s\<lparr>wr_script := x # ws\<rparr>) = send_loop data (s\<lparr>wr_script := ws\<rparr>)"
    using assms WIntr by (simp add: send_loop.simps [of data "s\<lparr>wr_script := WIntr # ws\<rparr>"] sys_write_def)
  then show ?thesis using assms(3,4) WIntr by (intro exI [of _ s]) simp
qed (use assms(2) in \<open>simp_all add: wr_final_def\<close>)

lemma send_while_last:
  assumes "data \<noteq> []" "wr_final (k i)" "\<not> sk_closed s" "\<not> shut_wr s"
  shows "\<exists>r s'. send_while k i data = Some (r, data, Suc i) \<and> send_loop data (s\<lparr>wr_script := map k [i..<Suc i]\<rparr>) = (r, data, s')"
proof -
  have "k i = WAgain \<or> k i = WErr" using assms(2) by (simp add: wr_final_def)
  then show ?thesis
    using assms(1,3,4)
    by (auto simp: send_while.simps [of k i data] send_loop.simps [of data "s\<lparr>wr_script := [k i]\<rparr>"] sys_write_def)
qed

lemma send_while_returns:
  "\<not> sk_closed s \<Longrightarrow> \<not> shut_wr s \<Longrightarrow> wr_final (k (i + d)) \<or> length data \<le> taken k i (i + d)
    \<Longrightarrow> \<exists>r rest j s'. send_while k i data = Some (r, rest, j) \<and> i \<le> j \<and> send_loop data (s\<lparr>wr_script := map k [i..<j]\<rparr>) = (r, rest, s')"
proof (induction d arbitrary: i data s)
  case 0
  then show ?case
    using send_while_last [of data k i s] send_while.simps [of k i "[]"] send_loop.simps [of "[]"] by (cases "data = []") fastforce+
next
  case (Suc d)
  consider "data = []" | "data \<noteq> []" "wr_final (k i)" | "data \<noteq> []" "\<not> wr_final (k i)" by blast
  then show ?case
  proof cases
    case 1
    then show ?thesis using send_while.simps [of k i "[]"] send_loop.simps [of "[]"] by auto
  next
    case 2
    then show ?thesis using send_while_last [of data k i s] Suc.prems(1,2) by fastforce
  next
    case 3
    let ?d = "drop (wr_taken (k i)) data"
    have prog: "wr_final (k (Suc i + d)) \<or> length ?d \<le> taken k (Suc i) (Suc i + d)" using Suc.prems(3) by auto
    note ih = Suc.IH [OF _ _ prog]
    obtain r rest j where j: "send_while k (Suc i) ?d = Some (r, rest, j)" "Suc i \<le> j" using ih [OF Suc.prems(1,2)] by blast
    obtain t where t: "send_loop data (s\<lparr>wr_script := k i # map k [Suc i..<j]\<rparr>) = send_loop ?d (t\<lparr>wr_script := map k [Suc i..<j]\<rparr>)"
      "\<not> sk_closed t" "\<not> shut_wr t"
      using send_loop_next [of data "k i" s, OF 3 Suc.prems(1,2)] by blast
    from ih [OF t(2,3)] j(1) obtain s' where "send_loop ?d (t\<lparr>wr_script := map k [Suc i..<j]\<rparr>) = (r, rest, s')" by auto
    moreover have "map k [i..<j] = k i # map k [Suc i..<j]" using j(2) by (simp add: upt_conv_Cons)
    ultimately show ?thesis using t(1) j send_while_next [of data k i, OF 3] by (intro exI [of _ r] exI [of _ rest] exI [of _ j]) auto
  qed
qed


lemma send_while_final:
  assumes "send_while k i data = Some r"
  shows "data = [] \<or> (\<exists>j\<ge>i. wr_final (k j) \<or> length data \<le> taken k i (Suc j))"
proof (rule send_while.raw_induct [where P = "\<lambda>k i data r. data = [] \<or> (\<exists>j\<ge>i. wr_final (k j) \<or> length data \<le> taken k i (Suc j))", OF _ assms])
  fix sw k i and data :: bytes and r :: "io_outcome \<times> bytes \<times> nat"
  assume ih: "\<And>k i data r. sw k i data = Some r \<Longrightarrow> data = [] \<or> (\<exists>j\<ge>i. wr_final (k j) \<or> length data \<le> taken k i (Suc j))"
    and sw: "(if data = [] then Some (EndOfStream, data, i)
      else case k i of
             WCount n \<Rightarrow> (if min n (length data) > 0 then sw k (Suc i) (drop (min n (length data)) data) else sw k (Suc i) data)
           | WIntr \<Rightarrow> sw k (Suc i) data
           | WAgain \<Rightarrow> Some (Drained, data, Suc i)
           | WErr \<Rightarrow> Some (IoError, data, Suc i)) = Some r"
  show "data = [] \<or> (\<exists>j\<ge>i. wr_final (k j) \<or> length data \<le> taken k i (Suc j))"
  proof (cases "data = [] \<or> wr_final (k i)", blast)
    assume n: "\<not> (data = [] \<or> wr_final (k i))"
    have "drop (min n (length data)) data = drop n data" for n by (simp add: min_def)
    then have "sw k (Suc i) (drop (wr_taken (k i)) data) = Some r"
      using sw n by (cases "k i") (auto simp: wr_final_def split: if_splits)
    from ih [OF this] consider "length data \<le> wr_taken (k i)"
      | j where "Suc i \<le> j" "wr_final (k j) \<or> length data - wr_taken (k i) \<le> taken k (Suc i) (Suc j)" by auto
    then show ?thesis
    proof cases
      case 1
      then show ?thesis by (intro disjI2 exI [of _ i]) simp
    next
      case (2 j)
      then show ?thesis by (intro disjI2 exI [of _ j]) auto
    qed
  qed
qed

text \<open>
  C15. The loop of \<open>send\<close> returns exactly if there is nothing to send, or the kernel at some point refuses
  (\<open>EAGAIN\<close> or an error), or the bytes it takes add up to the whole message; a kernel that keeps answering
  zero bytes or \<open>EINTR\<close> keeps it going forever. When it returns, the outcome and the rest are those of
  \<open>send_loop\<close> on the answers it consumed.
\<close>

theorem send_returns:
  assumes "\<not> sk_closed s" "\<not> shut_wr s"
  shows "((\<exists>y. send_while k 0 data = Some y) \<longleftrightarrow> data = [] \<or> (\<exists>j. wr_final (k j) \<or> length data \<le> taken k 0 (Suc j)))
    \<and> (\<forall>r rest j. send_while k 0 data = Some (r, rest, j) \<longrightarrow> (\<exists>s'. send_loop data (s\<lparr>wr_script := map k [0..<j]\<rparr>) = (r, rest, s')))"
proof -
  let ?P = "data = [] \<or> (\<exists>j. wr_final (k j) \<or> length data \<le> taken k 0 (Suc j))"
  have ret: "\<exists>r rest j s'. send_while k 0 data = Some (r, rest, j) \<and> send_loop data (s\<lparr>wr_script := map k [0..<j]\<rparr>) = (r, rest, s')" if P: ?P
  proof -
    consider "data = []" | j where "wr_final (k j) \<or> length data \<le> taken k 0 (Suc j)" using P by blast
    then have "\<exists>d. wr_final (k (0 + d)) \<or> length data \<le> taken k 0 (0 + d)"
    proof cases
      case 1
      then show ?thesis by (intro exI [of _ 0]) simp
    next
      case (2 j)
      then show ?thesis by (metis add_0)
    qed
    then obtain d where "wr_final (k (0 + d)) \<or> length data \<le> taken k 0 (0 + d)" ..
    from send_while_returns [OF assms this] show ?thesis by blast
  qed
  have fin: ?P if "send_while k 0 data = Some y" for y using send_while_final [OF that] by blast
  have "(\<exists>y. send_while k 0 data = Some y) \<longleftrightarrow> ?P" using ret fin by blast
  moreover have "\<exists>s'. send_loop data (s\<lparr>wr_script := map k [0..<j]\<rparr>) = (r, rest, s')" if "send_while k 0 data = Some (r, rest, j)" for r rest j
    using ret [OF fin [OF that]] that by auto
  ultimately show ?thesis by blast
qed

theorem send_returns_witness:
  "\<exists>y. send_while (\<lambda>i. WCount (i mod 2)) 0 ''ab'' = Some y"
proof -
  let ?s = "\<lparr>rd_script = [], wr_script = [], wire = [], shut_wr = False, sk_closed = False, bad_io = 0\<rparr>"
  have "\<not> sk_closed ?s" "\<not> shut_wr ?s" by simp_all
  moreover have "length ''ab'' \<le> taken (\<lambda>i. WCount (i mod 2)) 0 (Suc 3)" by (simp add: taken_def upt_rec)
  ultimately show ?thesis using conjunct1 [OF send_returns [where k = "\<lambda>i. WCount (i mod 2)" and data = "''ab''"]] by blast
qed

end
