(* ===== verification/Server_Io.thy ===== *)
theory Server_Io
  imports Programs
begin

text \<open>
  What the threads of the pool do to a server: the operations of a connection on the thread of its loop leave
  the server's own state and the other connections alone, and ask the main loop for the erasure of the
  connection exactly when they close it. Stated once for any application whose callbacks act on the connection
  they are called with (a locale); the HTTP server and the echo server are such applications.
\<close>

section \<open>What the threads of the pool leave alone\<close>

text \<open>A connection handled by the thread of its loop, which is a loop of the pool.\<close>

definition io_here :: "nat \<Rightarrow> ('a, 'x, 'z) server_world_scheme \<Rightarrow> bool" where
  "io_here c w \<longleftrightarrow> loop_of c w \<noteq> main_loop \<and> owner_tid (loops w main_loop) \<noteq> this_thread w
     \<and> owner_tid (loops w (loop_of c w)) = this_thread w \<and> has_close_cb (conns w c)"

text \<open>
  A step of connection \<open>c\<close> on its thread: the server's own state and the other connections stay, and the
  main loop gets the request to erase \<open>c\<close> exactly when the step closes \<open>c\<close>.
\<close>

definition srv_adv :: "nat \<Rightarrow> ('a, 'x, 'z) server_world_scheme \<Rightarrow> ('a, 'x, 'z) server_world_scheme \<Rightarrow> bool" where
  "srv_adv c w v \<longleftrightarrow> io_here c v \<and> this_thread v = this_thread w \<and> connections v = connections w
     \<and> srv_has_connection_cb v = srv_has_connection_cb w
     \<and> next_cid v = next_cid w \<and> thread_pool v = thread_pool w \<and> (\<forall>d. d \<noteq> c \<longrightarrow> conns v d = conns w d)
     \<and> cn_fd (conns v c) = cn_fd (conns w c) \<and> loop_of c v = loop_of c w
     \<and> (\<forall>i. owner_tid (loops v i) = owner_tid (loops w i)) \<and> (is_open c v \<longrightarrow> is_open c w)
     \<and> pending_functors (loops v main_loop) = pending_functors (loops w main_loop)
         @ (if is_open c w \<and> \<not> is_open c v then [Task (App (RemoveConn c))] else [])"

named_theorems srv_intros

lemma srv_adv_refl: "io_here c w \<Longrightarrow> srv_adv c w w"
  by (simp add: srv_adv_def)

lemma srv_adv_trans: "srv_adv c w v \<Longrightarrow> srv_adv c v u \<Longrightarrow> srv_adv c w u"
  unfolding srv_adv_def by auto

lemma srv_adv_here: "srv_adv c w v \<Longrightarrow> io_here c v"
  by (simp add: srv_adv_def)

lemma srv_adv_then: "(\<And>w. io_here c w \<Longrightarrow> srv_adv c w (F w)) \<Longrightarrow> srv_adv c w v \<Longrightarrow> srv_adv c w (F v)"
  by (blast intro: srv_adv_trans srv_adv_here)

text \<open>Steps outside the state the relation speaks of.\<close>

lemma srv_adv_cong:
  assumes "srv_adv c w v" "loops u = loops v" "conns u = conns v" "this_thread u = this_thread v" "connections u = connections v"
    "next_cid u = next_cid v" "thread_pool u = thread_pool v" "srv_has_connection_cb u = srv_has_connection_cb v"
  shows "srv_adv c w u"
  using assms unfolding srv_adv_def io_here_def is_open_def by auto

lemma srv_adv_on_conn [srv_intros]:
  assumes "srv_adv c w v" "cn_fd (g (conns v c)) = cn_fd (conns v c)" "cn_loop (g (conns v c)) = loop_of c v"
    "has_close_cb (g (conns v c)) = has_close_cb (conns v c)"
    "cn_state (g (conns v c)) = kDisconnected \<longleftrightarrow> cn_state (conns v c) = kDisconnected"
  shows "srv_adv c w (on_conn c g v)"
  using assms unfolding srv_adv_def io_here_def is_open_def on_conn_def by auto

lemma srv_adv_on_loop:
  assumes "srv_adv c w v" "i \<noteq> main_loop" "owner_tid (f (loops v i)) = owner_tid (loops v i)"
  shows "srv_adv c w (on_loop i f v)"
  using assms by (auto simp: srv_adv_def io_here_def is_open_def on_loop_def)

lemma srv_adv_own_loop [srv_intros]:
  assumes "srv_adv c w v" "owner_tid (f (loops v (loop_of c v))) = owner_tid (loops v (loop_of c v))"
  shows "srv_adv c w (on_loop (loop_of c v) f v)"
  using assms by (intro srv_adv_on_loop) (auto dest: srv_adv_here simp: io_here_def)

section \<open>Operations of a connection\<close>

lemma channel_op_loop [simp]:
  "owner_tid (snd (update_channel t ch l)) = owner_tid l" "owner_tid (snd (remove_channel t ch l)) = owner_tid l"
  "pending_functors (snd (update_channel t ch l)) = pending_functors l"
  by (simp_all add: update_channel_def remove_channel_def Let_def split_beta)

lemma srv_adv_channel:
  assumes "srv_adv c w v" "\<And>t ch l. owner_tid (snd (op t ch l)) = owner_tid l"
  shows "srv_adv c w (with_channel c op v)"
proof -
  let ?r = "op (this_thread v) (cn_channel (conns v c)) (loops v (loop_of c v))"
  have "srv_adv c w (on_loop (loop_of c v) (\<lambda>_. snd ?r) v)" by (rule srv_adv_own_loop [OF assms(1)]) (rule assms(2))
  then have "srv_adv c w (on_conn c (\<lambda>cn. cn\<lparr>cn_channel := fst ?r\<rparr>) (on_loop (loop_of c v) (\<lambda>_. snd ?r) v))"
    by (rule srv_adv_on_conn) simp_all
  then show ?thesis by (simp add: with_channel_def split_beta Let_def)
qed

lemma srv_adv_channels [srv_intros]:
  assumes "srv_adv c w v"
  shows "srv_adv c w (with_channel c enable_reading v)" "srv_adv c w (with_channel c enable_writing v)"
    "srv_adv c w (with_channel c disable_writing v)" "srv_adv c w (with_channel c disable_all v)"
    "srv_adv c w (with_channel c remove_channel v)"
  using srv_adv_channel [OF assms] by (simp_all add: channel_ops)

lemma srv_adv_release:
  assumes "srv_adv c w v"
  shows "srv_adv c w (conn_release c v)"
proof -
  let ?w1 = "with_channel c remove_channel (with_channel c disable_all v)"
  have a: "srv_adv c w ?w1" using assms by (intro srv_intros)
  then have "srv_adv c w (on_conn c (\<lambda>cn. cn\<lparr>sk := (sk cn)\<lparr>sk_closed := True\<rparr>\<rparr>) ?w1)" by (rule srv_adv_on_conn) simp_all
  then have "srv_adv c w (on_loop (loop_of c ?w1) (fd_close (cn_fd (conns ?w1 c)))
      (on_conn c (\<lambda>cn. cn\<lparr>sk := (sk cn)\<lparr>sk_closed := True\<rparr>\<rparr>) ?w1))"
    using srv_adv_here [OF a] by (intro srv_adv_on_loop) (auto simp: io_here_def fd_close_def)
  with a show ?thesis by (simp add: conn_release_def Let_def)
qed

lemma srv_adv_queue [srv_intros]:
  assumes "srv_adv c w v"
  shows "srv_adv c w (on_loop (loop_of c v) (queue_in_loop t f) v)"
  using assms by (intro srv_intros) simp_all

text \<open>\<open>close\<close> on a thread of the pool: the close callback of the server hands the rest to the main loop.\<close>

lemma srv_adv_close [srv_intros]:
  assumes "srv_adv c w v"
  shows "srv_adv c w (conn_close (server_close_cb ccb) c v)"
proof (cases "is_open c v")
  case True
  define v1 where "v1 = on_conn c (\<lambda>cn. cn\<lparr>cn_state := kDisconnected\<rparr>) v"
  have here: "io_here c v1" using srv_adv_here [OF assms] by (simp add: v1_def io_here_def on_conn_def)
  note a = srv_adv_release [OF srv_adv_refl [OF here]]
  define v2 where "v2 = conn_release c v1"
  have here2: "io_here c v2" using srv_adv_here [OF a] by (simp add: v2_def)
  have close: "conn_close (server_close_cb ccb) c v
      = on_loop main_loop (queue_in_loop (this_thread v2) (Task (App (RemoveConn c)))) v2"
    using True here2 by (simp add: conn_close_def is_open_def server_close_cb_def run_in_loop_def in_loop_thread_def io_here_def
        flip: v1_def v2_def)
  have v1: "loops v1 = loops v" "this_thread v1 = this_thread v" "connections v1 = connections v" "next_cid v1 = next_cid v"
    "thread_pool v1 = thread_pool v" "srv_has_connection_cb v1 = srv_has_connection_cb v" "conns v1 = (conns v)(c := (conns v c)\<lparr>cn_state := kDisconnected\<rparr>)"
    by (simp_all add: v1_def on_conn_def)
  have "srv_adv c v (conn_close (server_close_cb ccb) c v)"
    unfolding close using a [folded v2_def] True here2
    by (auto simp: srv_adv_def v1 io_here_def is_open_def on_loop_def)
  with assms show ?thesis by (rule srv_adv_trans)
qed (use assms in \<open>simp add: conn_close_def is_open_def\<close>)

lemma closed_after_close:
  assumes "io_here c w"
  shows "\<not> is_open c (conn_close (server_close_cb ccb) c w)"
proof (cases "is_open c w")
  case True
  define v1 where "v1 = on_conn c (\<lambda>cn. cn\<lparr>cn_state := kDisconnected\<rparr>) w"
  have here: "io_here c v1" using assms by (simp add: v1_def io_here_def on_conn_def)
  note a = srv_adv_release [OF srv_adv_refl [OF here]]
  have "\<not> is_open c (conn_release c v1)" using a by (auto simp: srv_adv_def v1_def is_open_def)
  with True srv_adv_here [OF a] show ?thesis
    by (simp add: conn_close_def is_open_def server_close_cb_def run_in_loop_def in_loop_thread_def io_here_def Let_def flip: v1_def)
qed (simp add: conn_close_def is_open_def)

lemma srv_adv_send_rest:
  assumes "srv_adv c w v"
  shows "srv_adv c w (send_rest c rest v)"
proof -
  define w1 where "w1 = on_conn c (\<lambda>cn. cn\<lparr>output_buffer := buf_append (output_buffer cn) rest\<rparr>) v"
  have a1: "srv_adv c w w1" unfolding w1_def by (rule srv_adv_on_conn [OF assms]) simp_all
  show ?thesis
    using assms a1 unfolding send_rest_def Let_def w1_def [symmetric] by (auto intro: srv_intros)
qed

lemma srv_adv_send [srv_intros]:
  assumes "srv_adv c w v"
  shows "srv_adv c w (conn_send (server_close_cb ccb) c data v)"
proof -
  obtain r rest s where l: "send_loop data (sk (conns v c)) = (r, rest, s)" by (metis prod_cases3)
  have "srv_adv c w (on_conn c (\<lambda>cn. cn\<lparr>sk := s\<rparr>) v)" by (rule srv_adv_on_conn [OF assms]) simp_all
  then show ?thesis
    using assms by (auto simp: conn_send_def l Let_def intro: srv_adv_close srv_adv_send_rest)
qed

lemma srv_adv_in_loop: "srv_adv c w v \<Longrightarrow> in_loop_thread (loop_of c v) v"
  by (auto dest: srv_adv_here simp: io_here_def in_loop_thread_def)

lemma srv_adv_shutdown_in_loop [srv_intros]:
  assumes "srv_adv c w v"
  shows "srv_adv c w (shutdown_in_loop c v)"
  using assms srv_adv_in_loop [OF assms] by (auto simp: shutdown_in_loop_def intro!: srv_adv_on_conn)

lemma srv_adv_shutdown [srv_intros]:
  assumes "srv_adv c w v"
  shows "srv_adv c w (conn_shutdown c v)"
proof (cases "cn_state (conns v c) = kConnected")
  case True
  let ?v = "on_conn c (\<lambda>cn. cn\<lparr>cn_state := kDisconnecting\<rparr>) v"
  have a: "srv_adv c w ?v" using True by (intro srv_adv_on_conn [OF assms]) simp_all
  with srv_adv_shutdown_in_loop [OF a] srv_adv_in_loop [OF a] True show ?thesis
    by (simp add: conn_shutdown_def run_in_loop_def)
qed (use assms in \<open>simp add: conn_shutdown_def\<close>)

lemma srv_adv_start [srv_intros]:
  assumes "srv_adv c w v"
  shows "srv_adv c w (conn_start c v)"
proof -
  have "srv_adv c w (on_conn c (\<lambda>cn. cn\<lparr>cn_channel := tie (cn_channel cn)\<rparr>) v)" by (rule srv_adv_on_conn [OF assms]) simp_all
  then show ?thesis using srv_adv_in_loop [OF assms] by (simp add: conn_start_def srv_adv_channels)
qed

text \<open>Timers of the loop of the connection.\<close>

lemma srv_adv_add_timer [srv_intros]:
  assumes "srv_adv c w v"
  shows "srv_adv c w (add_timer_task (loop_of c v) e v)" "srv_adv c w (cancel_task (loop_of c v) k v)"
  using assms srv_adv_in_loop [OF assms] by (auto simp: add_timer_task_def cancel_task_def intro!: srv_adv_own_loop)

lemma srv_adv_cancel [srv_intros]:
  assumes "srv_adv c w v"
  shows "srv_adv c w (cancel_timer (loop_of c v) k v)"
  using srv_adv_add_timer(2) [OF assms] srv_adv_in_loop [OF assms] by (simp add: cancel_timer_def run_in_loop_def)

lemma srv_adv_run_after [srv_intros]:
  assumes "srv_adv c w v"
  shows "srv_adv c w (snd (run_after (loop_of c v) d cb v))"
proof -
  obtain k q where q: "alloc_timer_id (timer_queue (loops v (loop_of c v))) = (k, q)" by fastforce
  have "srv_adv c w (on_loop (loop_of c v) (\<lambda>l. l\<lparr>timer_queue := q\<rparr>) v)" by (rule srv_adv_own_loop [OF assms]) simp
  from srv_adv_add_timer(1) [OF this] srv_adv_in_loop [OF this] show ?thesis
    by (simp add: run_after_def run_at_def q run_in_loop_def)
qed

section \<open>Applications\<close>

text \<open>
  The contract of an application on a server with a pool: its callbacks, and its own tasks, are steps
  of the connection they are called for.
\<close>

locale server_io =
  fixes ccb mcb :: "nat \<Rightarrow> ('a, 'x, 'z) server_world_scheme \<Rightarrow> ('a, 'x, 'z) server_world_scheme"
    and app :: "'a \<Rightarrow> ('a, 'x, 'z) server_world_scheme \<Rightarrow> ('a, 'x, 'z) server_world_scheme"
    and app_conn :: "'a \<Rightarrow> nat"
  assumes ccb_io: "io_here c w \<Longrightarrow> srv_adv c w (ccb c w)"
    and mcb_io: "io_here c w \<Longrightarrow> srv_adv c w (mcb c w)"
    and app_io: "io_here (app_conn a) w \<Longrightarrow> srv_adv (app_conn a) w (app a w)"
begin

lemma deliver_io: "srv_adv c w v \<Longrightarrow> srv_adv c w (deliver (server_cbs mcb ccb) c v)"
  by (auto simp: deliver_def server_cbs_def intro: srv_adv_then mcb_io)

lemma handle_read_io:
  assumes "srv_adv c w v"
  shows "srv_adv c w (conn_handle_read (server_cbs mcb ccb) c v)"
proof -
  obtain r b s where l: "read_loop (input_buffer (conns v c)) (sk (conns v c)) = (r, b, s)" by (metis prod_cases3)
  have a: "srv_adv c w (on_conn c (\<lambda>cn. cn\<lparr>input_buffer := b, sk := s\<rparr>) v)" by (rule srv_adv_on_conn [OF assms]) simp_all
  have cl: "close_cb (server_cbs mcb ccb) = server_close_cb ccb" by (simp add: server_cbs_def)
  show ?thesis
    using srv_adv_close [OF a] deliver_io [OF a] srv_adv_close [OF deliver_io [OF a]]
    by (cases r) (simp_all add: conn_handle_read_def l cl)
qed

lemma handle_write_io:
  assumes "srv_adv c w v"
  shows "srv_adv c w (conn_handle_write (server_cbs mcb ccb) c v)"
proof -
  obtain r b s where l: "write_loop (output_buffer (conns v c)) (sk (conns v c)) = (r, b, s)" by (metis prod_cases3)
  define w1 where "w1 = on_conn c (\<lambda>cn. cn\<lparr>output_buffer := b, sk := s\<rparr>) v"
  have a1: "srv_adv c w w1" unfolding w1_def by (rule srv_adv_on_conn [OF assms]) simp_all
  define w2 where "w2 = (if is_writing (cn_channel (conns w1 c)) then with_channel c disable_writing w1 else w1)"
  have a2: "srv_adv c w w2" using a1 by (simp add: w2_def srv_adv_channels)
  define w3 where "w3 = (if shutdown_pending (conns w2 c)
      then on_conn c (\<lambda>cn. cn\<lparr>shutdown_pending := False, sk := sys_shutdown_wr (sk cn)\<rparr>) w2 else w2)"
  have a3: "srv_adv c w w3" using a2 by (auto simp: w3_def intro!: srv_adv_on_conn)
  have cl: "close_cb (server_cbs mcb ccb) = server_close_cb ccb" by (simp add: server_cbs_def)
  show ?thesis
    unfolding conn_handle_write_def l Let_def prod.case w1_def [symmetric] w2_def [symmetric] w3_def [symmetric] cl
    using srv_adv_close [OF a1] srv_adv_queue [OF a3] a1 a3 assms
    by (cases r) (simp_all add: srv_adv_channels)
qed

lemma event_io:
  assumes "srv_adv c w v"
  shows "srv_adv c w (conn_event (server_cbs mcb ccb) c revents v)"
proof -
  have one: "srv_adv c w (case conn_channel_cbs (server_cbs mcb ccb) c k of None \<Rightarrow> id u | Some f \<Rightarrow> f u)" if "srv_adv c w u" for k u
    using that handle_read_io handle_write_io srv_adv_close by (cases k) (simp_all add: server_cbs_def)
  have "srv_adv c w (fold (\<lambda>k. case conn_channel_cbs (server_cbs mcb ccb) c k of None \<Rightarrow> id | Some f \<Rightarrow> f) ks u)"
    if "srv_adv c w u" for ks u
    using that one by (induction ks arbitrary: u) (auto simp: option.case_distrib [of "\<lambda>f. f _"] cong: option.case_cong)
  with assms show ?thesis by (simp add: conn_event_def handle_event_def handle_event_with_guard_def)
qed

lemma start_conn_io: "srv_adv c w v \<Longrightarrow> srv_adv c w (start_conn ccb c v)"
  by (auto simp: start_conn_def intro: srv_adv_start srv_adv_then ccb_io)

end

section \<open>The HTTP server and the echo server\<close>

lemma http_ccb_io: "io_here c w \<Longrightarrow> srv_adv c w (http_on_connection c w)"
  by (auto simp: http_on_connection_def intro!: srv_adv_on_conn srv_adv_refl)

lemma http_mcb_io:
  assumes "io_here c w"
  shows "srv_adv c w (http_on_message http_cb c w)"
proof (cases "cn_context (conns w c)")
  case None
  then show ?thesis using srv_adv_close [OF srv_adv_refl [OF assms]] by (simp add: http_on_message_def)
next
  case (Some ctx)
  obtain ok ctx1 b where p: "parse ctx (input_buffer (conns w c)) = (ok, ctx1, b)" by (metis prod_cases3)
  define w1 where "w1 = on_conn c (\<lambda>cn. cn\<lparr>cn_context := Some ctx1, input_buffer := b\<rparr>) w"
  have a: "srv_adv c w w1" unfolding w1_def by (rule srv_adv_on_conn [OF srv_adv_refl [OF assms]]) simp_all
  then have "srv_adv c w (http_on_request http_cb c req w1)" for req
    by (auto simp: http_on_request_def Let_def intro: srv_intros)
  then have "srv_adv c w (on_conn c (\<lambda>cn. cn\<lparr>cn_context := map_option context_reset (cn_context cn)\<rparr>) (http_on_request http_cb c req w1))" for req
    by (rule srv_adv_on_conn) simp_all
  moreover have "srv_adv c w (conn_shutdown c (conn_send http_close_cb c (serialize bad_request) w1))" using a by (intro srv_intros)
  ultimately show ?thesis using a by (simp add: http_on_message_def Some p Let_def flip: w1_def)
qed

interpretation http_io: server_io http_on_connection "http_on_message http_cb" "\<lambda>_ w. w" "\<lambda>_. 0" for http_cb
  by unfold_locales (simp_all add: http_ccb_io http_mcb_io srv_adv_refl)

lemma srv_adv_echo_log [srv_intros]: "srv_adv c w v \<Longrightarrow> srv_adv c w (echo_log l n s v)"
  by (erule srv_adv_cong) (simp_all add: echo_log_def split: option.split prod.split)

lemma srv_adv_set_idle [srv_intros]: "srv_adv c w v \<Longrightarrow> srv_adv c w (set_idle c k v)"
  unfolding set_idle_def by (erule srv_adv_on_conn) simp_all

lemma srv_adv_arm [srv_intros]:
  assumes "srv_adv c w v"
  shows "srv_adv c w (arm_idle_timer c v)"
proof (cases "cn_context (conns v c)")
  case None
  have "srv_adv c w (v\<lparr>null_context := True\<rparr>)" by (rule srv_adv_cong [OF assms]) simp_all
  then show ?thesis by (simp add: arm_idle_timer_def None)
next
  case (Some k)
  define w1 where "w1 = (if k \<noteq> 0 then set_idle c 0 (cancel_timer (loop_of c v) k v) else v)"
  have a: "srv_adv c w w1" using assms by (auto simp: w1_def intro: srv_intros)
  have "loop_of c v = loop_of c w1" using assms a by (simp add: srv_adv_def)
  then show ?thesis
    unfolding arm_idle_timer_def Some option.case Let_def w1_def [symmetric] split_beta
    by (simp add: srv_adv_set_idle srv_adv_run_after [OF a])
qed

lemma echo_ccb_io: "io_here c w \<Longrightarrow> srv_adv c w (echo_on_connection c w)"
  by (auto simp: echo_on_connection_def Let_def split: option.split intro!: srv_intros srv_adv_refl)

lemma echo_mcb_io: "io_here c w \<Longrightarrow> srv_adv c w (echo_on_message c w)"
  by (auto simp: echo_on_message_def Let_def split: prod.split intro!: srv_adv_arm srv_adv_send srv_adv_echo_log srv_adv_on_conn srv_adv_refl)

fun echo_task_conn :: "echo_task \<Rightarrow> nat" where
  "echo_task_conn (IdleKick c) = c"

lemma echo_app_io: "io_here (echo_task_conn a) w \<Longrightarrow> srv_adv (echo_task_conn a) w (run_echo_task a w)"
  by (cases a) (auto simp: idle_kick_def intro!: srv_adv_close srv_adv_echo_log srv_adv_refl)

interpretation echo_io: server_io echo_on_connection echo_on_message run_echo_task echo_task_conn
  by unfold_locales (rule echo_ccb_io echo_mcb_io echo_app_io, assumption)+

end
