(* ===== verification/Server_Histories.thy ===== *)
theory Server_Histories
  imports Server_Io
begin

text \<open>
  The server with a pool over all interleavings of its threads: the main thread accepts and runs the
  functors queued to the main loop one by one, each thread of the pool handles events, timers and
  functors of its connections. The table of the server belongs to the main thread, yet it has to follow what
  the threads of the pool do: a closed connection asks the main loop to erase it.
\<close>

section \<open>The threads of a server\<close>

text \<open>
  The state is the world together with the functors the main loop has swapped out and not yet run.
  A step is taken by the thread of a loop. The main thread accepts what the kernel has waiting, swaps,
  runs one functor, or ends its round. A thread of the pool handles an event of a connection or runs
  one of the functors and timer callbacks of its connections, at any time: this covers what its own
  queue and its timers make it do, and more. A closed connection that has left the table may be destroyed,
  when the last reference to it goes. The kernel gives a descriptor number only when no open
  socket has it.
\<close>

definition on_thread :: "nat \<Rightarrow> ('f, 'z) world_scheme \<Rightarrow> ('f, 'z) world_scheme" where
  "on_thread i w = w\<lparr>this_thread := owner_tid (loops w i)\<rparr>"

definition open_fds :: "('a, 'x, 'z) server_world_scheme \<Rightarrow> int set" where
  "open_fds w = (\<lambda>c. cn_fd (conns w c)) ` set (filter (\<lambda>c. is_open c w) [0..<next_cid w])"

fun fds_free :: "int set \<Rightarrow> accept_result list \<Rightarrow> bool" where
  "fds_free used [] \<longleftrightarrow> True"
| "fds_free used (Accepted fd peer nonblocking rs ws # as) \<longleftrightarrow> fd \<notin> used \<and> fds_free (if nonblocking then insert fd used else used) as"
| "fds_free used (_ # as) \<longleftrightarrow> fds_free used as"

text \<open>The connection a functor or timer callback of a loop of the pool is for.\<close>

fun task_conn :: "('a \<Rightarrow> nat) \<Rightarrow> 'a server_task conn_task \<Rightarrow> nat option" where
  "task_conn app_conn (ShutdownInLoop c) = Some c"
| "task_conn app_conn (HighWater c) = Some c"
| "task_conn app_conn (WriteComplete c) = Some c"
| "task_conn app_conn (ForceClose c) = Some c"
| "task_conn app_conn (App (StartConn c)) = Some c"
| "task_conn app_conn (App (NotifyClosed c)) = Some c"
| "task_conn app_conn (App (CloseConn c)) = Some c"
| "task_conn app_conn (App (SrvApp a)) = Some (app_conn a)"
| "task_conn app_conn (App (RemoveConn c)) = None"

abbreviation server_run :: "(nat \<Rightarrow> ('a, 'x, 'z) server_world_scheme \<Rightarrow> ('a, 'x, 'z) server_world_scheme)
    \<Rightarrow> (nat \<Rightarrow> ('a, 'x, 'z) server_world_scheme \<Rightarrow> ('a, 'x, 'z) server_world_scheme)
    \<Rightarrow> ('a \<Rightarrow> ('a, 'x, 'z) server_world_scheme \<Rightarrow> ('a, 'x, 'z) server_world_scheme)
    \<Rightarrow> 'a server_task conn_task \<Rightarrow> ('a, 'x, 'z) server_world_scheme \<Rightarrow> ('a, 'x, 'z) server_world_scheme" where
  "server_run ccb mcb app \<equiv> run_conn_task (server_cbs mcb ccb) (run_server_task ccb app)"

inductive srv_step :: "(nat \<Rightarrow> ('a, 'x, 'z) server_world_scheme \<Rightarrow> ('a, 'x, 'z) server_world_scheme)
    \<Rightarrow> (nat \<Rightarrow> ('a, 'x, 'z) server_world_scheme \<Rightarrow> ('a, 'x, 'z) server_world_scheme)
    \<Rightarrow> ('a \<Rightarrow> ('a, 'x, 'z) server_world_scheme \<Rightarrow> ('a, 'x, 'z) server_world_scheme) \<Rightarrow> ('a \<Rightarrow> nat)
    \<Rightarrow> 'a server_task conn_task task list \<times> ('a, 'x, 'z) server_world_scheme
    \<Rightarrow> 'a server_task conn_task task list \<times> ('a, 'x, 'z) server_world_scheme \<Rightarrow> bool"
  for ccb mcb app app_conn where
  Accept: "fds_free (open_fds w) as
    \<Longrightarrow> srv_step ccb mcb app app_conn ([], w) ([], handle_accept ccb ((on_thread main_loop w)\<lparr>accept_script := as\<rparr>))"
| Swap: "swap_functors (loops w main_loop) = (fs, l)
    \<Longrightarrow> srv_step ccb mcb app app_conn ([], w) (fs, on_loop main_loop (\<lambda>_. l) (on_thread main_loop w))"
| Functor: "srv_step ccb mcb app app_conn (f # fs, w) (fs, run_task (server_run ccb mcb app) main_loop f (on_thread main_loop w))"
| Round: "srv_step ccb mcb app app_conn ([], w) ([], on_loop main_loop end_functors (on_thread main_loop w))"
| Event: "c < next_cid w
    \<Longrightarrow> srv_step ccb mcb app app_conn (fs, w) (fs, conn_event (server_cbs mcb ccb) c revents (on_thread (loop_of c w) w))"
| Conn_task: "c < next_cid w \<Longrightarrow> task_conn app_conn u = Some c
    \<Longrightarrow> srv_step ccb mcb app app_conn (fs, w) (fs, server_run ccb mcb app u (on_thread (loop_of c w) w))"
| Pool_swap: "i \<noteq> main_loop \<Longrightarrow> srv_step ccb mcb app app_conn (fs, w) (fs, on_loop i (\<lambda>l. snd (swap_functors l)) (on_thread i w))"
| Pool_round: "i \<noteq> main_loop \<Longrightarrow> srv_step ccb mcb app app_conn (fs, w) (fs, on_loop i end_functors (on_thread i w))"
| Woken: "srv_step ccb mcb app app_conn (fs, w) (fs, on_loop i handle_wakeup (on_thread i w))"
| Timers: "srv_step ccb mcb app app_conn (fs, w) (fs, on_loop i (\<lambda>l. l\<lparr>timer_queue := q\<rparr>) (on_thread i w))"
| Time: "steady_now w \<le> t \<Longrightarrow> srv_step ccb mcb app app_conn (fs, w) (fs, w\<lparr>steady_now := t\<rparr>)"
| Destroy: "c < next_cid w \<Longrightarrow> \<not> is_open c w \<Longrightarrow> connections w (cn_fd (conns w c)) \<noteq> Some c
    \<Longrightarrow> srv_step ccb mcb app app_conn (fs, w) (fs, conn_destroy c w)"
| Kernel: "srv_step ccb mcb app app_conn (fs, w) (fs, on_conn c (\<lambda>cn. cn\<lparr>sk := (sk cn)\<lparr>rd_script := rs, wr_script := ws\<rparr>\<rparr>) w)"

section \<open>The invariant\<close>

definition pool_apart :: "('a, 'x, 'z) server_world_scheme \<Rightarrow> bool" where
  "pool_apart w \<longleftrightarrow> srv_has_connection_cb w \<and> pool_next (thread_pool w) < length (pool_loops (thread_pool w))
     \<and> (\<forall>i\<in>set (pool_loops (thread_pool w)). i \<noteq> main_loop \<and> owner_tid (loops w i) \<noteq> owner_tid (loops w main_loop))
     \<and> (\<forall>c<next_cid w. loop_of c w \<in> set (pool_loops (thread_pool w)) \<and> has_close_cb (conns w c))"

text \<open>The table, when the connections \<open>ds\<close> wait for being erased.\<close>

definition table_ok :: "nat list \<Rightarrow> ('a, 'x, 'z) server_world_scheme \<Rightarrow> bool" where
  "table_ok ds w \<longleftrightarrow> distinct ds \<and> (\<forall>d\<in>set ds. d < next_cid w \<and> \<not> is_open d w)
     \<and> (\<forall>fd c. connections w fd = Some c \<longrightarrow> c < next_cid w \<and> cn_fd (conns w c) = fd \<and> (is_open c w \<or> c \<in> set ds))
     \<and> (\<forall>c<next_cid w. is_open c w \<longrightarrow> connections w (cn_fd (conns w c)) = Some c)"

abbreviation erasures :: "nat list \<Rightarrow> 'a server_task conn_task task list" where
  "erasures ds \<equiv> map (\<lambda>c. Task (App (RemoveConn c))) ds"

definition srv_inv :: "'a server_task conn_task task list \<times> ('a, 'x, 'z) server_world_scheme \<Rightarrow> bool" where
  "srv_inv s \<longleftrightarrow> pool_apart (snd s)
     \<and> (\<exists>ds. fst s @ pending_functors (loops (snd s) main_loop) = erasures ds \<and> table_ok ds (snd s))"

definition srv_init :: "'a server_task conn_task task list \<times> ('a, 'x, 'z) server_world_scheme \<Rightarrow> bool" where
  "srv_init s \<longleftrightarrow> fst s = [] \<and> next_cid (snd s) = 0 \<and> connections (snd s) = Map.empty
     \<and> pending_functors (loops (snd s) main_loop) = [] \<and> pool_apart (snd s)"

lemma srv_init_inv: "srv_init s \<Longrightarrow> srv_inv s"
  by (auto simp: srv_init_def srv_inv_def table_ok_def intro!: exI [of _ "[]"])

text \<open>Steps the table does not notice.\<close>

lemma srv_inv_frame:
  assumes "srv_inv (fs, w)" "\<And>c. cn_fd (conns v c) = cn_fd (conns w c) \<and> loop_of c v = loop_of c w
      \<and> has_close_cb (conns v c) = has_close_cb (conns w c) \<and> cn_state (conns v c) = cn_state (conns w c)"
    "connections v = connections w" "next_cid v = next_cid w" "thread_pool v = thread_pool w" "srv_has_connection_cb v = srv_has_connection_cb w"
    "\<And>i. owner_tid (loops v i) = owner_tid (loops w i)"
    "gs @ pending_functors (loops v main_loop) = fs @ pending_functors (loops w main_loop)"
  shows "srv_inv (gs, v)"
  using assms by (simp add: srv_inv_def pool_apart_def table_ok_def is_open_def)

lemma on_thread_simps [simp]:
  "loops (on_thread i w) = loops w" "this_thread (on_thread i w) = owner_tid (loops w i)" "steady_now (on_thread i w) = steady_now w"
  by (simp_all add: on_thread_def)

lemma on_thread_world [simp]: "conns (on_thread i w) = conns w" "is_open c (on_thread i w) = is_open c w"
  by (simp_all add: on_thread_def is_open_def)

lemma on_thread_server [simp]:
  "connections (on_thread i w) = connections w" "next_cid (on_thread i w) = next_cid w" "thread_pool (on_thread i w) = thread_pool w"
  "srv_has_connection_cb (on_thread i w) = srv_has_connection_cb w"
  by (simp_all add: on_thread_def)

lemma server_frame [simp]:
  "next_cid (on_loop i f w) = next_cid w" "thread_pool (on_loop i f w) = thread_pool w"
  "next_cid (on_conn c g w) = next_cid w" "thread_pool (on_conn c g w) = thread_pool w"
  "srv_has_connection_cb (on_loop i f w) = srv_has_connection_cb w" "srv_has_connection_cb (on_conn c g w) = srv_has_connection_cb w"
  by (simp_all add: on_loop_def on_conn_def)

lemma srv_inv_here: "srv_inv (fs, w) \<Longrightarrow> c < next_cid w \<Longrightarrow> io_here c (on_thread (loop_of c w) w)"
  by (auto simp: srv_inv_def pool_apart_def io_here_def)

lemma srv_inv_adv:
  assumes "srv_inv (fs, w)" "c < next_cid w" "srv_adv c (on_thread i w) v"
  shows "srv_inv (fs, v)"
proof -
  obtain ds where ds: "fs @ pending_functors (loops w main_loop) = erasures ds" "table_ok ds w" and p: "pool_apart w"
    using assms(1) by (auto simp: srv_inv_def)
  have same: "connections v = connections w" "next_cid v = next_cid w" "thread_pool v = thread_pool w"
    "\<And>i. owner_tid (loops v i) = owner_tid (loops w i)"
    "\<And>d. cn_fd (conns v d) = cn_fd (conns w d)" "\<And>d. loop_of d v = loop_of d w"
    "\<And>d. d \<noteq> c \<Longrightarrow> conns v d = conns w d" "has_close_cb (conns v c)" "is_open c v \<Longrightarrow> is_open c w"
    "srv_has_connection_cb v = srv_has_connection_cb w"
    using assms(3) by (auto simp: srv_adv_def io_here_def)
  have op: "d \<noteq> c \<Longrightarrow> is_open d v = is_open d w" for d using same(7) by (simp add: is_open_def)
  have op1: "is_open d v \<Longrightarrow> is_open d w" for d using op same(9) by (cases "d = c") simp_all
  define es where "es = ds @ (if is_open c w \<and> \<not> is_open c v then [c] else [])"
  have q: "fs @ pending_functors (loops v main_loop) = erasures es"
    using assms(3) ds(1) by (auto simp: srv_adv_def es_def simp flip: append_assoc)
  have "distinct es" "\<forall>d\<in>set es. d < next_cid w \<and> \<not> is_open d v"
    using ds(2) assms(2) op1 by (auto simp: table_ok_def es_def)
  moreover have "e < next_cid w \<and> cn_fd (conns w e) = fd \<and> (is_open e v \<or> e \<in> set es)" if "connections w fd = Some e" for fd e
  proof -
    have "e < next_cid w \<and> cn_fd (conns w e) = fd \<and> (is_open e w \<or> e \<in> set ds)" using ds(2) that by (simp add: table_ok_def)
    with op [of e] show ?thesis by (cases "e = c") (auto simp: es_def)
  qed
  moreover have "connections w (cn_fd (conns w e)) = Some e" if "e < next_cid w" "is_open e v" for e
    using ds(2) that(1) op1 [OF that(2)] by (simp add: table_ok_def)
  ultimately have t: "table_ok es v" unfolding table_ok_def same(1,2,5) by simp
  have "has_close_cb (conns v d)" if "has_close_cb (conns w d)" for d using that same(7,8) by (cases "d = c") simp_all
  then have "pool_apart v" using p unfolding pool_apart_def same(2-4,6,10) by simp
  with q t show ?thesis unfolding srv_inv_def fst_conv snd_conv by blast
qed

text \<open>One accepted client: its entry replaces that of a closed connection, if there is one.\<close>

lemma open_fds_in: "c < next_cid w \<Longrightarrow> is_open c w \<Longrightarrow> cn_fd (conns w c) \<in> open_fds w"
  by (simp add: open_fds_def)

lemma open_fds_cases: "fd \<in> open_fds w \<Longrightarrow> \<exists>c<next_cid w. is_open c w \<and> fd = cn_fd (conns w c)"
  by (auto simp: open_fds_def)

lemma accept_conn_inv:
  assumes "srv_inv (fs, w)" "this_thread w = owner_tid (loops w main_loop)" "fd \<notin> open_fds w"
    "v = accept_conn ccb fd peer rs ws w"
  shows "srv_inv (fs, v)" "this_thread v = owner_tid (loops v main_loop)" "open_fds v = insert fd (open_fds w)"
proof -
  obtain ds where ds: "fs @ pending_functors (loops w main_loop) = erasures ds" "table_ok ds w" and p: "pool_apart w"
    using assms(1) by (auto simp: srv_inv_def)
  let ?sub = "pool_loops (thread_pool w) ! pool_next (thread_pool w)" and ?c = "next_cid w"
  have ne: "pool_loops (thread_pool w) \<noteq> []" and sub: "?sub \<in> set (pool_loops (thread_pool w))"
    using p by (auto simp: pool_apart_def)
  have "owner_tid (loops w ?sub) \<noteq> this_thread w" and nm: "?sub \<noteq> main_loop" using p sub assms(2) by (auto simp: pool_apart_def)
  note a = accept_conn_remote [OF ne refl this(1) assms(4) refl]
  show "this_thread v = owner_tid (loops v main_loop)" using assms(2) a(4,7) by simp
  have cn: "conns v d = (if d = ?c then (new_connection ?sub fd peer rs ws)\<lparr>has_message_cb := srv_has_message_cb w, has_close_cb := True\<rparr>
      else conns w d)" for d by (simp add: a(1))
  have op: "is_open d v \<longleftrightarrow> d = ?c \<or> is_open d w" for d by (simp add: is_open_def cn new_connection_def)
  have fd: "cn_fd (conns v d) = (if d = ?c then fd else cn_fd (conns w d))" "loop_of d v = (if d = ?c then ?sub else loop_of d w)"
    for d by (simp_all add: cn new_connection_def)
  have "pending_functors (loops v main_loop) = pending_functors (loops w main_loop)" using a(8) [of main_loop] nm by simp
  moreover have "table_ok ds v"
    using ds(2) open_fds_in [of _ w] assms(3) unfolding table_ok_def a(2,3) op fd by (auto simp: less_Suc_eq)
  moreover have "srv_has_connection_cb v = srv_has_connection_cb w"
    using assms(2) sub p by (simp add: assms(4) accept_conn_def next_loop_def ne run_in_loop_def in_loop_thread_def pool_apart_def fd_open_def Let_def)
  then have "pool_apart v"
    using p sub nm ne unfolding pool_apart_def a(3,5,7) fd(2)
    by (auto simp: less_Suc_eq cn mod_less_divisor simp flip: length_greater_0_conv)
  ultimately show "srv_inv (fs, v)" using ds(1) by (auto simp: srv_inv_def)
  show "open_fds v = insert fd (open_fds w)"
    unfolding open_fds_def a(3) fd by (auto simp: op less_Suc_eq image_iff)
qed

lemma accept_loop_inv:
  "srv_inv (fs, w) \<Longrightarrow> this_thread w = owner_tid (loops w main_loop) \<Longrightarrow> fds_free (open_fds w) as
    \<Longrightarrow> srv_inv (fs, accept_loop ccb as w)"
proof (induction ccb as w rule: accept_loop.induct)
  case (3 ccb as w)
  show ?case unfolding accept_loop.simps by (rule srv_inv_frame [OF 3(1)]) simp_all
next
  case (4 ccb fd peer nb rs ws as w)
  then show ?case using accept_conn_inv [OF 4(2,3) _ refl, of fd] by (cases nb) auto
qed auto

lemma remove_connection_pool:
  assumes "pool_apart w" "c < next_cid w" "this_thread w = owner_tid (loops w main_loop)"
    "v = remove_connection_in_loop ccb c w"
  shows "connections v = (if connections w (cn_fd (conns w c)) = Some c then (connections w)(cn_fd (conns w c) := None) else connections w)"
    "conns v = conns w" "next_cid v = next_cid w" "thread_pool v = thread_pool w" "this_thread v = this_thread w"
    "owner_tid (loops v i) = owner_tid (loops w i)" "pending_functors (loops v main_loop) = pending_functors (loops w main_loop)"
    "srv_has_connection_cb v = srv_has_connection_cb w"
proof -
  have "loop_of c w \<noteq> main_loop" "owner_tid (loops w (loop_of c w)) \<noteq> this_thread w"
    using assms by (auto simp: pool_apart_def)
  with assms(3) show "connections v = (if connections w (cn_fd (conns w c)) = Some c then (connections w)(cn_fd (conns w c) := None) else connections w)"
    "conns v = conns w" "next_cid v = next_cid w" "thread_pool v = thread_pool w" "this_thread v = this_thread w"
    "owner_tid (loops v i) = owner_tid (loops w i)" "pending_functors (loops v main_loop) = pending_functors (loops w main_loop)"
    "srv_has_connection_cb v = srv_has_connection_cb w"
    unfolding assms(4) by (auto simp: remove_connection_in_loop_def in_loop_thread_def run_in_loop_def Let_def split: option.split)
qed

lemma remove_inv:
  assumes "srv_inv (Task (App (RemoveConn c)) # fs, w)" "this_thread w = owner_tid (loops w main_loop)"
  shows "srv_inv (fs, remove_connection_in_loop ccb c w)"
proof -
  obtain es where es: "fs @ pending_functors (loops w main_loop) = erasures es" "table_ok (c # es) w" and p: "pool_apart w"
    using assms(1) by (auto simp: srv_inv_def Cons_eq_map_conv)
  then have c: "c < next_cid w" "\<not> is_open c w" "c \<notin> set es" by (auto simp: table_ok_def)
  define v where "v = remove_connection_in_loop ccb c w"
  note r = remove_connection_pool [OF p c(1) assms(2) v_def]
  have v: "is_open d v = is_open d w" "cn_fd (conns v d) = cn_fd (conns w d)" for d by (simp_all add: is_open_def r(2))
  have entry: "e < next_cid w \<and> cn_fd (conns w e) = fd \<and> (is_open e w \<or> e \<in> set es)" if "connections v fd = Some e" for fd e
  proof -
    have e: "connections w fd = Some e" "fd = cn_fd (conns w c) \<Longrightarrow> e \<noteq> c" using that by (auto simp: r(1) split: if_splits)
    then have "e < next_cid w \<and> cn_fd (conns w e) = fd \<and> (is_open e w \<or> e \<in> set (c # es))"
      using es(2) unfolding table_ok_def by blast
    with e(2) show ?thesis by auto
  qed
  have "connections v (cn_fd (conns w d)) = Some d" if "d < next_cid w" "is_open d w" for d
  proof -
    have "connections w (cn_fd (conns w d)) = Some d" using es(2) that by (simp add: table_ok_def)
    then show ?thesis using that(2) c(2) by (auto simp: r(1))
  qed
  with es(2) entry have "table_ok es v" by (simp add: table_ok_def v r(3))
  moreover have "pool_apart v" using p unfolding pool_apart_def r .
  ultimately show ?thesis using es(1) r(7) unfolding v_def [symmetric] srv_inv_def fst_conv snd_conv by metis
qed

context server_io
begin

lemma conn_task_io:
  assumes "io_here c w" "task_conn app_conn u = Some c"
  shows "srv_adv c w (server_run ccb mcb app u w)"
proof -
  note r = srv_adv_refl [OF assms(1)]
  have cl: "close_cb (server_cbs mcb ccb) = server_close_cb ccb" by (simp add: server_cbs_def)
  show ?thesis
    using assms r srv_adv_shutdown_in_loop [OF r] srv_adv_close [OF r] start_conn_io [OF r] ccb_io [OF assms(1)] app_io
    by (induction app_conn u rule: task_conn.induct) (auto simp: server_cbs_def)
qed

lemma step_inv:
  assumes "srv_inv s" "srv_step ccb mcb app app_conn s t"
  shows "srv_inv t"
  using assms(2,1)
proof (induction rule: srv_step.cases)
  case (Accept w as)
  let ?v = "(on_thread main_loop w)\<lparr>accept_script := []\<rparr>"
  have "srv_inv ([], ?v)" using Accept(4)[unfolded Accept] by (rule srv_inv_frame) simp_all
  moreover have "open_fds ?v = open_fds w" by (simp add: open_fds_def is_open_def)
  ultimately show ?case using accept_loop_inv [of "[]" ?v as ccb] Accept by (simp add: handle_accept_def)
next
  case (Functor f fs w)
  have i: "srv_inv (f # fs, on_thread main_loop w)" using Functor(3)[unfolded Functor] by (rule srv_inv_frame) simp_all
  then obtain c where "f = Task (App (RemoveConn c))" by (auto simp: srv_inv_def Cons_eq_map_conv)
  with remove_inv [of c fs "on_thread main_loop w"] i Functor show ?case by simp
next
  case (Event c w fs revents)
  then show ?case using srv_inv_adv [of fs w c] event_io [OF srv_adv_refl [OF srv_inv_here, of fs w c]] by auto
next
  case (Conn_task c w u fs)
  then show ?case using srv_inv_adv [of fs w c] conn_task_io [OF srv_inv_here [of fs w c]] by auto
qed (auto elim!: srv_inv_frame simp: swap_functors_def end_functors_def handle_wakeup_def conn_destroy_def is_open_def on_loop_def on_conn_def split: if_splits)

end

section \<open>What follows\<close>

lemma table_when_empty:
  assumes "table_ok [] w"
  shows "connections w fd = Some c \<longleftrightarrow> c < next_cid w \<and> is_open c w \<and> cn_fd (conns w c) = fd"
  using assms by (auto simp: table_ok_def)

text \<open>One round of the main loop over its functors erases exactly the connections that have closed.\<close>

lemma erasures_run:
  assumes "srv_inv (fs, w)" "this_thread w = owner_tid (loops w main_loop)" "v = fold (run_task (server_run ccb mcb app) main_loop) fs w"
  shows "srv_inv ([], v) \<and> pending_functors (loops v main_loop) = pending_functors (loops w main_loop) \<and> conns v = conns w
    \<and> next_cid v = next_cid w"
  using assms
proof (induction fs arbitrary: w)
  case (Cons f fs)
  obtain c where f: "f = Task (App (RemoveConn c))" using Cons.prems(1) by (auto simp: srv_inv_def Cons_eq_map_conv)
  have p: "pool_apart w" "c < next_cid w" using Cons.prems(1) by (auto simp: srv_inv_def f Cons_eq_map_conv table_ok_def)
  note r = remove_connection_pool [OF p Cons.prems(2) refl, of ccb]
  show ?case
    using Cons.IH [OF remove_inv [OF Cons.prems(1) [unfolded f] Cons.prems(2)]] Cons.prems(2,3) by (simp add: f r)
qed simp

lemma round_empties:
  assumes "srv_inv ([], w)" "v = do_pending_functors (server_run ccb mcb app) main_loop (on_thread main_loop w)"
  shows "table_ok [] v" "conns v = conns w" "next_cid v = next_cid w"
proof -
  define l where "l = snd (swap_functors (loops w main_loop))"
  define w1 where "w1 = on_loop main_loop (\<lambda>_. l) (on_thread main_loop w)"
  let ?fs = "pending_functors (loops w main_loop)"
  have l: "owner_tid l = owner_tid (loops w main_loop)" "pending_functors l = []" by (simp_all add: l_def swap_functors_def)
  have i: "srv_inv (?fs, w1)" by (rule srv_inv_frame [OF assms(1)]) (simp_all add: w1_def l on_loop_def)
  define w2 where "w2 = fold (run_task (server_run ccb mcb app) main_loop) ?fs w1"
  have "srv_inv ([], w2) \<and> pending_functors (loops w2 main_loop) = [] \<and> conns w2 = conns w \<and> next_cid w2 = next_cid w"
    using erasures_run [OF i _ w2_def] l by (simp add: w1_def)
  moreover have "v = on_loop main_loop end_functors w2"
    by (simp add: assms(2) do_pending_functors_def w2_def w1_def l_def swap_functors_def)
  ultimately show "table_ok [] v" "conns v = conns w" "next_cid v = next_cid w"
    by (auto simp: srv_inv_def table_ok_def is_open_def)
qed

text \<open>
  The same round tells each loop of the pool of the connections that have closed, in the order in which they
  closed, except for those whose descriptor has been given to another connection.
\<close>

abbreviation told :: "nat \<Rightarrow> ('a, 'x, 'z) server_world_scheme \<Rightarrow> nat \<Rightarrow> bool" where
  "told i w c \<equiv> loop_of c w = i \<and> connections w (cn_fd (conns w c)) = Some c"

lemma remove_connection_tells:
  assumes "pool_apart w" "c < next_cid w" "this_thread w = owner_tid (loops w main_loop)" "v = remove_connection_in_loop ccb c w"
  shows "pending_functors (loops v i) = pending_functors (loops w i) @ (if told i w c then [Task (App (NotifyClosed c))] else [])"
    "wakeup_cnt (loops w i) \<le> wakeup_cnt (loops v i)" "told i w c \<Longrightarrow> wakeup_cnt (loops v i) > 0"
proof -
  have "loop_of c w \<noteq> main_loop" and o: "owner_tid (loops w (loop_of c w)) \<noteq> this_thread w" using assms by (auto simp: pool_apart_def)
  let ?w1 = "w\<lparr>connections := (connections w)(cn_fd (conns w c) := None)\<rparr>"
  have v: "v = (if connections w (cn_fd (conns w c)) = Some c
      then on_loop (loop_of c w) (queue_in_loop (this_thread w) (Task (App (NotifyClosed c)))) ?w1 else w)"
    using o assms(1,3) unfolding assms(4)
    by (auto simp: pool_apart_def remove_connection_in_loop_def in_loop_thread_def run_in_loop_def Let_def split: option.split)
  show "pending_functors (loops v i) = pending_functors (loops w i) @ (if told i w c then [Task (App (NotifyClosed c))] else [])"
    by (simp add: v)
  show "wakeup_cnt (loops w i) \<le> wakeup_cnt (loops v i)" by (simp add: v queue_in_loop_def push_functor_def wakeup_def Let_def)
  show "told i w c \<Longrightarrow> wakeup_cnt (loops v i) > 0" using o by (auto simp: v queue_in_loop_wakes)
qed

lemma erasures_tell:
  assumes "srv_inv (erasures ds, w)" "this_thread w = owner_tid (loops w main_loop)"
    "v = fold (run_task (server_run ccb mcb app) main_loop) (erasures ds) w"
  shows "pending_functors (loops v i) = pending_functors (loops w i) @ map (\<lambda>c. Task (App (NotifyClosed c))) (filter (told i w) ds)
    \<and> wakeup_cnt (loops w i) \<le> wakeup_cnt (loops v i) \<and> (filter (told i w) ds \<noteq> [] \<longrightarrow> wakeup_cnt (loops v i) > 0)"
  using assms
proof (induction ds arbitrary: w)
  case (Cons c ds)
  have p: "pool_apart w" "c < next_cid w" "c \<notin> set ds"
    using Cons.prems(1) by (auto simp: srv_inv_def Cons_eq_map_conv table_ok_def append_eq_map_conv inj_on_def dest!: map_injective)
  define w1 where "w1 = remove_connection_in_loop ccb c w"
  note r = remove_connection_pool [OF p(1,2) Cons.prems(2) w1_def] and t = remove_connection_tells [OF p(1,2) Cons.prems(2) w1_def]
  have f: "filter (told i w1) ds = filter (told i w) ds"
    using p(3) by (intro filter_cong) (auto simp: r(1,2))
  have v: "v = fold (run_task (server_run ccb mcb app) main_loop) (erasures ds) w1" using Cons.prems(3) by (simp add: w1_def)
  have inv: "srv_inv (erasures ds, w1)" unfolding w1_def using Cons.prems(1,2) by (intro remove_inv) simp_all
  have "this_thread w1 = owner_tid (loops w1 main_loop)" using Cons.prems(2) by (simp add: r(5,6))
  note ih = Cons.IH [OF inv this v, unfolded f]
  show ?case using ih t(1-3) [of i] by (cases "told i w c") (auto intro: order.trans order.strict_trans2)
qed simp

lemma round_tells:
  assumes "srv_inv ([], w)" "pending_functors (loops w main_loop) = erasures ds" "i \<noteq> main_loop"
    "v = do_pending_functors (server_run ccb mcb app) main_loop (on_thread main_loop w)"
  shows "pending_functors (loops v i) = pending_functors (loops w i) @ map (\<lambda>c. Task (App (NotifyClosed c))) (filter (told i w) ds)
    \<and> (filter (told i w) ds \<noteq> [] \<longrightarrow> wakeup_cnt (loops v i) > 0)"
proof -
  define l where "l = snd (swap_functors (loops w main_loop))"
  define w1 where "w1 = on_loop main_loop (\<lambda>_. l) (on_thread main_loop w)"
  have l: "owner_tid l = owner_tid (loops w main_loop)" "pending_functors l = []" by (simp_all add: l_def swap_functors_def)
  have inv: "srv_inv (erasures ds, w1)" by (rule srv_inv_frame [OF assms(1)]) (simp_all add: w1_def l on_loop_def assms(2))
  have w1: "this_thread w1 = owner_tid (loops w1 main_loop)" "told i w1 = told i w"
    "loops w1 i = loops w i" using assms(3) l by (simp_all add: w1_def on_loop_def on_thread_def fun_eq_iff)
  have v: "v = on_loop main_loop end_functors (fold (run_task (server_run ccb mcb app) main_loop) (erasures ds) w1)"
    by (simp add: assms(2,4) do_pending_functors_def w1_def l_def swap_functors_def)
  show ?thesis using erasures_tell [where ccb = ccb and mcb = mcb and app = app and i = i, OF inv w1(1) refl] assms(3) unfolding w1(2,3) by (simp add: v)
qed

lemma srv_inv_table:
  assumes "srv_inv (fs, w)"
  shows "(\<forall>fd c. connections w fd = Some c \<longrightarrow> c < next_cid w \<and> cn_fd (conns w c) = fd
             \<and> (is_open c w \<or> Task (App (RemoveConn c)) \<in> set (fs @ pending_functors (loops w main_loop))))
     \<and> (\<forall>c<next_cid w. is_open c w \<longrightarrow> connections w (cn_fd (conns w c)) = Some c)
     \<and> distinct (fs @ pending_functors (loops w main_loop))
     \<and> (fs = [] \<longrightarrow> (\<forall>fd c. connections (do_pending_functors (server_run ccb mcb app) main_loop (on_thread main_loop w)) fd = Some c
            \<longleftrightarrow> c < next_cid w \<and> is_open c w \<and> cn_fd (conns w c) = fd))"
proof -
  obtain ds where ds: "fs @ pending_functors (loops w main_loop) = erasures ds" "table_ok ds w" using assms by (auto simp: srv_inv_def)
  have "distinct (erasures ds)" using ds(2) by (simp add: table_ok_def distinct_map inj_on_def)
  moreover have "connections (do_pending_functors (server_run ccb mcb app) main_loop (on_thread main_loop w)) fd = Some c
      \<longleftrightarrow> c < next_cid w \<and> is_open c w \<and> cn_fd (conns w c) = fd" if "fs = []" for fd c
    using table_when_empty [OF round_empties(1) [OF assms [unfolded that] refl]] round_empties(2,3) [OF assms [unfolded that] refl]
    by (simp add: is_open_def)
  ultimately show ?thesis using ds(2) unfolding ds(1) by (simp add: table_ok_def) blast
qed

sublocale server_io \<subseteq> srv: invariant_system srv_init "srv_step ccb mcb app app_conn" srv_inv
  by unfold_locales (simp add: srv_init_inv, rule step_inv)

text \<open>A server that has just been started with IO threads is in an initial state.\<close>

lemma boot_init:
  assumes "new_tcp_server port n a w = Inr v" "n > 0" "in_loop_thread main_loop w" "next_cid w = 0"
    "pending_functors (loops w main_loop) = []" "\<forall>i>0. owner_tid (mk i) \<noteq> this_thread w"
  shows "srv_init ([], start_pool mk (v\<lparr>srv_has_connection_cb := True, srv_has_message_cb := y\<rparr>))"
proof -
  obtain s where s: "create_listen_socket port a = Inr s" using assms(1) by (auto simp: new_tcp_server_def split: sum.splits)
  define w1 where "w1 = on_loop main_loop (fd_open (ls_fd s)) (w\<lparr>thread_pool := new_pool n, connections := Map.empty,
      srv_has_message_cb := False, srv_has_connection_cb := False\<rparr>)"
  obtain ch l where l: "enable_reading (this_thread w1) (new_channel (ls_fd s)) (loops w1 main_loop) = (ch, l)" by fastforce
  have v: "v = (on_loop main_loop (\<lambda>_. l) w1)\<lparr>accept_channel := ch\<rparr>"
    using assms(1) by (simp add: new_tcp_server_def s server_listen_def l flip: w1_def)
  have o1: "owner_tid (loops w1 main_loop) = this_thread w1" "pending_functors (loops w1 main_loop) = []" "this_thread w1 = this_thread w"
    using assms(3,5) by (simp_all add: w1_def fd_open_def in_loop_thread_def)
  have "l = snd (update_channel (this_thread w1) ((new_channel (ls_fd s))\<lparr>ch_events := ch_events (new_channel (ls_fd s)) OR kReadEvent\<rparr>)
      (loops w1 main_loop))" using l by (simp add: enable_reading_def)
  then have o2: "owner_tid l = this_thread w" "pending_functors l = []" using o1 by simp_all
  show ?thesis
    using assms(2,4,6) o2
    by (auto simp: srv_init_def pool_apart_def start_pool_def v w1_def pool_start_def new_pool_def main_loop_def)
qed

section \<open>From the start of the programs\<close>

lemma echo_boot_init:
  assumes "echo_main_start log_loop a p = Inr p1" "in_loop_thread main_loop (io p)" "next_cid (io p) = 0"
    "pending_functors (loops (io p) main_loop) = []" "\<forall>i>0. owner_tid (mk i) \<noteq> this_thread (io p)"
  shows "srv_init ([], start_pool mk (io p1))"
proof -
  define q where "q = sd_queue (sd (sender_start (new_log_sender log_loop ''127.0.0.1:9099'' default_options (logger p))))"
  obtain v where v: "new_tcp_server kPort kIoThreads a (set_global (Some q) (io p)) = Inr v"
    "io p1 = v\<lparr>srv_has_connection_cb := True, srv_has_message_cb := True\<rparr>"
    using assms(1) by (auto simp: echo_main_start_def Let_def q_def split: sum.splits)
  show ?thesis
    unfolding v(2) using assms(2-5) by (intro boot_init [OF v(1)]) (simp_all add: kIoThreads_def set_global_def in_loop_thread_def)
qed

text \<open>
  C20. The table of the echo server, over all histories of its five threads. From the moment \<open>main\<close> has
  constructed the server and \<open>run\<close> has started the IO threads, and whatever the threads and the kernel do in
  whatever order: every entry of the table is a connection under its own descriptor that is open, or whose
  erasure the main loop has been asked for; every open connection is in the table; no erasure is asked for
  twice. When the main loop next runs its functors, the table is exactly the open connections. In
  particular a descriptor number that the kernel has given out again never makes the server drop the new
  connection or keep the old one.
\<close>

theorem server_table_history:
  assumes "echo_main_start log_loop a p = Inr p1" "in_loop_thread main_loop (io p)" "next_cid (io p) = 0"
    "pending_functors (loops (io p) main_loop) = []" "\<forall>i>0. owner_tid (mk i) \<noteq> this_thread (io p)"
    "(srv_step echo_on_connection echo_on_message run_echo_task echo_task_conn)\<^sup>*\<^sup>* ([], start_pool mk (io p1)) (fs, w)"
  shows "(\<forall>fd c. connections w fd = Some c \<longrightarrow> c < next_cid w \<and> cn_fd (conns w c) = fd
             \<and> (is_open c w \<or> Task (App (RemoveConn c)) \<in> set (fs @ pending_functors (loops w main_loop))))
     \<and> (\<forall>c<next_cid w. is_open c w \<longrightarrow> connections w (cn_fd (conns w c)) = Some c)
     \<and> distinct (fs @ pending_functors (loops w main_loop))
     \<and> (fs = [] \<longrightarrow> (\<forall>fd c. connections (do_pending_functors (server_run echo_on_connection echo_on_message run_echo_task) main_loop
              (on_thread main_loop w)) fd = Some c \<longleftrightarrow> c < next_cid w \<and> is_open c w \<and> cn_fd (conns w c) = fd))"
  by (rule srv_inv_table [OF echo_io.srv.steps_inv [OF assms(6) srv_init_inv [OF echo_boot_init [OF assms(1-5)]]]])

text \<open>
  C21. What the application hears of closed connections. In every state the threads of the echo server can
  reach, the functors waiting in the main loop are requests to erase distinct, closed connections. When the
  main loop runs them, each loop of the pool is handed the disconnection callbacks of exactly those of its
  connections among them that are still in the table under their descriptor, in the order in which they closed
  and once each, behind everything it had queued, and is woken up if there are any. A connection
  whose descriptor has been given out again is left out: it gets no callback.
\<close>

theorem closes_announced:
  assumes "echo_main_start log_loop a p = Inr p1" "in_loop_thread main_loop (io p)" "next_cid (io p) = 0"
    "pending_functors (loops (io p) main_loop) = []" "\<forall>i>0. owner_tid (mk i) \<noteq> this_thread (io p)"
    "(srv_step echo_on_connection echo_on_message run_echo_task echo_task_conn)\<^sup>*\<^sup>* ([], start_pool mk (io p1)) ([], w)"
    "w' = do_pending_functors (server_run echo_on_connection echo_on_message run_echo_task) main_loop (on_thread main_loop w)"
  shows "\<exists>ds. pending_functors (loops w main_loop) = map (\<lambda>c. Task (App (RemoveConn c))) ds \<and> distinct ds
    \<and> (\<forall>c\<in>set ds. \<not> is_open c w \<and> loop_of c w \<noteq> main_loop)
    \<and> (\<forall>i. i \<noteq> main_loop \<longrightarrow> pending_functors (loops w' i) = pending_functors (loops w i)
          @ map (\<lambda>c. Task (App (NotifyClosed c))) (filter (\<lambda>c. loop_of c w = i \<and> connections w (cn_fd (conns w c)) = Some c) ds))
    \<and> (\<forall>c\<in>set ds. connections w (cn_fd (conns w c)) = Some c \<longrightarrow> wakeup_cnt (loops w' (loop_of c w)) > 0)"
proof -
  have inv: "srv_inv ([], w)" by (rule echo_io.srv.steps_inv [OF assms(6) srv_init_inv [OF echo_boot_init [OF assms(1-5)]]])
  then obtain ds where ds: "pending_functors (loops w main_loop) = erasures ds" "table_ok ds w" and p: "pool_apart w"
    by (auto simp: srv_inv_def)
  note t = round_tells [OF inv ds(1) _ assms(7)]
  have c: "\<not> is_open c w \<and> loop_of c w \<noteq> main_loop" if "c \<in> set ds" for c
    using ds(2) p that by (auto simp: table_ok_def pool_apart_def)
  moreover have "wakeup_cnt (loops w' (loop_of c w)) > 0" if "c \<in> set ds" "connections w (cn_fd (conns w c)) = Some c" for c
    using t [of "loop_of c w"] that c [OF that(1)] by (auto simp: filter_empty_conv)
  moreover have "distinct ds" using ds(2) by (simp add: table_ok_def)
  ultimately show ?thesis using ds(1) t by blast
qed

text \<open>The same for the HTTP server, whatever its callback does with a request.\<close>

theorem http_table_history:
  assumes "http_demo_main args a w0 = Inr v" "in_loop_thread main_loop w0" "next_cid w0 = 0"
    "pending_functors (loops w0 main_loop) = []" "\<forall>i>0. owner_tid (mk i) \<noteq> this_thread w0"
    "(srv_step http_on_connection (http_on_message http_cb) (\<lambda>_ w. w) (\<lambda>_. 0))\<^sup>*\<^sup>* ([], start_pool mk v) (fs, w)"
  shows "srv_inv (fs, w)"
proof -
  obtain u where u: "new_tcp_server (http_demo_port args) 2 a w0 = Inr u" "v = u\<lparr>srv_has_connection_cb := True, srv_has_message_cb := True\<rparr>"
    using assms(1) by (cases "new_tcp_server (http_demo_port args) 2 a w0") (auto simp: http_demo_main_def new_http_server_def)
  have "srv_init ([], start_pool mk v)"
    unfolding u(2) using assms(2-5) by (intro boot_init [OF u(1)]) simp_all
  then show ?thesis by (rule http_io.srv.steps_inv [OF assms(6) srv_init_inv])
qed

text \<open>
  The table survives the reuse of a descriptor, the application does not hear of it: if the number of a
  closed connection is given to the next client before its erasure runs, the erasure returns early, and
  the connection callback is not called (nor queued) for the connection that was closed.
\<close>

theorem stale_close_not_notified:
  assumes "srv_inv ([], w)" "c < next_cid w" "cn_fd (conns w c) \<notin> open_fds w"
    "w1 = handle_accept ccb ((on_thread main_loop w)\<lparr>accept_script := [Accepted (cn_fd (conns w c)) peer True rs ws]\<rparr>)"
  shows "remove_connection_in_loop ccb c w1 = w1 \<and> connections w1 (cn_fd (conns w c)) = Some (next_cid w)"
proof -
  let ?v = "(on_thread main_loop w)\<lparr>accept_script := []\<rparr>" and ?fd = "cn_fd (conns w c)"
  have r: "pool_ready ?v" using assms(1) by (simp add: srv_inv_def pool_apart_def pool_ready_def)
  have w1: "w1 = accept_conn ccb ?fd peer rs ws ?v" by (simp add: assms(4) handle_accept_def)
  note a = accept_conn_ready [OF r w1]
  have "srv_inv ([], ?v)" by (rule srv_inv_frame [OF assms(1)]) simp_all
  moreover have "open_fds ?v = open_fds w" by (simp add: open_fds_def is_open_def)
  ultimately have "in_loop_thread main_loop w1"
    using accept_conn_inv(2) [OF _ _ _ w1, of "[]"] assms(3) by (simp add: in_loop_thread_def)
  moreover have "connections w1 ?fd = Some (next_cid w)" "cn_fd (conns w1 c) = ?fd"
    using a(5,6) assms(2) by simp_all
  ultimately show ?thesis using assms(2) by (simp add: remove_connection_in_loop_def)
qed

text \<open>A process before \<open>main\<close> has done anything; thread \<open>i\<close> runs loop \<open>i\<close>.\<close>

definition sample_process :: "unit program" where
  "sample_process = \<lparr>io = \<lparr>loops = (\<lambda>i. new_event_loop i 5 6 []), this_thread = 0, steady_now = 100,
     conns = (\<lambda>_. new_connection 0 0 [] [] []), connections = Map.empty, thread_pool = new_pool 0, next_cid = 0, accept_script = [],
     accept_channel = new_channel 4, srv_has_message_cb = False, srv_has_connection_cb = False, global_log = None, log_wakes = 0,
     null_context = False\<rparr>, logger = fresh_sender []\<rparr>"

definition sample_booted :: "unit program" where
  "sample_booted = projr (echo_main_start 9 good_answers sample_process)"

definition sample_running :: echo_world where
  "sample_running = start_pool (\<lambda>i. new_event_loop i 5 6 []) (io sample_booted)"

text \<open>A client is accepted on descriptor 7; then its connection is closed.\<close>

definition sample_served :: echo_world where
  "sample_served = handle_accept echo_on_connection ((on_thread main_loop sample_running)\<lparr>accept_script := [Accepted 7 ''a'' True [] []]\<rparr>)"

definition sample_closed :: echo_world where
  "sample_closed = conn_close (server_close_cb echo_on_connection) 0 (on_thread 1 sample_served)"

lemma sample_boot:
  "echo_main_start 9 good_answers sample_process = Inr sample_booted" "in_loop_thread main_loop (io sample_process)"
  "next_cid (io sample_process) = 0" "pending_functors (loops (io sample_process) main_loop) = []"
  "\<forall>i>0. owner_tid (new_event_loop i 5 6 [] :: echo_task server_task conn_task task event_loop) \<noteq> this_thread (io sample_process)"
proof -
  show "echo_main_start 9 good_answers sample_process = Inr sample_booted"
    by (simp add: sample_booted_def echo_main_start_def new_tcp_server_def Let_def)
  show "in_loop_thread main_loop (io sample_process)" "next_cid (io sample_process) = 0"
    "pending_functors (loops (io sample_process) main_loop) = []"
    "\<forall>i>0. owner_tid (new_event_loop i 5 6 [] :: echo_task server_task conn_task task event_loop) \<noteq> this_thread (io sample_process)"
    by (simp_all add: sample_process_def in_loop_thread_def main_loop_def new_event_loop_def channel_ops update_channel_def epoll_add_def
        ctl_fault_def new_channel_def Let_def)
qed

abbreviation echo_srv_step :: "echo_task server_task conn_task task list \<times> echo_world \<Rightarrow> echo_task server_task conn_task task list \<times> echo_world \<Rightarrow> bool" where
  "echo_srv_step \<equiv> srv_step echo_on_connection echo_on_message run_echo_task echo_task_conn"

lemma sample_served_facts:
  "echo_srv_step\<^sup>*\<^sup>* ([], sample_running) ([], sample_served)" "next_cid sample_served = 1" "is_open 0 sample_served"
  "cn_fd (conns sample_served 0) = 7" "loop_of 0 sample_served = 1" "connections sample_served = [7 \<mapsto> 0]"
  "pending_functors (loops sample_served main_loop) = []"
proof -
  let ?w = "(on_thread main_loop sample_running)\<lparr>accept_script := []\<rparr>"
  have init: "srv_init ([], sample_running)" unfolding sample_running_def by (rule echo_boot_init [OF sample_boot])
  then have st: "next_cid sample_running = 0" "pool_ready ?w" "connections sample_running = Map.empty"
    "pending_functors (loops sample_running main_loop) = []"
    by (simp_all add: srv_init_def pool_apart_def pool_ready_def)
  have "thread_pool sample_running = pool_start (new_pool 4)"
    by (simp add: sample_running_def start_pool_def sample_booted_def echo_main_start_def new_tcp_server_def server_listen_def kIoThreads_def
        split_beta Let_def)
  then have sb: "served_by (thread_pool ?w) 0 = 1" by (simp add: served_by_def pool_start_def new_pool_def upt_rec)
  have a: "sample_served = accept_conn echo_on_connection 7 ''a'' [] [] ?w" by (simp add: sample_served_def handle_accept_def)
  note a = accept_conn_ready [OF st(2) a]
  show "next_cid sample_served = 1" "is_open 0 sample_served" "cn_fd (conns sample_served 0) = 7" "loop_of 0 sample_served = 1"
    "connections sample_served = [7 \<mapsto> 0]" "pending_functors (loops sample_served main_loop) = []"
    using sb st(4) by (simp_all add: a st(1-3) is_open_def new_connection_def main_loop_def)
  have "echo_srv_step ([], sample_running) ([], sample_served)"
    unfolding sample_served_def by (rule srv_step.Accept) (simp add: open_fds_def st)
  then show "echo_srv_step\<^sup>*\<^sup>* ([], sample_running) ([], sample_served)" by (rule r_into_rtranclp)
qed

theorem server_table_history_witness: "connections sample_served 7 = Some 0"
  using server_table_history [OF sample_boot sample_served_facts(1) [unfolded sample_running_def], THEN conjunct2, THEN conjunct1, rule_format, of 0]
    sample_served_facts(2-4) by simp

lemma sample_closed_facts:
  "echo_srv_step\<^sup>*\<^sup>* ([], sample_running) ([], sample_closed)" "cn_fd (conns sample_closed 0) = 7" "loop_of 0 sample_closed = 1"
  "connections sample_closed 7 = Some 0" "pending_functors (loops sample_closed main_loop) = [Task (App (RemoveConn 0))]"
proof -
  note f = sample_served_facts
  have "srv_inv ([], sample_served)"
    using echo_io.srv.steps_inv [OF f(1)] srv_init_inv [OF echo_boot_init [OF sample_boot]] by (simp add: sample_running_def)
  from srv_inv_here [OF this, of 0] have here: "io_here 0 (on_thread 1 sample_served)" using f(2,5) by simp
  note c = srv_adv_close [OF srv_adv_refl [OF here], of echo_on_connection] closed_after_close [OF here, of echo_on_connection]
  show "cn_fd (conns sample_closed 0) = 7" "loop_of 0 sample_closed = 1" "connections sample_closed 7 = Some 0"
    "pending_functors (loops sample_closed main_loop) = [Task (App (RemoveConn 0))]"
    using c f unfolding sample_closed_def [symmetric] by (simp_all add: srv_adv_def)
  have "echo_srv_step ([], sample_served) ([], sample_closed)"
    using srv_step.Conn_task [of 0 sample_served echo_task_conn "App (CloseConn 0)" echo_on_connection echo_on_message run_echo_task "[]"] f(2,5)
    by (simp add: sample_closed_def)
  with f(1) show "echo_srv_step\<^sup>*\<^sup>* ([], sample_running) ([], sample_closed)" by (rule rtranclp.rtrancl_into_rtrancl)
qed

theorem closes_announced_witness:
  "Task (App (NotifyClosed 0)) \<in> set (pending_functors (loops (do_pending_functors
     (server_run echo_on_connection echo_on_message run_echo_task) main_loop (on_thread main_loop sample_closed)) 1))"
proof -
  note f = sample_closed_facts
  obtain ds where ds: "pending_functors (loops sample_closed main_loop) = erasures ds"
    "pending_functors (loops (do_pending_functors (server_run echo_on_connection echo_on_message run_echo_task) main_loop (on_thread main_loop sample_closed)) 1)
      = pending_functors (loops sample_closed 1) @ map (\<lambda>c. Task (App (NotifyClosed c))) (filter (told 1 sample_closed) ds)"
    using closes_announced [OF sample_boot f(1) [unfolded sample_running_def] refl] by (auto simp: main_loop_def)
  have "ds = [0]" using ds(1) f(5) by (cases ds) auto
  with ds(2) f show ?thesis by simp
qed

end
