(* ===== verification/Spec2Isabelle.thy ===== *)
theory Spec2Isabelle
  imports Rpc_Codec Connection_Guarantees Event_Loop_Thread Log_Server Programs Quit_Signal
    Buffer_Histories Io_Loops Server_Histories
begin

text \<open>
  A verification library for the network framework under \<open>src\<close>: a reactor (event loops, timers,
  connections, server, client), codecs, an HTTP server, and a logging system of a sender inside the
  programs and a log server that writes files.

  \<^bold>\<open>The program and its parts.\<close> An \<open>EventLoop\<close> belongs to one thread. It waits in \<open>epoll_wait\<close>, calls the
  \<open>Channel\<close>s that are ready, then runs the functors other threads have queued; its \<open>TimerQueue\<close> is one more
  channel. A \<open>Connection\<close> is a socket on a loop with an input and an output \<open>Buffer\<close>. \<open>TcpServer\<close> accepts on
  the main loop and hands connections to the loops of an \<open>EventLoopThreadPool\<close>; \<open>TcpClient\<close> dials and retries.
  On top are \<open>HttpServer\<close>, the echo server, and the logging system: \<open>LOG_*\<close> pushes a line into the \<open>MPSCQueue\<close> of
  the \<open>LogSender\<close>, whose loop drains it, frames it with \<open>LengthPrefixedCodec\<close> and sends it to the log server,
  which splits the stream into lines and appends them to a rolling \<open>LogFile\<close>. \<open>RpcCodec\<close> encodes RPC messages
  for the same framing.

  \<^bold>\<open>Theories and sources.\<close>
  \<^item> \<open>Prelude\<close>, \<open>Text\<close>: types, lemmas on lists and words, transition systems; what is used of the string library.
  \<^item> \<open>Buffer\<close>, \<open>Buffer_Histories\<close>: \<open>util/buffer.h\<close>. The vector and its two cursors are a record. Any sequence of
    calls behaves like calls on a byte queue; the cursors and the size stay well formed.
  \<^item> \<open>Big_Endian\<close>, \<open>Length_Codec\<close>, \<open>Rpc_Codec\<close>: \<open>util/length_prefixed_codec.h\<close> and \<open>rpc/rpc_message.h\<close>. Round trips,
    independence of how the stream is cut, exact rejection, the wrap-around of the 32-bit length check.
  \<^item> \<open>Mpsc_Queue\<close>: \<open>util/mpsc_queue.h\<close>. The ring is a bounded FIFO; \<open>push\<close> is split at its critical section and
    its atomic operations, and no interleaving loses a wake-up.
  \<^item> \<open>Timer_Queue\<close>, \<open>Event_Loop\<close>, \<open>Loop_Histories\<close>, \<open>Quit_Signal\<close>: \<open>src/timer_queue\<close>, \<open>src/channel\<close>, \<open>src/event_loop\<close>.
    The loop is a record; a world is a function from loop numbers to loops with the calling thread and the
    clock. Lambdas handed to a loop are constructors of a task type. Functors are not lost under
    interleaving, timers fire once and not early, \<open>quit\<close> ends the loop, a signal may be lost.
  \<^item> \<open>Event_Loop_Thread\<close>: \<open>src/event_loop_thread\<close>, owner and thread as interleaved steps.
  \<^item> \<open>Connection\<close>, \<open>Connection_Props\<close>, \<open>Connection_Guarantees\<close>, \<open>Io_Loops\<close>: \<open>src/connection\<close>. Operations over the
    record of a connection and its socket; the invariant \<open>conn_ok\<close> and the relation \<open>conn_adv\<close> (the stream only
    grows) are kept by every operation and event; when the loops around \<open>read\<close> and \<open>write\<close> return.
  \<^item> \<open>Tcp_Server\<close>, \<open>Server_Setup\<close>: \<open>src/server\<close> and \<open>src/event_loop_thread_pool\<close>, with the listening socket, the
    constructor, \<open>run\<close>, the acceptor's callbacks and \<open>format_peer\<close>.
  \<^item> \<open>Tcp_Client\<close>, \<open>Tcp_Client_Props\<close>: \<open>src/tcp_client\<close>. The life cycle as an invariant over all histories, backoff,
    finality of \<open>disconnect\<close>.
  \<^item> \<open>Http_Message\<close>, \<open>Http_Message_Props\<close>, \<open>Http_Server\<close>: the files under \<open>http\<close>. Incremental parsing is the inverse
    of printing; answers in order; malformed input.
  \<^item> \<open>Log_File\<close>, \<open>Log_File_Props\<close>, \<open>Log_Stream\<close>, \<open>Log_Server\<close>: the files under \<open>log_server\<close>. The rolling file
    implements an append-only stream; the server writes one line per frame.
  \<^item> \<open>Log_Sender\<close>, \<open>Log_Sender_Props\<close>, \<open>Log_Sender_Runs\<close>, \<open>Log_Sender_Life\<close>, \<open>Log_Sender_Guarantees\<close>: the files under
    \<open>log_sender\<close>. One drain, runs of pushes and ticks, the invariant over all histories, liveness of draining,
    what stopping leaves behind.
  \<^item> \<open>Echo_Server\<close>, \<open>Programs\<close>: \<open>main.cpp\<close> and \<open>http/http_demo_main.cpp\<close>. Callbacks, idle timers, log lines, set-up and
    end of \<open>main\<close>; the logging macros push on the sender.
  \<^item> \<open>Server_Io\<close>, \<open>Server_Histories\<close>: the running server as interleaved steps of the main thread, the IO threads and
    the kernel. The connection table agrees with the connections in every history of the echo server and of the
    HTTP server, from the start of \<open>main\<close>, also when a descriptor number is reused; which disconnections are
    announced, where and in which order.
  \<^item> This theory composes them: from a \<open>LOG_*\<close> call, and from a message of a client, to the lines of the log.

  \<^bold>\<open>Interfaces.\<close> \<open>invariant_system\<close> (Prelude) is interpreted for each step relation. \<open>byte_stream\<close>, \<open>wire_field\<close>,
  \<open>message_codec\<close>, \<open>bounded_fifo\<close> and \<open>timer_service\<close> are the contracts of the data structures. \<open>conn_closer\<close> and
  \<open>conn_callbacks\<close> say what a connection asks of its callbacks; \<open>server_ccb\<close>, \<open>server_app\<close>, \<open>server_io\<close>, \<open>client_ccb\<close>, \<open>client_conn\<close>,
  \<open>client_app\<close> and \<open>client_user\<close> what a server and a client ask of an application. The HTTP server, the echo server,
  the log server and the log sender are their instances.

  \<^bold>\<open>The environment.\<close> What the kernel answers is data of the state: scripts of the results of \<open>read\<close>, \<open>write\<close>,
  \<open>accept\<close>, \<open>socket\<close> and \<open>connect\<close>, of failing \<open>epoll_ctl\<close> calls, of \<open>fopen\<close> and \<open>fwrite\<close>, and the clock. A used-up
  script of a socket answers \<open>EAGAIN\<close>. Every theorem is over all scripts. So the loops are total functions
  without fuel, with the length of the script as their measure; \<open>loop_run\<close> says by its flag whether the loop
  returned or waits. \<open>Io_Loops\<close> has the same loops as partial functions against a kernel that never stops
  answering, and shows exactly when they return and that they then agree with the total ones. Undefined
  behaviour is a flag of the state (a call through a null pointer, a system call on a closed descriptor, an
  invalidated iterator), and \<open>abort\<close> in \<open>assert_in_loop_thread\<close> sets \<open>loop_aborted\<close>; \<open>exit\<close> is a sum or an option.

  \<^bold>\<open>Not modelled.\<close> The test programs, Python scripts, build files and documents. Output on the terminal, which
  is not state. Installing signal handlers (their effect is in \<open>Quit_Signal\<close>) and ignoring \<open>SIGPIPE\<close>. The text
  \<open>vsnprintf\<close> makes is an argument of \<open>format_log\<close>. Deleted copy operations, forwarding functions of \<open>EventLoop\<close> to its
  timer queue, and accessors that return a member; with declarations and comments these are the lines of the
  headers that no definition stands for. In \<open>Server_Histories\<close> a handler is one step of its thread. Memory
  exhaustion, and weak memory: the atomics are sequentially consistent. Data races are not expressible; where a
  plain variable is shared, the interleavings are explicit.
\<close>

section \<open>From a logging call to the log file\<close>

text \<open>
  C1. The logging pipeline. Take any state a sender can reach in which it is connected and its queue has room.
  Lines are pushed and ticks drain them; the bytes of the stream arrive at the log server, cut into reads in
  any way. Then the log has gained exactly one line for each of the first lines pushed, in the order of the
  pushes, each with a time stamp, and all other lines are still in the queue of the sender: nothing is lost,
  repeated, reordered or altered on the way.
\<close>

theorem log_pipeline:
  assumes "reach sender_init sender_step (w, n)" "sd_connection (sd w) = Some c" "dropped (sd_queue (sd w)) = 0"
    "length (contents (sd_queue (sd w))) + length (pushed ops) \<le> qcap (sd_queue (sd w))" "w' = sender_run ops w" "is_open c w'"
    "\<forall>m\<in>set (contents (sd_queue (sd w)) @ pushed ops). valid_payload (2 ^ 20) m"
    "stream c w' = stream c w @ concat (map arriving rounds)" "\<forall>rs\<in>set rounds. plain_reads rs"
    "conn_ok d v" "is_open d v" "has_message_cb (conns v d)" "readable_view (input_buffer (conns v d)) = []" "one_day (store v)"
    "v' = fold (log_serve d) rounds v"
  shows "\<exists>ms ts. contents (sd_queue (sd w)) @ pushed ops = ms @ contents (sd_queue (sd w'))
    \<and> length ts = length ms \<and> set ts \<subseteq> insert (now_tm (store v)) (set (clock_script (store v)))
    \<and> day_log (store v') = day_log (store v) @ concat (map2 log_line ts ms) \<and> one_day (store v') \<and> is_open d v'"
proof -
  have i: "sender_inv n w" by (rule reach_sender_inv [OF assms(1)])
  have cn: "connection (cl w) = Some c" using assms(2) sender_invD(6) [OF i] by simp
  obtain ms where ms: "contents (sd_queue (sd w)) @ pushed ops = ms @ contents (sd_queue (sd w'))"
    "stream c w' = stream c w @ concat (map frame_encode ms)"
    using sender_run_stream [OF sender_inv_linked [OF i cn] sender_invD(3) [OF i] sender_inv_connected(1) [OF i cn] assms(3,4)] assms(5,6) by blast
  have inc: "incomplete (2 ^ 20) []" "incomplete (2 ^ 20) (readable_view (input_buffer (conns v d)))"
    by (simp_all add: incomplete_def assms(13))
  have "readable_view (input_buffer (conns v d)) @ concat (map arriving rounds) = concat (map frame_encode ms) @ []"
    using ms(2) assms(8,13) by simp
  moreover have "set ms \<subseteq> set (contents (sd_queue (sd w)) @ pushed ops)" using ms(1) by simp
  then have "\<forall>m\<in>set ms. valid_payload (2 ^ 20) m" using assms(7) by blast
  ultimately have "is_open d v'" "store v' = fold append_line ms (store v)"
    using log_serve_rounds [OF assms(10-12) inc(2) assms(9) _ _ inc(1) assms(15)] by blast+
  with ms(1) one_day_lines [OF assms(14) refl, of ms] show ?thesis by (auto simp: stamped_def)
qed

theorem log_pipeline_witness:
  "\<exists>ms v'. [''a'', ''b''] = ms @ contents (sd_queue (sd (sender_run [Inl ''a'', Inl ''b'', Inr ()] (linked_sender []))))
     \<and> v' = fold (log_serve 3) (map (\<lambda>b. [RBytes [b]]) (stream 0 (sender_run [Inl ''a'', Inl ''b'', Inr ()] (linked_sender [])))) sample_logsrv
     \<and> day_log (store v') = day_log (sample_log 20) @ concat (map (log_line sample_tm) ms)"
proof -
  let ?w = "linked_sender []" and ?ops = "[Inl ''a'', Inl ''b'', Inr ()]"
  let ?rs = "map (\<lambda>b. [RBytes [b]]) (stream 0 (sender_run ?ops ?w))"
  have T: "insert (now_tm (sample_log 20)) (set (clock_script (sample_log 20))) = {sample_tm}" by (simp add: sample_log_def)
  have c: "sd_connection (sd ?w) = Some 0" using sender_invD(6) [OF reach_sender_inv [OF linked_sender_reach]] linked_sender_props(1) by simp
  have q: "dropped (sd_queue (sd ?w)) = 0" "length (contents (sd_queue (sd ?w))) + length (pushed ?ops) \<le> qcap (sd_queue (sd ?w))"
    unfolding linked_sender_props(4) contents_new by (simp_all add: new_mpsc_def Let_def)
  have e: "contents (sd_queue (sd ?w)) = []" by (simp only: linked_sender_props(4) contents_new)
  have m: "\<forall>m\<in>set (contents (sd_queue (sd ?w)) @ pushed ?ops). valid_payload (2 ^ 20) m" by (simp add: e valid_payload_def)
  have r: "stream 0 (sender_run ?ops ?w) = stream 0 ?w @ concat (map arriving ?rs)" "\<forall>rs\<in>set ?rs. plain_reads rs"
    by (simp_all add: comp_def plain_reads_def linked_sender_props)
  have "one_day (store sample_logsrv)" by (simp add: sample_logsrv_ok sample_one_day)
  from log_pipeline [OF linked_sender_reach c q refl linked_run_open m r sample_logsrv_ok(1-4) this refl]
  obtain ms ts where s: "[''a'', ''b''] = ms @ contents (sd_queue (sd (sender_run ?ops ?w)))" "length ts = length ms" "set ts \<subseteq> {sample_tm}"
    "day_log (store (fold (log_serve 3) ?rs sample_logsrv)) = day_log (sample_log 20) @ concat (map2 log_line ts ms)"
    unfolding sample_logsrv_ok(5) T e by auto
  moreover have "map2 log_line ts ms = map (log_line sample_tm) ms"
    using s(2,3) by (induction ts ms rule: list_induct2) auto
  ultimately show ?thesis by auto
qed

section \<open>What the echo server logs\<close>

lemma length_show_int: "\<bar>i\<bar> < 2 ^ 31 \<Longrightarrow> length (show_int i) \<le> 11"
proof -
  assume "\<bar>i\<bar> < 2 ^ 31"
  then have "nat i < 10 ^ Suc 9" "nat (- i) < 10 ^ Suc 9" by simp_all
  then show ?thesis using length_to_string [of "nat i" 9] length_to_string [of "nat (- i)" 9] by (simp add: show_int_def)
qed

text \<open>Texts of bounded length without a line break.\<close>

definition one_line :: "nat \<Rightarrow> string \<Rightarrow> bool" where
  "one_line n s \<longleftrightarrow> length s \<le> n \<and> CHR 0x0A \<notin> set s"

lemma one_line_append: "one_line m s \<Longrightarrow> one_line n t \<Longrightarrow> one_line (m + n) (s @ t)"
  by (simp add: one_line_def)

lemma to_string_no_break: "CHR 0x0A \<notin> set (to_string n)"
  using to_string_digits [of n] not_digit(8) by blast

lemma one_line_parts:
  "one_line 203 (preview data)" "one_line n s \<Longrightarrow> one_line n (c_str s)" "one_line 21 (format_peer addr)"
  "\<bar>i\<bar> < 2 ^ 31 \<Longrightarrow> one_line 11 (show_int i)" "n < 10 ^ Suc k \<Longrightarrow> one_line (Suc k) (to_string n)"
proof -
  show "one_line 203 (preview data)" by (auto simp: one_line_def preview_def kPreviewMax_def Let_def dest: in_set_takeD)
  show "one_line n s \<Longrightarrow> one_line n (c_str s)"
    using length_takeWhile_le order.trans by (fastforce simp: one_line_def c_str_def dest: set_takeWhileD)
  show "one_line 21 (format_peer addr)"
    using format_peer_length format_peer_chars [of addr] by (auto simp: one_line_def)
  show "\<bar>i\<bar> < 2 ^ 31 \<Longrightarrow> one_line 11 (show_int i)"
    using length_show_int by (simp add: one_line_def) (simp add: show_int_def to_string_no_break)
  show "n < 10 ^ Suc k \<Longrightarrow> one_line (Suc k) (to_string n)" by (simp add: one_line_def length_to_string to_string_no_break)
qed

lemma log_peer_line:
  assumes "cn_peer (conns w c) = format_peer addr" "\<bar>cn_fd (conns w c)\<bar> < 2 ^ 31"
  shows "one_line 41 (log_peer c w)"
proof -
  have "one_line 3 ''fd=''" "one_line 6 '' peer=''" by (simp_all add: one_line_def)
  from one_line_append [OF this(1) one_line_append [OF one_line_parts(4) [OF assms(2)] one_line_append [OF this(2) one_line_parts(2) [OF one_line_parts(3)]]]]
  show ?thesis using assms(1) by (simp add: log_peer_def)
qed

lemma format_log_line:
  assumes "one_line n body" "k < 1000"
  shows "one_line (n + 30) (format_log l ''src/main.cpp'' k (Some body))"
proof -
  have b: "basename_of ''src/main.cpp'' = ''main.cpp''" by code_simp
  have "one_line 5 (level_str l)" by (cases l) (simp_all add: one_line_def)
  moreover have "one_line 1 '' ''" "one_line 8 ''main.cpp''" "one_line 1 '':''" "one_line 3 '' | ''" by (simp_all add: one_line_def)
  moreover have "one_line 3 (to_string k)" using one_line_parts(5) [of k 2] assms(2) by simp
  ultimately show ?thesis using assms(1) by (simp add: one_line_def format_log_def b)
qed

lemma message_lines_loggable:
  assumes "cn_peer (conns w c) = format_peer addr" "\<bar>cn_fd (conns w c)\<bar> < 2 ^ 31" "length data < 10 ^ 19" "line \<in> set (message_lines c data w)"
  shows "valid_payload (unat kMaxFrameSize) line \<and> CHR 0x0A \<notin> set line"
proof -
  note pl = log_peer_line [OF assms(1,2)]
  have "one_line 19 (to_string (length data))" using one_line_parts(5) [of "length data" 18] assms(3) by simp
  with pl one_line_parts(2) [OF one_line_parts(1), of data] have "one_line 300 (recv_line c data w)"
    by (simp add: recv_line_def one_line_def)
  moreover have "one_line 300 (boom_line c w)" using pl by (simp add: boom_line_def one_line_def)
  ultimately have "one_line 330 line"
    using assms(4) format_log_line [of 300 _ 138 DEBUG] format_log_line [of 300 _ 145 ERROR] by (auto simp: message_lines_def split: if_splits)
  moreover have "line \<noteq> []" using assms(4) by (auto simp: message_lines_def format_log_def split: if_splits)
  ultimately show ?thesis by (cases line) (simp_all add: one_line_def valid_payload_def)
qed

text \<open>
  Whatever bytes a client sends, also line breaks, null bytes or megabytes, and whatever its address is,
  the lines the echo server logs about them are payloads the log server accepts, and each is a single line: a
  client cannot forge further lines of the log.
\<close>

theorem echo_line_is_loggable:
  assumes "cn_peer (conns w c) = format_peer addr" "\<bar>cn_fd (conns w c)\<bar> < 2 ^ 31" "length data < 10 ^ 19"
  shows "\<forall>line\<in>set (message_lines c data w). valid_payload (unat kMaxFrameSize) line \<and> CHR 0x0A \<notin> set line"
  using message_lines_loggable [OF assms] by blast

text \<open>A connection on an IO thread; the server is joined to the sender \<open>linked_sender\<close>.\<close>

definition sample_addr :: sockaddr_in where
  "sample_addr = \<lparr>sin_a = 127, sin_b = 0, sin_c = 0, sin_d = 1, sin_port = htons 4242\<rparr>"

definition sample_io :: echo_world where
  "sample_io = sample_echo_start\<lparr>this_thread := 1, conns := (\<lambda>_. (new_connection 1 9 (format_peer sample_addr) [] [])\<lparr>has_message_cb := True,
     has_close_cb := True, cn_context := Some 0, input_buffer := buf_append new_buffer ''a BOOM''\<rparr>),
     global_log := Some (sd_queue (sd (linked_sender [])))\<rparr>"

lemma sample_io_ok:
  "cn_peer (conns sample_io 3) = format_peer sample_addr" "\<bar>cn_fd (conns sample_io 3)\<bar> < 2 ^ 31" "joined sample_io (linked_sender [])"
  "conn_ok 3 sample_io" "\<not> in_loop_thread main_loop sample_io" "readable_view (input_buffer (conns sample_io 3)) = ''a BOOM''"
  by (simp_all add: sample_io_def sample_echo_start_def new_connection_def joined_def main_loop_def in_loop_thread_def readable_view_append
      conn_ok_def registered_def new_event_loop_def channel_ops buf_append_inv stream_def
      update_channel_def epoll_add_def ctl_fault_def new_channel_def is_writing_def)

theorem echo_line_is_loggable_witness:
  "list_all (\<lambda>line. CHR 0x0A \<notin> set line) (message_lines 3 [CHR ''a'', CHR 0x0A, CHR ''b''] sample_io)"
  using echo_line_is_loggable [OF sample_io_ok(1,2), of "[CHR ''a'', CHR 0x0A, CHR ''b'']"] by (simp add: list_all_iff)

text \<open>
  C2. From a client of the echo server to the log. The message callback runs on an IO thread, with the sender
  connected and its queue empty. Then the sender's queue has gained exactly the lines of this message, one
  tick puts them on the stream and empties the queue, and when the stream has reached the log server, in reads
  of any size, the log has gained exactly these lines, in order, each with a time stamp.
\<close>

theorem echo_to_log:
  assumes "conn_ok c w" "\<not> in_loop_thread main_loop w" "joined w s" "data = readable_view (input_buffer (conns w c))"
    "cn_peer (conns w c) = format_peer addr" "\<bar>cn_fd (conns w c)\<bar> < 2 ^ 31" "length data < 10 ^ 19"
    "reach sender_init sender_step (s, n)" "sd_connection (sd s) = Some e" "\<not> paused (sd s)" "contents (sd_queue (sd s)) = []"
    "dropped (sd_queue (sd s)) = 0" "2 \<le> qcap (sd_queue (sd s))" "2 \<le> max_batch_per_tick (sd_opts (sd s))"
    "lines = message_lines c data w" "s1 = push_all lines s" "s' = tick_fired s1" "is_open e s'"
    "stream e s' = stream e s @ concat (map arriving rounds)" "\<forall>rs\<in>set rounds. plain_reads rs"
    "conn_ok d v" "is_open d v" "has_message_cb (conns v d)" "readable_view (input_buffer (conns v d)) = []" "one_day (store v)"
    "v' = fold (log_serve d) rounds v"
  shows "joined (echo_on_message c w) s1 \<and> contents (sd_queue (sd s1)) = lines \<and> contents (sd_queue (sd s')) = []
    \<and> (\<exists>ts. length ts = length lines \<and> day_log (store v') = day_log (store v) @ concat (map2 log_line ts lines)) \<and> is_open d v'"
proof -
  have len: "length lines \<le> 2" by (simp add: assms(15) message_lines_def)
  have "mpsc_inv (sd_queue (sd s))" by (rule sender_invD(3) [OF reach_sender_inv [OF assms(8)]])
  note p = push_all_effect [OF this _ assms(16)]
  have s1: "sd_connection (sd s1) = Some e" "\<not> paused (sd s1)" "sd_opts (sd s1) = sd_opts (sd s)" "stream e s1 = stream e s"
    "contents (sd_queue (sd s1)) = lines" "dropped (sd_queue (sd s1)) = 0"
    using p len assms(9-13) by (simp_all add: stream_def)
  have i: "sender_inv n s1" using reach_sender_inv [OF push_all_reach [OF assms(8)]] by (simp add: assms(16))
  have cn: "connection (cl s1) = Some e" using s1(1) sender_invD(6) [OF i] by simp
  have "is_open e (tick_fired s1)" using assms(17,18) by simp
  note t = tick_drains [OF sender_inv_linked [OF i cn] sender_invD(3) [OF i] sender_inv_connected(1) [OF i cn] s1(2) this assms(17)]
  have st: "contents (sd_queue (sd s')) = []" "concat (map arriving rounds) = concat (map frame_encode lines)"
    using t(7,8) len assms(14,19) by (simp_all add: s1 dropped_notice_def)
  have "\<forall>m\<in>set lines. valid_payload (2 ^ 20) m" using message_lines_loggable [OF assms(5-7)] by (simp add: assms(15))
  moreover have inc: "incomplete (2 ^ 20) []" "incomplete (2 ^ 20) (readable_view (input_buffer (conns v d)))"
    by (simp_all add: incomplete_def assms(24))
  ultimately have "is_open d v'" "store v' = fold append_line lines (store v)"
    using log_serve_rounds [OF assms(21-23) inc(2) assms(20) _ _ inc(1) assms(26)] st(2) assms(24) by simp_all
  moreover have "joined (echo_on_message c w) s1" unfolding assms(15,16) by (rule echo_on_message_joined [OF assms(3,1,2,4)])
  ultimately show ?thesis using one_day_lines [OF assms(25) refl, of lines] s1(5) st(1) by (auto simp: stamped_def)
qed

theorem echo_to_log_witness:
  "\<exists>ts s' v'. s' = tick_fired (push_all (message_lines 3 ''a BOOM'' sample_io) (linked_sender []))
     \<and> v' = fold (log_serve 3) (map (\<lambda>b. [RBytes [b]]) (stream 0 s')) sample_logsrv
     \<and> length ts = 2 \<and> day_log (store v') = day_log (sample_log 20) @ concat (map2 log_line ts (message_lines 3 ''a BOOM'' sample_io))"
proof -
  let ?l = "message_lines 3 ''a BOOM'' sample_io" and ?s = "linked_sender []"
  let ?s1 = "push_all ?l ?s"
  let ?rs = "map (\<lambda>b. [RBytes [b]]) (stream 0 (tick_fired ?s1))"
  have len: "length ?l = 2" by (simp add: message_lines_def)
  have r: "reach sender_init sender_step (?s1, 0)" by (rule push_all_reach [OF linked_sender_reach])
  have c: "sd_connection (sd ?s) = Some 0" using sender_invD(6) [OF reach_sender_inv [OF linked_sender_reach]] linked_sender_props(1) by simp
  have q: "\<not> paused (sd ?s)" "contents (sd_queue (sd ?s)) = []" "dropped (sd_queue (sd ?s)) = 0" "2 \<le> qcap (sd_queue (sd ?s))"
    "2 \<le> max_batch_per_tick (sd_opts (sd ?s))" "mpsc_inv (sd_queue (sd ?s))"
    by (simp_all add: linked_sender_props default_options_def) (simp_all add: new_mpsc_def Let_def)
  note p = push_all_effect [OF q(6) _ refl, of ?l]
  have s1: "sd_connection (sd ?s1) = Some 0" "conns ?s1 = conns ?s" using p q(2,4) len c by simp_all
  note i = reach_sender_inv [OF r]
  have cn: "connection (cl ?s1) = Some 0" using s1(1) sender_invD(6) [OF i] by simp
  have op: "is_open 0 (tick_fired ?s1)"
    by (rule tick_blocked [OF sender_inv_linked [OF i cn] sender_invD(3) [OF i] sender_inv_connected(1) [OF i cn]]) (simp add: s1(2) linked_sender_props)
  have rs: "stream 0 (tick_fired ?s1) = stream 0 ?s @ concat (map arriving ?rs)" "\<forall>rs\<in>set ?rs. plain_reads rs"
    by (simp_all add: comp_def plain_reads_def linked_sender_props)
  have "one_day (store sample_logsrv)" by (simp add: sample_logsrv_ok sample_one_day)
  from echo_to_log [OF sample_io_ok(4,5,3) sample_io_ok(6) [symmetric] sample_io_ok(1,2) _ linked_sender_reach c q(1-5) refl refl refl op rs
      sample_logsrv_ok(1-4) this refl]
  show ?thesis by (auto simp: len sample_logsrv_ok(5))
qed

end
